(* ===== verification/Prelude.thy ===== *)
theory Prelude
  imports Main "HOL-Library.Word" "HOL-Library.Monad_Syntax"
begin

unbundle bit_operations_syntax

text \<open>
  Shared vocabulary of the development: the C types of the 32-bit build
  (source/header/general.h and source/header/ivory/common.h), little-endian byte splitting
  and joining, and the collections of rewrite rules the component theories use.

  \<^item> \<open>byte_join\<close> collects the facts that reassemble a word from its bytes;
  \<^item> \<open>repr_consts\<close> collects the values of the expression-tag constants;
  \<^item> \<open>bind_simps\<close> collects the facts that open the option monad in which every fallible
    operation of the model is written.
\<close>

named_theorems byte_join
named_theorems bind_simps
named_theorems repr_consts

subsection \<open>The C types of the 32-bit build\<close>

type_synonym byte = "8 word"
type_synonym u16 = "16 word"
type_synonym u32 = "32 word"
type_synonym u64 = "64 word"
type_synonym size_t = "32 word"
type_synonym addr = "32 word"

subsection \<open>The option monad\<close>

lemma bind_eq_Some [bind_simps]:
  "Option.bind x f = Some y \<longleftrightarrow> (\<exists>a. x = Some a \<and> f a = Some y)"
  by (cases x) auto

lemma bind_eq_None [bind_simps]:
  "Option.bind x f = None \<longleftrightarrow> (\<forall>a. x = Some a \<longrightarrow> f a = None)"
  by (cases x) auto

lemma some_the: "\<not> Option.is_none x \<Longrightarrow> x = Some (the x)"
  by (cases x) (simp_all add: Option.is_none_def)

subsection \<open>Little-endian bytes\<close>

text \<open>Byte \<open>k\<close> of a word, counted from the least significant one.\<close>

definition byte_of :: "'a::len word \<Rightarrow> nat \<Rightarrow> byte" where
  "byte_of w k = ucast (drop_bit (8 * k) w)"

lemma bit_byte_of [bit_simps]: "bit (byte_of w k) n \<longleftrightarrow> n < 8 \<and> bit w (8 * k + n)"
  by (auto simp: byte_of_def bit_simps dest: bit_imp_le_length)

text \<open>The inverse: put a byte at position \<open>k\<close> of a wider word.\<close>

definition at_byte :: "nat \<Rightarrow> byte \<Rightarrow> 'a::len word" where
  "at_byte k b = push_bit (8 * k) (ucast b)"

lemma bit_at_byte [bit_simps]:
  "bit (at_byte k b :: 'a::len word) n \<longleftrightarrow> n < LENGTH('a) \<and> 8 * k \<le> n \<and> bit b (n - 8 * k)"
  by (auto simp: at_byte_def bit_simps)

text \<open>Two 32-bit words are equal when they agree byte by byte.\<close>

lemma word32_eqI:
  fixes a b :: u32
  assumes "\<And>m. m < 8 \<Longrightarrow> bit a m = bit b m" "\<And>m. m < 8 \<Longrightarrow> bit a (8 + m) = bit b (8 + m)"
    "\<And>m. m < 8 \<Longrightarrow> bit a (16 + m) = bit b (16 + m)" "\<And>m. m < 8 \<Longrightarrow> bit a (24 + m) = bit b (24 + m)"
  shows "a = b"
proof (rule bit_word_eqI)
  fix n assume "n < LENGTH(32)"
  then consider "n < 8" | "8 \<le> n \<and> n < 16" | "16 \<le> n \<and> n < 24" | "24 \<le> n \<and> n < 32"
    by fastforce
  then show "bit a n = bit b n"
    using assms(1) [of n] assms(2) [of "n - 8"] assms(3) [of "n - 16"] assms(4) [of "n - 24"]
    by cases auto
qed

lemma join16 [byte_join]:
  fixes w :: u16
  shows "at_byte 0 (byte_of w 0) OR at_byte 1 (byte_of w 1) = w"
  by (rule bit_word_eqI) (auto simp: bit_simps)

lemma join32 [byte_join]:
  fixes w :: u32
  shows "at_byte 0 (byte_of w 0) OR at_byte 1 (byte_of w 1)
       OR at_byte 2 (byte_of w 2) OR at_byte 3 (byte_of w 3) = w"
  by (rule word32_eqI) (auto simp: bit_simps)

lemma byte_bit_less [dest]: "bit (b::byte) n \<Longrightarrow> n < 8"
  using bit_imp_le_length by fastforce

text \<open>The sums of shifted bytes that the readers compute have disjoint bits.\<close>

lemma add_bytes2 [byte_join]:
  fixes a b :: byte
  shows "push_bit 8 (ucast a) + ucast b = (push_bit 8 (ucast a) OR ucast b :: u32)"
  by (rule disjunctive_add_eq_or, rule bit_word_eqI) (auto simp: bit_simps dest!: byte_bit_less)

lemma add_bytes3 [byte_join]:
  fixes a b c :: byte
  shows "push_bit 16 (ucast a) + push_bit 8 (ucast b) + ucast c
       = ((push_bit 16 (ucast a) OR push_bit 8 (ucast b)) OR ucast c :: u32)"
proof -
  have "push_bit 16 (ucast a) + push_bit 8 (ucast b)
       = (push_bit 16 (ucast a) OR push_bit 8 (ucast b) :: u32)"
    by (rule disjunctive_add_eq_or, rule bit_word_eqI) (auto simp: bit_simps dest!: byte_bit_less)
  moreover have "(push_bit 16 (ucast a) OR push_bit 8 (ucast b)) + ucast c
       = ((push_bit 16 (ucast a) OR push_bit 8 (ucast b)) OR ucast c :: u32)"
    by (rule disjunctive_add_eq_or, rule bit_word_eqI) (auto simp: bit_simps dest!: byte_bit_less)
  ultimately show ?thesis by simp
qed

lemma add_bytes4 [byte_join]:
  fixes a b c d :: byte
  shows "push_bit 24 (ucast a) + push_bit 16 (ucast b) + push_bit 8 (ucast c) + ucast d
       = (((push_bit 24 (ucast a) OR push_bit 16 (ucast b)) OR push_bit 8 (ucast c)) OR ucast d :: u32)"
proof -
  have "push_bit 24 (ucast a) + push_bit 16 (ucast b)
       = (push_bit 24 (ucast a) OR push_bit 16 (ucast b) :: u32)"
    by (rule disjunctive_add_eq_or, rule bit_word_eqI) (auto simp: bit_simps dest!: byte_bit_less)
  moreover have "(push_bit 24 (ucast a) OR push_bit 16 (ucast b)) + push_bit 8 (ucast c)
       = ((push_bit 24 (ucast a) OR push_bit 16 (ucast b)) OR push_bit 8 (ucast c) :: u32)"
    by (rule disjunctive_add_eq_or, rule bit_word_eqI) (auto simp: bit_simps dest!: byte_bit_less)
  moreover have "((push_bit 24 (ucast a) OR push_bit 16 (ucast b)) OR push_bit 8 (ucast c)) + ucast d
       = (((push_bit 24 (ucast a) OR push_bit 16 (ucast b)) OR push_bit 8 (ucast c)) OR ucast d :: u32)"
    by (rule disjunctive_add_eq_or, rule bit_word_eqI) (auto simp: bit_simps dest!: byte_bit_less)
  ultimately show ?thesis by simp
qed

subsection \<open>Bits of small values and of single-bit masks\<close>

lemma bit_one_shifted [bit_simps]:
  "bit (push_bit k 1 :: 'a::len word) n \<longleftrightarrow> n = k \<and> k < LENGTH('a)"
  by (auto simp: bit_simps)

lemma and_single_bit:
  fixes p :: "'a::len word"
  assumes "k < LENGTH('a)"
  shows "p AND push_bit k 1 = 0 \<longleftrightarrow> \<not> bit p k"
proof
  assume "p AND push_bit k 1 = 0"
  then have "\<not> bit (p AND push_bit k 1) k" by simp
  with assms show "\<not> bit p k" by (simp add: bit_and_iff bit_exp_iff)
next
  assume "\<not> bit p k"
  then show "p AND push_bit k 1 = 0" by (intro bit_word_eqI) (auto simp: bit_and_iff bit_exp_iff)
qed

lemma bit_small:
  fixes w :: "'a::len word"
  assumes "w < 2 ^ k" "bit w n"
  shows "n < k"
proof (rule ccontr)
  assume "\<not> n < k"
  then have k: "k \<le> n" by simp
  with assms(2) have "k < LENGTH('a)" by (metis bit_imp_le_length le_less_trans)
  then have "unat (of_nat (2 ^ k) :: 'a word) = 2 ^ k" by (simp only: unat_of_nat) simp
  with assms(1) have "unat w < 2 ^ k" by (simp add: word_less_nat_alt)
  with k have "unat w < 2 ^ n" by (meson less_le_trans one_le_numeral power_increasing)
  then have "\<not> bit (unat w) n" by (simp add: bit_iff_odd)
  with assms(2) show False by (simp add: bit_unsigned_iff)
qed

text \<open>The single-bit tests and masks of the byte decoders.\<close>

lemma byte_tests:
  fixes p :: byte
  shows "p AND 0x80 = 0 \<longleftrightarrow> \<not> bit p 7" "p AND 0x40 = 0 \<longleftrightarrow> \<not> bit p 6"
    "p AND 0x20 = 0 \<longleftrightarrow> \<not> bit p 5"
    "p AND 0x7f = take_bit 7 p" "p AND 0x3f = take_bit 6 p" "p AND 0x1f = take_bit 5 p"
proof -
  have c: "(0x80::byte) = push_bit 7 1" "(0x40::byte) = push_bit 6 1" "(0x20::byte) = push_bit 5 1"
    "(0x7f::byte) = mask 7" "(0x3f::byte) = mask 6" "(0x1f::byte) = mask 5"
    by (simp, simp, simp, code_simp, code_simp, code_simp)
  show "p AND 0x80 = 0 \<longleftrightarrow> \<not> bit p 7" unfolding c by (rule and_single_bit) simp
  show "p AND 0x40 = 0 \<longleftrightarrow> \<not> bit p 6" unfolding c by (rule and_single_bit) simp
  show "p AND 0x20 = 0 \<longleftrightarrow> \<not> bit p 5" unfolding c by (rule and_single_bit) simp
  show "p AND 0x7f = take_bit 7 p" "p AND 0x3f = take_bit 6 p" "p AND 0x1f = take_bit 5 p"
    unfolding c by (simp_all only: take_bit_eq_mask)
qed

end
