(* ===== verification/Varint.thy ===== *)
theory Varint
  imports Prelude
begin

text \<open>
  The variable-length integers of source/API/gen (packVLU.cpp, packVLI.cpp, unpackVLU.cpp,
  unpackVLI.cpp), with C's \<open>long\<close> at the 32 bits of the i386 and ARM builds.

  An unsigned value takes \<open>n\<close> bytes of 7 payload bits each and \<open>n - 1\<close> leading one bits; a
  signed value is the same code shifted below the sign bit. The length loop tests
  \<open>val >= (1l << b)\<close> with \<open>b = 7 n\<close>; a shift count of 32 or more is undefined behaviour of the
  language, which the model returns as None.
\<close>

subsection \<open>Unsigned: packVLU and unpackVLU\<close>

text \<open>The shift \<open>1l << b\<close> of a 32-bit long: undefined from 32 on.\<close>

definition shift_one :: "nat \<Rightarrow> u32 option" where
  "shift_one b = (if b < 32 then Some (push_bit b 1) else None)"

text \<open>
  The do-while loop that finds the number of bytes. The state is the value of \<open>n\<close> before the
  body's increment.
\<close>

function vlu_length :: "nat \<Rightarrow> u32 \<Rightarrow> nat option" where
  "vlu_length n val =
     (let n' = Suc n; b = n' * 8 - n' in
      case shift_one b of
        None \<Rightarrow> None
      | Some lim \<Rightarrow> if val \<ge> lim then vlu_length n' val else Some n')"
  by pat_completeness auto
termination
  by (relation "measure (\<lambda>(n, val). 32 - n)") (auto simp: shift_one_def split: if_splits)

declare vlu_length.simps [simp del]

text \<open>\<open>for (i = 0; i < n; i++) v[i] = (unsigned char)(val >> (n - i - 1) * 8) & 0xff;\<close>\<close>

definition be_bytes :: "nat \<Rightarrow> u32 \<Rightarrow> byte list" where
  "be_bytes n val = map (\<lambda>i. byte_of val (n - i - 1)) [0..<n]"

text \<open>\<open>for (i = 0; i < n - 1; i++) v[0] ^= (0x80 >> i);\<close>\<close>

primrec xor_prefix :: "nat \<Rightarrow> byte \<Rightarrow> byte" where
  "xor_prefix 0 v = v"
| "xor_prefix (Suc i) v = xor_prefix i v XOR drop_bit i 0x80"

fun mark_head :: "(byte \<Rightarrow> byte) \<Rightarrow> byte list \<Rightarrow> byte list" where
  "mark_head f [] = []"
| "mark_head f (v # vs) = f v # vs"

definition packVLU :: "u32 \<Rightarrow> byte list option" where
  "packVLU val = (case vlu_length 0 val of
      None \<Rightarrow> None
    | Some n \<Rightarrow> Some (mark_head (xor_prefix (n - 1)) (be_bytes n val)))"

text \<open>
  \<open>unpackVLU\<close> reads at \<open>*buf\<close> and moves it: the model takes the bytes from \<open>*buf\<close> on and returns
  the value with the bytes left; reading past the last byte is None.
\<close>

fun unpackVLU :: "byte list \<Rightarrow> (u32 \<times> byte list) option" where
  "unpackVLU [] = None"
| "unpackVLU (p0 # bs) =
     (if p0 AND 0x80 = 0 then Some (ucast p0, bs)
      else if p0 AND 0x40 = 0 then
        (case bs of
           p1 # bs' \<Rightarrow> Some (push_bit 8 (ucast (p0 AND 0x7f)) + ucast p1, bs')
         | _ \<Rightarrow> None)
      else if p0 AND 0x20 = 0 then
        (case bs of
           p1 # p2 # bs' \<Rightarrow>
             Some (push_bit 16 (ucast (p0 AND 0x3f)) + push_bit 8 (ucast p1) + ucast p2, bs')
         | _ \<Rightarrow> None)
      else
        (case bs of
           p1 # p2 # p3 # bs' \<Rightarrow>
             Some (push_bit 24 (ucast (p0 AND 0x1f)) + push_bit 16 (ucast p1)
                   + push_bit 8 (ucast p2) + ucast p3, bs')
         | _ \<Rightarrow> None))"

lemma vlu_length_cases:
  "vlu_length 0 val =
     (if val < 2 ^ 7 then Some 1 else if val < 2 ^ 14 then Some 2
      else if val < 2 ^ 21 then Some 3 else if val < 2 ^ 28 then Some 4 else None)"
  by (simp add: vlu_length.simps [of _ val] shift_one_def Let_def not_less
      flip: not_less numeral_2_eq_2)

lemma bit_0x80: "bit (0x80::byte) n \<longleftrightarrow> n = 7"
proof -
  have "(0x80::byte) = push_bit 7 1" by simp
  then show ?thesis by (simp only: bit_one_shifted) simp
qed

lemma bit_xor_prefix [bit_simps]:
  "bit (xor_prefix k v) n \<longleftrightarrow> n < 8 \<and> (bit v n \<noteq> (n < 8 \<and> 8 \<le> n + k))"
proof (induction k)
  case 0
  then show ?case by (auto dest: bit_imp_le_length)
next
  case (Suc k)
  with bit_0x80 [of "k + n"] show ?case by (auto simp: bit_simps)
qed

lemma be_bytes_simps:
  "be_bytes (Suc 0) val = [byte_of val 0]"
  "be_bytes 2 val = [byte_of val 1, byte_of val 0]"
  "be_bytes 3 val = [byte_of val 2, byte_of val 1, byte_of val 0]"
  "be_bytes 4 val = [byte_of val 3, byte_of val 2, byte_of val 1, byte_of val 0]"
  by (simp_all add: be_bytes_def upt_rec numeral_2_eq_2)

lemma unpack_vlu1:
  assumes "val < 2 ^ 7"
  shows "unpackVLU (mark_head (xor_prefix 0) (be_bytes (Suc 0) val) @ rest) = Some (val, rest)"
proof -
  note small = bit_small [OF assms]
  have "ucast (byte_of val 0) = val"
    by (rule bit_word_eqI) (auto simp: bit_simps dest: small)
  then show ?thesis
    by (auto simp: be_bytes_simps byte_tests bit_simps dest: small)
qed

lemma unpack_vlu2:
  assumes "val < 2 ^ 14"
  shows "unpackVLU (mark_head (xor_prefix 1) (be_bytes 2 val) @ rest) = Some (val, rest)"
proof -
  note small = bit_small [OF assms]
  let ?v = "xor_prefix 1 (byte_of val 1)"
  have "push_bit 8 (ucast (take_bit 7 ?v)) OR ucast (byte_of val 0) = val"
    by (rule bit_word_eqI) (auto simp: bit_simps dest: small)
  moreover have "bit ?v 7" "\<not> bit ?v 6" by (auto simp: bit_simps dest: small)
  ultimately show ?thesis
    by (simp add: be_bytes_simps byte_tests byte_join or.assoc)
qed

lemma unpack_vlu3:
  assumes "val < 2 ^ 21"
  shows "unpackVLU (mark_head (xor_prefix 2) (be_bytes 3 val) @ rest) = Some (val, rest)"
proof -
  note small = bit_small [OF assms]
  let ?v = "xor_prefix 2 (byte_of val 2)"
  have "push_bit 16 (ucast (take_bit 6 ?v)) OR push_bit 8 (ucast (byte_of val 1))
        OR ucast (byte_of val 0) = val"
    by (rule word32_eqI) (auto simp: bit_simps dest: small)
  moreover have "bit ?v 7" "bit ?v 6" "\<not> bit ?v 5" by (auto simp: bit_simps dest: small)
  ultimately show ?thesis
    by (simp add: be_bytes_simps byte_tests byte_join or.assoc)
qed

lemma unpack_vlu4:
  assumes "val < 2 ^ 28"
  shows "unpackVLU (mark_head (xor_prefix 3) (be_bytes 4 val) @ rest) = Some (val, rest)"
proof -
  note small = bit_small [OF assms]
  let ?v = "xor_prefix 3 (byte_of val 3)"
  have "push_bit 24 (ucast (take_bit 5 ?v)) OR push_bit 16 (ucast (byte_of val 2))
        OR push_bit 8 (ucast (byte_of val 1)) OR ucast (byte_of val 0) = val"
    by (rule word32_eqI) (auto simp: bit_simps dest: small)
  moreover have "bit ?v 7" "bit ?v 6" "bit ?v 5" by (auto simp: bit_simps dest: small)
  ultimately show ?thesis
    by (simp add: be_bytes_simps byte_tests byte_join or.assoc)
qed

subsection \<open>Signed: packVLI and unpackVLI\<close>

text \<open>
  \<open>while (-(1l << b) > val || val >= (1l << b))\<close> with \<open>b = 8 n - n - 1\<close>; \<open>val\<close> is a signed long,
  kept as its 32 bits.
\<close>

function vli_length :: "nat \<Rightarrow> u32 \<Rightarrow> nat option" where
  "vli_length n val =
     (let n' = Suc n; b = n' * 8 - n' - 1 in
      case shift_one b of
        None \<Rightarrow> None
      | Some lim \<Rightarrow>
          if - sint lim > sint val \<or> sint val \<ge> sint lim then vli_length n' val else Some n')"
  by pat_completeness auto
termination
  by (relation "measure (\<lambda>(n, val). 32 - n)") (auto simp: shift_one_def split: if_splits)

declare vli_length.simps [simp del]

text \<open>\<open>c = 0x80; for (i = 0; i < n - 1; i++) v[0] ^= (c >>= 1);\<close>\<close>

primrec xor_sign_prefix :: "nat \<Rightarrow> byte \<Rightarrow> byte" where
  "xor_sign_prefix 0 v = v"
| "xor_sign_prefix (Suc i) v = xor_sign_prefix i v XOR drop_bit (Suc i) 0x80"

definition packVLI :: "u32 \<Rightarrow> byte list option" where
  "packVLI val = (case vli_length 0 val of
      None \<Rightarrow> None
    | Some n \<Rightarrow> Some (mark_head (xor_sign_prefix (n - 1)) (be_bytes n val)))"

text \<open>
  The reader. The one- and two-byte cases convert through \<open>char\<close> (signed: the build passes
  \<open>-fsigned-char\<close>) and \<open>short\<close>. When no case applies the source returns the uninitialised
  \<open>res\<close>: None.
\<close>

fun unpackVLI :: "byte list \<Rightarrow> (u32 \<times> byte list) option" where
  "unpackVLI [] = None"
| "unpackVLI (p0 # bs) =
     (if p0 AND 0xc0 = 0x00 \<or> p0 AND 0xc0 = 0xc0 then Some (scast p0, bs)
      else if p0 AND 0xe0 = 0x40 \<or> p0 AND 0xe0 = 0xa0 then
        (case bs of
           p1 # bs' \<Rightarrow>
             Some (scast (push_bit 8 (ucast p0 XOR 0x40) OR ucast p1 :: u16), bs')
         | _ \<Rightarrow> None)
      else if p0 AND 0xf0 = 0x60 \<or> p0 AND 0xf0 = 0x90 then
        (case bs of
           p1 # p2 # bs' \<Rightarrow>
             Some ((if p0 AND 0x80 = 0 then 0 else 0xff000000)
                   OR push_bit 16 (ucast p0 XOR 0x60) OR push_bit 8 (ucast p1) OR ucast p2, bs')
         | _ \<Rightarrow> None)
      else if p0 AND 0xf8 = 0x70 \<or> p0 AND 0xf8 = 0x88 then
        (case bs of
           p1 # p2 # p3 # bs' \<Rightarrow>
             Some (push_bit 24 (ucast p0 XOR 0x70) OR push_bit 16 (ucast p1)
                   OR push_bit 8 (ucast p2) OR ucast p3, bs')
         | _ \<Rightarrow> None)
      else None)"

lemma vli_length_cases:
  "vli_length 0 val =
     (if - (2 ^ 6) \<le> sint val \<and> sint val < 2 ^ 6 then Some 1
      else if - (2 ^ 13) \<le> sint val \<and> sint val < 2 ^ 13 then Some 2
      else if - (2 ^ 20) \<le> sint val \<and> sint val < 2 ^ 20 then Some 3
      else if - (2 ^ 27) \<le> sint val \<and> sint val < 2 ^ 27 then Some 4 else None)"
  by (simp add: vli_length.simps [of _ val] shift_one_def Let_def not_less
      flip: not_less numeral_2_eq_2)

lemma bit_small_signed:
  fixes w :: "'a::len word"
  assumes "- (2 ^ k) \<le> sint w" "sint w < 2 ^ k" "k < n" "n < LENGTH('a)"
  shows "bit w n = bit w k"
proof -
  have "signed_take_bit k (sint w) = sint w"
    using assms(1,2) by (rule signed_take_bit_int_eq_self)
  then have "bit (sint w) n = bit (sint w) (min k n)"
    by (metis bit_signed_take_bit_iff possible_bit_int)
  moreover have "n \<le> LENGTH('a) - Suc 0" "k \<le> LENGTH('a) - Suc 0"
    using assms(3,4) by linarith+
  then have "bit (sint w) n = bit w n" "bit (sint w) k = bit w k"
    by (simp_all add: bit_signed_iff min_absorb1)
  ultimately show ?thesis using assms(3) by (simp add: min_def)
qed

text \<open>Equality of a byte with a constant, read off its bits from the top.\<close>

lemma byte_eq_iff:
  fixes a b :: byte
  shows "a = b \<longleftrightarrow> bit a 0 = bit b 0 \<and> bit a 1 = bit b 1 \<and> bit a 2 = bit b 2 \<and> bit a 3 = bit b 3
    \<and> bit a 4 = bit b 4 \<and> bit a 5 = bit b 5 \<and> bit a 6 = bit b 6 \<and> bit a 7 = bit b 7" (is "_ \<longleftrightarrow> ?r")
proof
  assume ?r
  then have "\<forall>n < Suc (Suc (Suc (Suc (Suc (Suc (Suc (Suc 0))))))). bit a n = bit b n"
    by (simp add: All_less_Suc numeral_2_eq_2 numeral_3_eq_3 eval_nat_numeral)
  then show "a = b" by (intro bit_word_eqI) (simp add: eval_nat_numeral)
qed simp

lemma byte_mask_tests:
  fixes p :: byte
  shows
    "p AND 0xc0 = 0x00 \<longleftrightarrow> \<not> bit p 7 \<and> \<not> bit p 6" "p AND 0xc0 = 0xc0 \<longleftrightarrow> bit p 7 \<and> bit p 6"
    "p AND 0xe0 = 0x40 \<longleftrightarrow> \<not> bit p 7 \<and> bit p 6 \<and> \<not> bit p 5"
    "p AND 0xe0 = 0xa0 \<longleftrightarrow> bit p 7 \<and> \<not> bit p 6 \<and> bit p 5"
    "p AND 0xf0 = 0x60 \<longleftrightarrow> \<not> bit p 7 \<and> bit p 6 \<and> bit p 5 \<and> \<not> bit p 4"
    "p AND 0xf0 = 0x90 \<longleftrightarrow> bit p 7 \<and> \<not> bit p 6 \<and> \<not> bit p 5 \<and> bit p 4"
    "p AND 0xf8 = 0x70 \<longleftrightarrow> \<not> bit p 7 \<and> bit p 6 \<and> bit p 5 \<and> bit p 4 \<and> \<not> bit p 3"
    "p AND 0xf8 = 0x88 \<longleftrightarrow> bit p 7 \<and> \<not> bit p 6 \<and> \<not> bit p 5 \<and> \<not> bit p 4 \<and> bit p 3"
  by (simp_all add: byte_eq_iff bit_and_iff) auto


lemma bit_xor_sign_prefix [bit_simps]:
  "bit (xor_sign_prefix k v) n \<longleftrightarrow> n < 8 \<and> (bit v n \<noteq> (n < 7 \<and> 7 \<le> n + k))"
proof (induction k)
  case 0
  then show ?case by (auto dest: bit_imp_le_length)
next
  case (Suc k)
  have "bit (xor_sign_prefix (Suc k) v) n
      \<longleftrightarrow> bit (xor_sign_prefix k v) n \<noteq> (n + Suc k = 7)"
    by (simp only: xor_sign_prefix.simps bit_xor_iff bit_drop_bit_eq o_apply bit_0x80) auto
  with Suc show ?case by auto
qed

lemma unpack_vli1:
  assumes "- (2 ^ 6) \<le> sint val" "sint val < 2 ^ 6"
  shows "unpackVLI (mark_head (xor_sign_prefix 0) (be_bytes (Suc 0) val) @ rest) = Some (val, rest)"
proof -
  note small = bit_small_signed [OF assms]
  have "scast (byte_of val 0) = val"
    by (rule bit_word_eqI) (auto simp: bit_simps min_def small)
  then show ?thesis
    by (auto simp: be_bytes_simps byte_mask_tests bit_simps small)
qed

lemma bit_consts:
  "bit (0x40 :: u16) n \<longleftrightarrow> n = 6"
  "bit (0x60 :: u32) n \<longleftrightarrow> n = 5 \<or> n = 6"
  "bit (0x70 :: u32) n \<longleftrightarrow> n = 4 \<or> n = 5 \<or> n = 6"
  "bit (0xff000000 :: u32) n \<longleftrightarrow> 24 \<le> n \<and> n < 32"
proof -
  have c: "(0x40::u16) = push_bit 6 1" "(0x60 :: u32) = push_bit 5 1 OR push_bit 6 1"
    "(0x70 :: u32) = push_bit 4 1 OR push_bit 5 1 OR push_bit 6 1"
    "(0xff000000 :: u32) = push_bit 24 (mask 8)"
    by (simp, code_simp, code_simp, code_simp)
  show "bit (0x40 :: u16) n \<longleftrightarrow> n = 6" by (simp only: c bit_one_shifted) auto
  show "bit (0x60 :: u32) n \<longleftrightarrow> n = 5 \<or> n = 6" by (simp only: c bit_or_iff bit_one_shifted) auto
  show "bit (0x70 :: u32) n \<longleftrightarrow> n = 4 \<or> n = 5 \<or> n = 6" by (simp only: c bit_or_iff bit_one_shifted) auto
  show "bit (0xff000000 :: u32) n \<longleftrightarrow> 24 \<le> n \<and> n < 32" by (simp only: c bit_or_iff bit_push_bit_iff bit_mask_iff bit_one_shifted) auto
qed

declare xor_sign_prefix.simps [simp del]

text \<open>The reader's exclusive or takes the prefix off again.\<close>

lemma xor_sign_prefix_cancel:
  "ucast (xor_sign_prefix (Suc 0) v) XOR 0x40 = (ucast v :: u16)"
  "ucast (xor_sign_prefix 2 v) XOR 0x60 = (ucast v :: u32)"
  "ucast (xor_sign_prefix 3 v) XOR 0x70 = (ucast v :: u32)"
  by (rule bit_word_eqI, auto simp: bit_xor_iff bit_unsigned_iff bit_xor_sign_prefix bit_consts
      simp del: bit_numeral_word_iff dest: byte_bit_less)+

lemma unpack_vli2:
  assumes "- (2 ^ 13) \<le> sint val" "sint val < 2 ^ 13"
  shows "unpackVLI (mark_head (xor_sign_prefix 1) (be_bytes 2 val) @ rest) = Some (val, rest)"
proof -
  note small = bit_small_signed [OF assms]
  let ?v = "xor_sign_prefix 1 (byte_of val 1)"
  have "scast (push_bit 8 (ucast (byte_of val 1)) OR ucast (byte_of val 0) :: u16) = val"
    by (rule word32_eqI) (auto simp: bit_simps min_def small)
  moreover have "bit ?v 7 = (\<not> bit ?v 6)" "bit ?v 6 = (\<not> bit ?v 5)" by (auto simp: bit_simps small)
  ultimately show ?thesis
    by (simp add: be_bytes_simps byte_mask_tests xor_sign_prefix_cancel)
qed

lemma unpack_vli3:
  assumes "- (2 ^ 20) \<le> sint val" "sint val < 2 ^ 20"
  shows "unpackVLI (mark_head (xor_sign_prefix 2) (be_bytes 3 val) @ rest) = Some (val, rest)"
proof -
  have small: "24 \<le> n \<Longrightarrow> n < 32 \<Longrightarrow> bit val n = bit val 23" "bit val 23 = bit val 22"
    "bit val 22 = bit val 21" "bit val 21 = bit val 20" for n
    using bit_small_signed [OF assms, of n] bit_small_signed [OF assms, of 23]
      bit_small_signed [OF assms, of 22] bit_small_signed [OF assms, of 21] by auto
  let ?v = "xor_sign_prefix 2 (byte_of val 2)"
  have "(if \<not> bit (byte_of val 2) 7 then 0 else 0xff000000) OR push_bit 16 (ucast (byte_of val 2))
      OR push_bit 8 (ucast (byte_of val 1)) OR ucast (byte_of val 0) = val"
    by (rule word32_eqI) (auto simp: bit_simps bit_consts small simp del: bit_numeral_word_iff)
  moreover have "bit ?v 7 = bit (byte_of val 2) 7" "bit ?v 7 = (\<not> bit ?v 6)" "bit ?v 6 = bit ?v 5"
    "bit ?v 5 = (\<not> bit ?v 4)"
    by (auto simp: bit_simps small)
  ultimately show ?thesis
    by (simp add: be_bytes_simps byte_mask_tests byte_tests xor_sign_prefix_cancel or.assoc)
qed

lemma unpack_vli4:
  assumes "- (2 ^ 27) \<le> sint val" "sint val < 2 ^ 27"
  shows "unpackVLI (mark_head (xor_sign_prefix 3) (be_bytes 4 val) @ rest) = Some (val, rest)"
proof -
  have small: "bit val 31 = bit val 30" "bit val 30 = bit val 29" "bit val 29 = bit val 28"
    "bit val 28 = bit val 27"
    using bit_small_signed [OF assms, of 31] bit_small_signed [OF assms, of 30]
      bit_small_signed [OF assms, of 29] bit_small_signed [OF assms, of 28] by auto
  let ?v = "xor_sign_prefix 3 (byte_of val 3)"
  have "push_bit 24 (ucast (byte_of val 3)) OR push_bit 16 (ucast (byte_of val 2))
      OR push_bit 8 (ucast (byte_of val 1)) OR ucast (byte_of val 0) = val"
    by (rule word32_eqI) (auto simp: bit_simps)
  moreover have "bit ?v 7 = (\<not> bit ?v 6)" "bit ?v 6 = bit ?v 5" "bit ?v 5 = bit ?v 4"
    "bit ?v 4 = (\<not> bit ?v 3)"
    by (auto simp: bit_simps small)
  ultimately show ?thesis
    by (simp add: be_bytes_simps byte_mask_tests xor_sign_prefix_cancel or.assoc)
qed

text \<open>The encoders are defined exactly on the values of at most four bytes, and every
  encoding is read back, whatever follows it.\<close>

lemma packVLU_defined [simp]: "packVLU val \<noteq> None \<longleftrightarrow> val < 2 ^ 28"
  by (auto simp: packVLU_def vlu_length_cases word_less_nat_alt split: if_splits)

lemma packVLI_defined [simp]:
  "packVLI val \<noteq> None \<longleftrightarrow> - (2 ^ 27) \<le> sint val \<and> sint val < 2 ^ 27"
  by (auto simp: packVLI_def vli_length_cases split: if_splits)

lemma unpackVLU_packVLU:
  assumes "packVLU val = Some bs"
  shows "unpackVLU (bs @ rest) = Some (val, rest)"
  using assms unpack_vlu1 [of val rest] unpack_vlu2 [of val rest] unpack_vlu3 [of val rest]
    unpack_vlu4 [of val rest]
  by (auto simp: packVLU_def vlu_length_cases split: if_splits simp del: unpackVLU.simps)

lemma unpackVLI_packVLI:
  assumes "packVLI val = Some bs"
  shows "unpackVLI (bs @ rest) = Some (val, rest)"
  using assms unpack_vli1 [of val rest] unpack_vli2 [of val rest] unpack_vli3 [of val rest]
    unpack_vli4 [of val rest]
  by (auto simp: packVLI_def vli_length_cases split: if_splits simp del: unpackVLI.simps)

lemma length_mark_head [simp]: "length (mark_head f bs) = length bs"
  by (cases bs) auto

lemma length_be_bytes [simp]: "length (be_bytes n val) = n"
  by (simp add: be_bytes_def)

lemma packVLU_length:
  "packVLU val = Some bs \<Longrightarrow> vlu_length 0 val = Some (length bs)"
  by (auto simp: packVLU_def split: option.splits)

lemma packVLU_nonempty [simp]: "packVLU val \<noteq> Some []"
  using packVLU_length [of val "[]"] by (auto simp: vlu_length_cases split: if_splits)

subsection \<open>Properties\<close>

text \<open>C27: packVLU succeeds exactly on the values below \<open>2 ^ 28\<close>; it then produces the shortest
  number of 7-bit groups that holds the value, and unpackVLU reads the value back and leaves the
  bytes after it. From \<open>2 ^ 28\<close> on the length loop shifts a 32-bit long by 35 places, which is
  undefined, and no encoding exists that unpackVLU could read.\<close>

theorem vlu_roundtrip:
  "(case packVLU val of
      Some bs \<Rightarrow> val < 2 ^ 28 \<and> unpackVLU (bs @ rest) = Some (val, rest)
        \<and> length bs = (LEAST n. 0 < n \<and> unat val < 2 ^ (7 * n))
    | None \<Rightarrow> 2 ^ 28 \<le> val)"
proof -
  have least: "(LEAST n. 0 < n \<and> unat val < 2 ^ (7 * n)) = k"
    if "0 < k" "unat val < 2 ^ (7 * k)" "k = 1 \<or> 2 ^ (7 * (k - 1)) \<le> unat val" for k
  proof (rule Least_equality)
    fix n assume n: "0 < n \<and> unat val < 2 ^ (7 * n)"
    show "k \<le> n"
    proof (rule ccontr)
      assume "\<not> k \<le> n"
      then have "7 * n \<le> 7 * (k - 1)" "k \<noteq> 1" using n by auto
      then have "(2::nat) ^ (7 * n) \<le> 2 ^ (7 * (k - 1))" by (intro power_increasing) auto
      with n have "unat val < 2 ^ (7 * (k - 1))" by (meson less_le_trans)
      with that(3) \<open>k \<noteq> 1\<close> show False by linarith
    qed
  qed (use that in simp)
  show ?thesis
  proof (cases "packVLU val")
    case (Some bs)
    then have "length bs = (LEAST n. 0 < n \<and> unat val < 2 ^ (7 * n))"
      using packVLU_length [OF Some]
        least [of 1] least [of 2] least [of 3] least [of 4]
      by (auto simp: vlu_length_cases word_less_nat_alt not_less split: if_splits)
    with Some show ?thesis using packVLU_defined [of val] unpackVLU_packVLU [OF Some] by simp
  qed (use packVLU_defined [of val] in simp)
qed

text \<open>C28: packVLI succeeds exactly on the values from \<open>- (2 ^ 27)\<close> to \<open>2 ^ 27 - 1\<close>, and unpackVLI
  returns the value with its sign and leaves the bytes after it.\<close>

theorem vli_roundtrip:
  "(case packVLI val of
      Some bs \<Rightarrow> - (2 ^ 27) \<le> sint val \<and> sint val < 2 ^ 27
        \<and> unpackVLI (bs @ rest) = Some (val, rest)
    | None \<Rightarrow> sint val < - (2 ^ 27) \<or> 2 ^ 27 \<le> sint val)"
  using packVLI_defined [of val] unpackVLI_packVLI [of val _ rest]
  by (auto split: option.splits simp del: packVLI_defined)

end
