(* ===== verification/Gen.thy ===== *)
theory Gen
  imports Prelude
begin

text \<open>
  The small utilities of source/API/gen that the run-time structures use: the DJB2 hash
  (hashDJB2.cpp, the function and the incremental class), the string hash (hashString.cpp) and
  the in-place byte reversal (byteSwap.cpp).
\<close>

subsection \<open>DJB2\<close>

definition HASHDJB2_INITIAL_HASH :: u32 where
  "HASHDJB2_INITIAL_HASH = 5381"

text \<open>The index loop of the function \<open>hashDJB2\<close>; \<open>i\<close> is a size_t and the sum wraps.\<close>

function hashDJB2_loop :: "byte list \<Rightarrow> nat \<Rightarrow> u32 \<Rightarrow> u32" where
  "hashDJB2_loop bytes i hash =
     (if i < length bytes
      then hashDJB2_loop bytes (Suc i) ((push_bit 5 hash + hash) + ucast (bytes ! i))
      else hash)"
  by pat_completeness auto
termination by (relation "measure (\<lambda>(bytes, i, hash). length bytes - i)") auto

declare hashDJB2_loop.simps [simp del]

definition hashDJB2 :: "byte list \<Rightarrow> u32" where
  "hashDJB2 bytes = hashDJB2_loop bytes 0 HASHDJB2_INITIAL_HASH"

text \<open>The class \<open>HashDJB2\<close>: its state is the running hash.\<close>

definition HashDJB2_gen_byte :: "u32 \<Rightarrow> byte \<Rightarrow> u32" where
  "HashDJB2_gen_byte hash b = (push_bit 5 hash + hash) + ucast b"

definition HashDJB2_gen :: "u32 \<Rightarrow> byte list \<Rightarrow> u32" where
  "HashDJB2_gen hash bytes = foldl HashDJB2_gen_byte hash bytes"

lemma hashDJB2_loop_foldl:
  "i \<le> length bytes \<Longrightarrow>
   hashDJB2_loop bytes i hash = foldl HashDJB2_gen_byte hash (drop i bytes)"
proof (induction "length bytes - i" arbitrary: i hash)
  case 0
  then show ?case by (simp add: hashDJB2_loop.simps)
next
  case (Suc k)
  then have "i < length bytes" "k = length bytes - Suc i" by auto
  with Suc(1) [of "Suc i"] show ?case
    by (subst hashDJB2_loop.simps) (simp add: HashDJB2_gen_byte_def flip: Cons_nth_drop_Suc)
qed

subsection \<open>hashString\<close>

text \<open>
  \<open>for (v = *s * 8; *s != '\\0'; s++) v += *s * j++;\<close> over the characters before the terminator;
  \<open>char\<close> is signed in this build, so each is sign-extended before the unsigned product.
\<close>

primrec hashString_loop :: "byte list \<Rightarrow> u32 \<Rightarrow> u32 \<Rightarrow> u32" where
  "hashString_loop [] v j = v"
| "hashString_loop (c # cs) v j = hashString_loop cs (v + scast c * j) (j + 1)"

definition hashString :: "byte list \<Rightarrow> u32" where
  "hashString s = hashString_loop s (scast (case s of [] \<Rightarrow> 0 | c # _ \<Rightarrow> c) * 8) 3"

lemma hashString_loop_sum:
  "hashString_loop s v j = v + (\<Sum>i<length s. scast (s ! i) * (j + of_nat i))"
proof (induction s arbitrary: v j)
  case (Cons c cs)
  have "(\<Sum>i<length (c # cs). scast ((c # cs) ! i) * (j + of_nat i))
      = scast c * j + (\<Sum>i<length cs. scast (cs ! i) * (j + 1 + of_nat i))"
    by (simp add: sum.lessThan_Suc_shift algebra_simps del: sum.lessThan_Suc)
  with Cons show ?case by simp
qed simp

subsection \<open>byteSwap\<close>

text \<open>
  The two-pointer loop: \<open>s\<close> and \<open>e\<close> are the offsets of \<open>sptr\<close> and \<open>eptr\<close> in the buffer.
\<close>

function byteSwap_loop :: "nat \<Rightarrow> nat \<Rightarrow> 'b list \<Rightarrow> 'b list" where
  "byteSwap_loop s e buf =
     (if s < e then
        let e' = e - 1; t = buf ! e'; buf = buf[e' := buf ! s]; buf = buf[s := t]
        in byteSwap_loop (Suc s) e' buf
      else buf)"
  by pat_completeness auto
termination by (relation "measure (\<lambda>(s, e, buf). e - s)") auto

declare byteSwap_loop.simps [simp del]

definition byteSwap :: "'b list \<Rightarrow> nat \<Rightarrow> 'b list" where
  "byteSwap buf sz = byteSwap_loop 0 sz buf"

lemma byteSwap_loop_nth:
  assumes "e \<le> length buf" "i < length buf"
  shows "byteSwap_loop s e buf ! i = (if s \<le> i \<and> i < e then buf ! (s + (e - 1 - i)) else buf ! i)"
  using assms
proof (induction s e buf rule: byteSwap_loop.induct)
  case (1 s e buf)
  show ?case
  proof (cases "s < e")
    case True
    let ?b = "buf[e - 1 := buf ! s, s := buf ! (e - 1)]"
    have "byteSwap_loop s e buf = byteSwap_loop (Suc s) (e - 1) ?b"
      using True by (subst byteSwap_loop.simps) (simp add: Let_def)
    moreover have "byteSwap_loop (Suc s) (e - 1) ?b ! i
        = (if Suc s \<le> i \<and> i < e - 1 then ?b ! (Suc s + (e - 1 - 1 - i)) else ?b ! i)"
      using True "1.prems" by (intro "1.IH") auto
    moreover have "Suc s + (e - 1 - 1 - i) = s + (e - 1 - i)" if "Suc s \<le> i" "i < e - 1"
      using that by simp
    ultimately show ?thesis
      using True "1.prems" by (auto simp: nth_list_update)
  next
    case False
    then show ?thesis by (auto simp: byteSwap_loop.simps)
  qed
qed

lemma length_byteSwap_loop [simp]: "length (byteSwap_loop s e buf) = length buf"
proof (induction s e buf rule: byteSwap_loop.induct)
  case (1 s e buf)
  then show ?case
    by (cases "s < e") (simp_all add: byteSwap_loop.simps [of s e buf] Let_def)
qed

lemma byteSwap_prefix:
  assumes "sz \<le> length buf"
  shows "byteSwap buf sz = rev (take sz buf) @ drop sz buf"
proof (rule nth_equalityI)
  show "length (byteSwap buf sz) = length (rev (take sz buf) @ drop sz buf)"
    using assms by (simp add: byteSwap_def)
  fix i assume "i < length (byteSwap buf sz)"
  then show "byteSwap buf sz ! i = (rev (take sz buf) @ drop sz buf) ! i"
    using assms byteSwap_loop_nth [OF assms, of i 0]
    by (auto simp: byteSwap_def nth_append rev_nth min_def)
qed

subsection \<open>Properties\<close>

text \<open>The incremental hash, fed a byte sequence in any two pieces from the initial value,
  equals the one-shot function on the whole sequence, which is the polynomial
  \<open>hash * 33 + byte\<close> from 5381.\<close>

theorem hashDJB2_incremental:
  "HashDJB2_gen (HashDJB2_gen HASHDJB2_INITIAL_HASH as) bs = hashDJB2 (as @ bs)
   \<and> hashDJB2 bytes = foldl (\<lambda>h b. h * 33 + ucast b) 5381 bytes"
proof -
  have "HashDJB2_gen_byte = (\<lambda>h b. h * 33 + ucast b)"
    by (intro ext) (simp add: HashDJB2_gen_byte_def push_bit_eq_mult)
  then show ?thesis
    by (simp add: HashDJB2_gen_def hashDJB2_def hashDJB2_loop_foldl HASHDJB2_INITIAL_HASH_def)
qed

text \<open>The two-pointer loop of byteSwap reverses the first bytes of the buffer and touches
  nothing else, for every size up to the buffer's, odd ones included; it is its own inverse.\<close>

theorem byteSwap_reverses:
  assumes "sz \<le> length buf"
  shows "byteSwap buf sz = rev (take sz buf) @ drop sz buf
    \<and> byteSwap (byteSwap buf sz) sz = buf"
  using assms byteSwap_prefix [of sz "rev (take sz buf) @ drop sz buf"]
  by (simp add: byteSwap_prefix)

theorem byteSwap_reverses_witness:
  "byteSwap [1, 2, 3, 4, 5 :: byte] 3 = [3, 2, 1, 4, 5]"
  using byteSwap_reverses [of 3 "[1, 2, 3, 4, 5 :: byte]"] by simp

end
