(* ===== verification/Archive.thy ===== *)
theory Archive
  imports Varint
begin

text \<open>
  The binary archive of source/API/archive/archive.cpp. The class has pure virtual \<open>put\<close> and
  \<open>get\<close>; what it adds are the byte orders. The model of the output side is the list of bytes
  put so far, the model of the input side is the list of bytes still to come, and a read past
  its end is None. The build is little endian, so the BIG_ENDIAN branches are absent.

  The locale \<open>archive_codec\<close> is the contract between an insertion and the extraction that reads
  it: what is written is read back, whatever follows. Its lemmas (sequences of items, no
  encoding is a proper prefix of another) hold for each of the operator pairs.
\<close>

subsection \<open>Bytes\<close>

definition Archive_put :: "byte \<Rightarrow> byte list \<Rightarrow> byte list" where
  "Archive_put b out = out @ [b]"

fun Archive_get :: "byte list \<Rightarrow> (byte \<times> byte list) option" where
  "Archive_get [] = None"
| "Archive_get (b # bs) = Some (b, bs)"

text \<open>\<open>for (j = 0; j < sizeof(T); j++) put(((Byte * )(&i))[j]);\<close>\<close>

definition put_bytes_of :: "nat \<Rightarrow> 'a::len word \<Rightarrow> byte list \<Rightarrow> byte list" where
  "put_bytes_of n w out = fold (\<lambda>j. Archive_put (byte_of w j)) [0..<n] out"

text \<open>Store a byte into the representation of an object, and the loop of the extractions,
  which overwrites the bytes of the target object one at a time.\<close>

definition set_byte :: "'a::len word \<Rightarrow> nat \<Rightarrow> byte \<Rightarrow> 'a word" where
  "set_byte w j b = (w AND NOT (push_bit (8 * j) 0xff)) OR at_byte j b"

primrec get_bytes_into :: "nat \<Rightarrow> 'a::len word \<Rightarrow> byte list \<Rightarrow> ('a word \<times> byte list) option" where
  "get_bytes_into 0 w bs = Some (w, bs)"
| "get_bytes_into (Suc j) w bs = do {
     (w, bs) \<leftarrow> get_bytes_into j w bs;
     (b, bs) \<leftarrow> Archive_get bs;
     Some (set_byte w j b, bs) }"

text \<open>The operator pairs. The extractions take the old value of the object they fill.\<close>

definition insert_Byte :: "byte \<Rightarrow> byte list \<Rightarrow> byte list" where
  "insert_Byte b out = Archive_put b out"

definition extract_Byte :: "byte list \<Rightarrow> (byte \<times> byte list) option" where
  "extract_Byte bs = Archive_get bs"

definition insert_Int16 :: "u16 \<Rightarrow> byte list \<Rightarrow> byte list" where
  "insert_Int16 i out = put_bytes_of 2 i out"

definition extract_Int16 :: "u16 \<Rightarrow> byte list \<Rightarrow> (u16 \<times> byte list) option" where
  "extract_Int16 i bs = get_bytes_into 2 i bs"

definition insert_UInt16 :: "u16 \<Rightarrow> byte list \<Rightarrow> byte list" where
  "insert_UInt16 i out = put_bytes_of 2 i out"

definition extract_UInt16 :: "u16 \<Rightarrow> byte list \<Rightarrow> (u16 \<times> byte list) option" where
  "extract_UInt16 i bs = get_bytes_into 2 i bs"

definition insert_Int32 :: "u32 \<Rightarrow> byte list \<Rightarrow> byte list" where
  "insert_Int32 i out = put_bytes_of 4 i out"

definition extract_Int32 :: "u32 \<Rightarrow> byte list \<Rightarrow> (u32 \<times> byte list) option" where
  "extract_Int32 i bs = get_bytes_into 4 i bs"

definition insert_UInt32 :: "u32 \<Rightarrow> byte list \<Rightarrow> byte list" where
  "insert_UInt32 i out = (let ti = i in put_bytes_of 4 ti out)"

definition extract_UInt32 :: "u32 \<Rightarrow> byte list \<Rightarrow> (u32 \<times> byte list) option" where
  "extract_UInt32 i bs = get_bytes_into 4 i bs"

text \<open>A float or double is kept as its representation, which is all these operators see.\<close>

definition insert_float :: "u32 \<Rightarrow> byte list \<Rightarrow> byte list" where
  "insert_float f out = (let tf = f in put_bytes_of 4 tf out)"

definition extract_float :: "u32 \<Rightarrow> byte list \<Rightarrow> (u32 \<times> byte list) option" where
  "extract_float f bs = get_bytes_into 4 f bs"

definition insert_double :: "u64 \<Rightarrow> byte list \<Rightarrow> byte list" where
  "insert_double d out = (let td = d in put_bytes_of 8 td out)"

definition extract_double :: "u64 \<Rightarrow> byte list \<Rightarrow> (u64 \<times> byte list) option" where
  "extract_double d bs = get_bytes_into 8 d bs"

definition Archive_putBytes :: "byte list \<Rightarrow> byte list \<Rightarrow> byte list" where
  "Archive_putBytes byteV out = fold Archive_put byteV out"

primrec Archive_getBytes :: "nat \<Rightarrow> byte list \<Rightarrow> (byte list \<times> byte list) option" where
  "Archive_getBytes 0 bs = Some ([], bs)"
| "Archive_getBytes (Suc n) bs = do {
     (byteV, bs) \<leftarrow> Archive_getBytes n bs;
     (b, bs) \<leftarrow> Archive_get bs;
     Some (byteV @ [b], bs) }"

subsection \<open>Variable-length unsigned values\<close>

text \<open>
  \<open>insertVLU\<close> repeats the computation of \<open>packVLU\<close> on a local array and puts its bytes;
  \<open>extractVLU\<close> reads byte by byte, the last one added to \<open>res\<close> at the end.
\<close>

definition insertVLU :: "u32 \<Rightarrow> byte list \<Rightarrow> byte list option" where
  "insertVLU val out = do {
     n \<leftarrow> vlu_length 0 val;
     let v = mark_head (xor_prefix (n - 1)) (be_bytes n val);
     Some (fold insert_Byte v out) }"

definition extractVLU :: "byte list \<Rightarrow> (u32 \<times> byte list) option" where
  "extractVLU bs = do {
     (b, bs) \<leftarrow> extract_Byte bs;
     if b AND 0x80 = 0 then Some (0 + ucast b, bs)
     else if b AND 0x40 = 0 then do {
       let res = push_bit 8 (ucast (b AND 0x7f));
       (b, bs) \<leftarrow> extract_Byte bs;
       Some (res + ucast b, bs) }
     else if b AND 0x20 = 0 then do {
       let res = push_bit 16 (ucast (b AND 0x3f));
       (b, bs) \<leftarrow> extract_Byte bs;
       let res = res + push_bit 8 (ucast b);
       (b, bs) \<leftarrow> extract_Byte bs;
       Some (res + ucast b, bs) }
     else do {
       let res = push_bit 24 (ucast (b AND 0x1f));
       (b, bs) \<leftarrow> extract_Byte bs;
       let res = res + push_bit 16 (ucast b);
       (b, bs) \<leftarrow> extract_Byte bs;
       let res = res + push_bit 8 (ucast b);
       (b, bs) \<leftarrow> extract_Byte bs;
       Some (res + ucast b, bs) } }"

subsection \<open>What is put\<close>

lemma fold_Archive_put: "fold Archive_put bs out = out @ bs"
  by (induction bs arbitrary: out) (simp_all add: Archive_put_def)

lemma put_bytes_of_append: "put_bytes_of n w out = out @ map (byte_of w) [0..<n]"
  using fold_Archive_put [of "map (byte_of w) [0..<n]" out]
  by (simp add: put_bytes_of_def fold_map o_def)

lemma insertVLU_packVLU: "insertVLU val out = map_option (\<lambda>bs. out @ bs) (packVLU val)"
proof -
  have "insert_Byte = Archive_put" by (intro ext) (simp add: insert_Byte_def)
  then show ?thesis
    by (auto simp: insertVLU_def packVLU_def Let_def fold_Archive_put split: option.splits)
qed

lemma extractVLU_unpackVLU: "extractVLU bs = unpackVLU bs"
  by (cases bs rule: unpackVLU.cases)
    (auto simp: extractVLU_def extract_Byte_def Let_def add.assoc split: list.splits)

subsection \<open>What is got back\<close>

lemma bit_set_byte:
  "bit (set_byte (w :: 'a::len word) j b) n \<longleftrightarrow>
     n < LENGTH('a) \<and> (if 8 * j \<le> n \<and> n < 8 * j + 8 then bit b (n - 8 * j) else bit w n)"
proof -
  have ff: "(0xff :: 'a word) = mask 8" by (simp add: mask_eq_exp_minus_1)
  show ?thesis unfolding set_byte_def ff by (auto simp: bit_simps dest: bit_imp_le_length)
qed

lemma get_bytes_into_map:
  fixes v w :: "'a::len word"
  shows "\<exists>w'. get_bytes_into n w (map (byte_of v) [0..<n] @ rest) = Some (w', rest)
      \<and> (\<forall>i. bit w' i = (if i < 8 * n then bit v i else bit w i))"
proof (induction n arbitrary: rest)
  case (Suc n)
  from Suc [of "byte_of v n # rest"] obtain w' where w':
    "get_bytes_into n w (map (byte_of v) [0..<n] @ byte_of v n # rest) = Some (w', byte_of v n # rest)"
    "\<forall>i. bit w' i = (if i < 8 * n then bit v i else bit w i)" by blast
  then have "get_bytes_into (Suc n) w (map (byte_of v) [0..<Suc n] @ rest)
      = Some (set_byte w' n (byte_of v n), rest)" by simp
  moreover have "bit (set_byte w' n (byte_of v n)) i = (if i < 8 * Suc n then bit v i else bit w i)" for i
    using bit_imp_le_length [of v i] bit_imp_le_length [of w i]
    by (cases "i < 8 * n"; cases "i < 8 * n + 8") (auto simp: bit_set_byte bit_byte_of w'(2))
  ultimately show ?case by blast
qed auto

lemma get_bytes_into_put:
  fixes v w :: "'a::len word"
  assumes "LENGTH('a) = 8 * n"
  shows "get_bytes_into n w (map (byte_of v) [0..<n] @ rest) = Some (v, rest)"
proof -
  obtain w' where w': "get_bytes_into n w (map (byte_of v) [0..<n] @ rest) = Some (w', rest)"
    "\<forall>i. bit w' i = (if i < 8 * n then bit v i else bit w i)" using get_bytes_into_map by blast
  from w'(2) have "w' = v" by (intro bit_word_eqI) (simp add: assms)
  with w' show ?thesis by simp
qed

lemma get_bytes_into_short: "length bs < n \<Longrightarrow> get_bytes_into n w bs = None"
proof -
  have *: "get_bytes_into n w bs = Some (w', bs') \<Longrightarrow> length bs = n + length bs'" for w' bs'
  proof (induction n arbitrary: w' bs')
    case (Suc n)
    then obtain w1 b bs1 where "get_bytes_into n w bs = Some (w1, b # bs')"
      by (auto simp: bind_simps elim!: Archive_get.elims)
    with Suc.IH show ?case by fastforce
  qed simp
  show "length bs < n \<Longrightarrow> get_bytes_into n w bs = None"
    using * by (cases "get_bytes_into n w bs") fastforce+
qed

lemma Archive_getBytes_append: "Archive_getBytes (length v) (v @ rest) = Some (v, rest)"
proof (induction v arbitrary: rest rule: rev_induct)
  case (snoc b v)
  from snoc [of "b # rest"] show ?case by simp
qed simp

lemma Archive_getBytes_eq:
  "Archive_getBytes n bs = (if n \<le> length bs then Some (take n bs, drop n bs) else None)"
proof (induction n)
  case (Suc n)
  show ?case
  proof (cases "n < length bs")
    case True
    with Suc show ?thesis
      by (simp add: take_Suc_conv_app_nth flip: Cons_nth_drop_Suc)
  next
    case False
    with Suc show ?thesis by (auto simp: bind_simps not_less)
  qed
qed simp

subsection \<open>The contract of an insertion and its extraction\<close>

locale archive_codec =
  fixes ins :: "'v \<Rightarrow> byte list \<Rightarrow> byte list option"
    and ext :: "byte list \<Rightarrow> ('v \<times> byte list) option"
  assumes ins_appends:
    "ins v out = Some out' \<Longrightarrow> \<exists>bs. out' = out @ bs \<and> (\<forall>rest. ext (bs @ rest) = Some (v, rest))"
begin

text \<open>A sequence of items, inserted one after the other and extracted by count.\<close>

primrec ins_list :: "'v list \<Rightarrow> byte list \<Rightarrow> byte list option" where
  "ins_list [] out = Some out"
| "ins_list (v # vs) out = do { out \<leftarrow> ins v out; ins_list vs out }"

primrec ext_list :: "nat \<Rightarrow> byte list \<Rightarrow> ('v list \<times> byte list) option" where
  "ext_list 0 bs = Some ([], bs)"
| "ext_list (Suc n) bs = do {
     (v, bs) \<leftarrow> ext bs; (vs, bs) \<leftarrow> ext_list n bs; Some (v # vs, bs) }"

lemma ins_list_appends:
  "ins_list vs out = Some out' \<Longrightarrow>
   \<exists>bs. out' = out @ bs \<and> (\<forall>rest. ext_list (length vs) (bs @ rest) = Some (vs, rest))"
proof (induction vs arbitrary: out)
  case Nil
  then show ?case by auto
next
  case (Cons v vs)
  then obtain out1 where 1: "ins v out = Some out1" "ins_list vs out1 = Some out'"
    by (auto simp: bind_simps)
  obtain b1 where "out1 = out @ b1" "\<forall>rest. ext (b1 @ rest) = Some (v, rest)"
    using ins_appends [OF 1(1)] by blast
  moreover obtain b2 where "out' = out1 @ b2"
    "\<forall>rest. ext_list (length vs) (b2 @ rest) = Some (vs, rest)"
    using Cons.IH [OF 1(2)] by blast
  ultimately show ?case by (intro exI [of _ "b1 @ b2"]) simp
qed

lemma list_roundtrip:
  "ins_list vs [] = Some bs \<Longrightarrow> ext_list (length vs) (bs @ rest) = Some (vs, rest)"
  using ins_list_appends by fastforce

text \<open>No encoding is a prefix of the encoding of another value.\<close>

lemma prefix_free:
  assumes "ins v out = Some (out @ bs)" "ins v' out = Some (out @ bs @ more)"
  shows "v = v' \<and> more = []"
proof -
  from ins_appends [OF assms(1)] have "ext (bs @ more) = Some (v, more)" by auto
  moreover from ins_appends [OF assms(2)] have "ext ((bs @ more) @ []) = Some (v', [])" by fastforce
  ultimately show ?thesis by simp
qed

end

lemmas insert_defs = insert_Byte_def insert_Int16_def insert_UInt16_def insert_Int32_def
  insert_UInt32_def insert_float_def insert_double_def
lemmas extract_defs = extract_Byte_def extract_Int16_def extract_UInt16_def extract_Int32_def
  extract_UInt32_def extract_float_def extract_double_def

interpretation ByteC: archive_codec "\<lambda>v out. Some (insert_Byte v out)" extract_Byte
  by unfold_locales (auto simp: insert_defs extract_defs Archive_put_def)

interpretation Int16C: archive_codec "\<lambda>v out. Some (insert_Int16 v out)" "extract_Int16 i" for i
  by unfold_locales (simp add: insert_defs extract_defs put_bytes_of_append get_bytes_into_put)

interpretation UInt16C: archive_codec "\<lambda>v out. Some (insert_UInt16 v out)" "extract_UInt16 i" for i
  by unfold_locales (simp add: insert_defs extract_defs put_bytes_of_append get_bytes_into_put)

interpretation Int32C: archive_codec "\<lambda>v out. Some (insert_Int32 v out)" "extract_Int32 i" for i
  by unfold_locales (simp add: insert_defs extract_defs put_bytes_of_append get_bytes_into_put)

interpretation UInt32C: archive_codec "\<lambda>v out. Some (insert_UInt32 v out)" "extract_UInt32 i" for i
  by unfold_locales (simp add: insert_defs extract_defs put_bytes_of_append get_bytes_into_put)

interpretation floatC: archive_codec "\<lambda>v out. Some (insert_float v out)" "extract_float f" for f
  by unfold_locales (simp add: insert_defs extract_defs put_bytes_of_append get_bytes_into_put)

interpretation doubleC: archive_codec "\<lambda>v out. Some (insert_double v out)" "extract_double d" for d
  by unfold_locales (simp add: insert_defs extract_defs put_bytes_of_append get_bytes_into_put)

interpretation VLUC: archive_codec insertVLU extractVLU
  by unfold_locales (auto simp: insertVLU_packVLU extractVLU_unpackVLU unpackVLU_packVLU)

subsection \<open>Properties\<close>

text \<open>C29: the archive's variable-length code is the packed code of source/API/gen. insertVLU
  puts exactly the bytes of packVLU after what was put before, extractVLU returns what
  unpackVLU returns on the bytes to come, and so a sequence of values below \<open>2 ^ 28\<close>, inserted one
  after the other, is extracted unchanged whatever follows it.\<close>

theorem archive_vlu_sequence:
  "insertVLU val out = map_option (\<lambda>bs. out @ bs) (packVLU val) \<and> extractVLU bs = unpackVLU bs
   \<and> (VLUC.ins_list vs [] = Some enc \<longrightarrow> VLUC.ext_list (length vs) (enc @ rest) = Some (vs, rest))"
  using insertVLU_packVLU extractVLU_unpackVLU VLUC.list_roundtrip by blast

theorem archive_vlu_sequence_witness:
  "insertVLU 300 [7] = Some [7, 0x81, 0x2c]
   \<and> VLUC.ext_list 2 [0x81, 0x2c, 5, 99] = Some ([300, 5], [99])"
proof -
  have "packVLU 300 = Some [0x81, 0x2c]" by code_simp
  moreover have "packVLU 5 = Some [5]" by code_simp
  ultimately show ?thesis
    using archive_vlu_sequence [of 300 "[7]" "[]" "[300, 5]" "[0x81, 0x2c, 5]" "[99]"]
    by (simp add: insertVLU_packVLU numeral_2_eq_2)
qed

text \<open>The bytes of a word, least significant first.\<close>

lemma bytes_put:
  "map (byte_of w) [0..<2] = [ucast w, ucast (drop_bit 8 w)]"
  "map (byte_of v) [0..<4] = [ucast v, ucast (drop_bit 8 v), ucast (drop_bit 16 v), ucast (drop_bit 24 v)]"
  "map (byte_of d) [0..<8] = [ucast d, ucast (drop_bit 8 d), ucast (drop_bit 16 d), ucast (drop_bit 24 d),
     ucast (drop_bit 32 d), ucast (drop_bit 40 d), ucast (drop_bit 48 d), ucast (drop_bit 56 d)]"
  by (simp_all add: byte_of_def upt_rec)

text \<open>C31: every fixed-width insertion puts the bytes of its argument with the least significant one first,
  behind what was put before, and the extraction of the same type reads the value back from these bytes
  into its target, whatever the target held before and whatever follows.\<close>

theorem archive_fixed_roundtrip:
  fixes w h :: u16 and i u f :: u32 and d :: u64
  shows "insert_Byte b out = out @ [b] \<and> extract_Byte (b # rest) = Some (b, rest)
   \<and> insert_Int16 w out = out @ [ucast w, ucast (drop_bit 8 w)]
   \<and> extract_Int16 w' ([ucast w, ucast (drop_bit 8 w)] @ rest) = Some (w, rest)
   \<and> insert_UInt16 h out = out @ [ucast h, ucast (drop_bit 8 h)]
   \<and> extract_UInt16 h' ([ucast h, ucast (drop_bit 8 h)] @ rest) = Some (h, rest)
   \<and> insert_Int32 i out = out @ [ucast i, ucast (drop_bit 8 i), ucast (drop_bit 16 i), ucast (drop_bit 24 i)]
   \<and> extract_Int32 i' ([ucast i, ucast (drop_bit 8 i), ucast (drop_bit 16 i), ucast (drop_bit 24 i)] @ rest) = Some (i, rest)
   \<and> insert_UInt32 u out = out @ [ucast u, ucast (drop_bit 8 u), ucast (drop_bit 16 u), ucast (drop_bit 24 u)]
   \<and> extract_UInt32 u' ([ucast u, ucast (drop_bit 8 u), ucast (drop_bit 16 u), ucast (drop_bit 24 u)] @ rest) = Some (u, rest)
   \<and> insert_float f out = out @ [ucast f, ucast (drop_bit 8 f), ucast (drop_bit 16 f), ucast (drop_bit 24 f)]
   \<and> extract_float f' ([ucast f, ucast (drop_bit 8 f), ucast (drop_bit 16 f), ucast (drop_bit 24 f)] @ rest) = Some (f, rest)
   \<and> insert_double d out = out @ [ucast d, ucast (drop_bit 8 d), ucast (drop_bit 16 d), ucast (drop_bit 24 d),
        ucast (drop_bit 32 d), ucast (drop_bit 40 d), ucast (drop_bit 48 d), ucast (drop_bit 56 d)]
   \<and> extract_double d' ([ucast d, ucast (drop_bit 8 d), ucast (drop_bit 16 d), ucast (drop_bit 24 d),
        ucast (drop_bit 32 d), ucast (drop_bit 40 d), ucast (drop_bit 48 d), ucast (drop_bit 56 d)] @ rest) = Some (d, rest)"
  unfolding bytes_put [symmetric]
  by (simp add: insert_defs extract_defs Archive_put_def put_bytes_of_append get_bytes_into_put)

end
