(* ===== verification/Memory.thy ===== *)
theory Memory
  imports Varint Gen
begin

text \<open>
  The byte-addressed memory of the 32-bit address space in which the byte code, the stack and
  the heap live: a partial map from addresses to bytes. An access outside the mapped bytes is
  None (undefined behaviour of the C++ program). Values of every C type travel as 64-bit words
  of which the low \<open>8 * sizeof\<close> bits count; all multi-byte accesses are little endian.

  The last part models the bit inserters and extractors of exec.cpp (\<open>insBits16\<close> to
  \<open>extDouble\<close>), through which code is patched and operands are fetched.
\<close>

type_synonym memory = "addr \<Rightarrow> byte option"

subsection \<open>Bytes\<close>

primrec read_n :: "nat \<Rightarrow> memory \<Rightarrow> addr \<Rightarrow> byte list option" where
  "read_n 0 m a = Some []"
| "read_n (Suc n) m a = do { b \<leftarrow> m a; bs \<leftarrow> read_n n m (a + 1); Some (b # bs) }"

primrec write_n :: "byte list \<Rightarrow> addr \<Rightarrow> memory \<Rightarrow> memory option" where
  "write_n [] a m = Some m"
| "write_n (b # bs) a m = do { _ \<leftarrow> m a; write_n bs (a + 1) (m(a \<mapsto> b)) }"

text \<open>The addresses of \<open>n\<close> bytes from \<open>a\<close> on.\<close>

definition span :: "addr \<Rightarrow> nat \<Rightarrow> addr set" where
  "span a n = {a + of_nat i |i. i < n}"

lemma span_0 [simp]: "span a 0 = {}"
  by (simp add: span_def)

lemma span_Suc [simp]: "span a (Suc n) = insert a (span (a + 1) n)"
proof -
  have "{a + of_nat i |i. i < Suc n} = (\<lambda>i. a + of_nat i) ` {..<Suc n}" by auto
  also have "\<dots> = insert a ((\<lambda>i. a + of_nat (Suc i)) ` {..<n})"
    by (subst lessThan_Suc_eq_insert_0) (simp add: image_image)
  also have "\<dots> = insert a {a + 1 + of_nat i |i. i < n}" by (auto simp: algebra_simps)
  finally show ?thesis by (simp add: span_def)
qed

lemma read_n_length: "read_n n m a = Some bs \<Longrightarrow> length bs = n"
  by (induction n arbitrary: a bs) (auto simp: bind_simps)

lemma read_n_cong:
  "(\<And>x. x \<in> span a n \<Longrightarrow> m x = m' x) \<Longrightarrow> read_n n m a = read_n n m' a"
  by (induction n arbitrary: a) auto

lemma read_n_defined: "read_n n m a \<noteq> None \<longleftrightarrow> span a n \<subseteq> dom m"
  by (induction n arbitrary: a) (auto simp: bind_simps)

lemma read_n_append:
  "read_n (k + n) m a =
     do { xs \<leftarrow> read_n k m a; ys \<leftarrow> read_n n m (a + of_nat k); Some (xs @ ys) }"
proof (induction k arbitrary: a)
  case 0
  then show ?case by (cases "read_n n m a") auto
next
  case (Suc k)
  have "a + 1 + of_nat k = a + of_nat (Suc k)" by simp
  then have "read_n (k + n) m (a + 1)
      = do { xs \<leftarrow> read_n k m (a + 1); ys \<leftarrow> read_n n m (a + of_nat (Suc k)); Some (xs @ ys) }"
    using Suc [of "a + 1"] by metis
  then show ?case
    by (cases "m a"; cases "read_n k m (a + 1)"; cases "read_n n m (a + of_nat (Suc k))")
      (simp_all del: of_nat_Suc)
qed

lemma write_n_defined: "write_n bs a m \<noteq> None \<longleftrightarrow> span a (length bs) \<subseteq> dom m"
proof (induction bs arbitrary: a m)
  case (Cons b bs)
  show ?case
  proof (cases "m a")
    case (Some x)
    define m1 where "m1 = m(a \<mapsto> b)"
    have d: "dom m1 = dom m" using Some by (auto simp: m1_def)
    have "write_n (b # bs) a m = write_n bs (a + 1) m1" using Some by (simp add: m1_def)
    with Cons [of "a + 1" m1] d Some show ?thesis by (simp add: domI)
  qed auto
qed simp

lemma write_n_dom: "write_n bs a m = Some m' \<Longrightarrow> dom m' = dom m"
proof (induction bs arbitrary: a m)
  case (Cons b bs)
  define m1 where "m1 = m(a \<mapsto> b)"
  have "a \<in> dom m" "write_n bs (a + 1) m1 = Some m'"
    using Cons.prems by (auto simp: bind_simps m1_def)
  moreover from this(1) have "dom m1 = dom m" by (auto simp: m1_def)
  ultimately show ?case using Cons.IH [of "a + 1" m1] by simp
qed simp

lemma write_n_outside:
  "write_n bs a m = Some m' \<Longrightarrow> x \<notin> span a (length bs) \<Longrightarrow> m' x = m x"
  by (induction bs arbitrary: a m) (auto simp: bind_simps)

lemma span_notin:
  assumes "n < 2 ^ 32"
  shows "a \<notin> span (a + 1) n"
proof
  assume "a \<in> span (a + 1) n"
  then obtain i where "i < n" "a = a + 1 + of_nat i" by (auto simp: span_def)
  then have "of_nat (Suc i) = (0 :: addr)" by (simp add: add.assoc)
  then have "unat (of_nat (Suc i) :: addr) = 0" by (simp del: of_nat_Suc)
  then have "Suc i mod 2 ^ 32 = 0" by (simp only: unat_of_nat) simp
  with \<open>i < n\<close> assms show False by simp
qed

lemma read_after_write:
  "write_n bs a m = Some m' \<Longrightarrow> length bs \<le> 2 ^ 32 \<Longrightarrow> read_n (length bs) m' a = Some bs"
proof (induction bs arbitrary: a m)
  case (Cons b bs)
  then have w: "write_n bs (a + 1) (m(a \<mapsto> b)) = Some m'" by (auto simp: bind_simps)
  with Cons have "read_n (length bs) m' (a + 1) = Some bs" by simp
  moreover have "m' a = Some b"
    using write_n_outside [OF w, of a] span_notin [of "length bs" a] Cons.prems(2) by simp
  ultimately show ?case by simp
qed simp

lemma read_write_disjoint:
  assumes "write_n bs a m = Some m'" "span a (length bs) \<inter> span x n = {}"
  shows "read_n n m' x = read_n n m x"
  by (rule read_n_cong) (use assms write_n_outside in blast)

subsection \<open>Values\<close>

definition le_bytes :: "nat \<Rightarrow> u64 \<Rightarrow> byte list" where
  "le_bytes n v = map (byte_of v) [0..<n]"

primrec le_value :: "byte list \<Rightarrow> u64" where
  "le_value [] = 0"
| "le_value (b # bs) = ucast b OR push_bit 8 (le_value bs)"

lemma length_le_bytes [simp]: "length (le_bytes n v) = n"
  by (simp add: le_bytes_def)

lemma bit_le_value:
  "bit (le_value bs) n \<longleftrightarrow> n < 64 \<and> n < 8 * length bs \<and> bit (bs ! (n div 8)) (n mod 8)"
proof (induction bs arbitrary: n)
  case (Cons b bs)
  show ?case
  proof (cases "n < 8")
    case False
    then have "n div 8 = Suc ((n - 8) div 8)" "n mod 8 = (n - 8) mod 8"
      by (simp_all add: le_div_geq le_mod_geq)
    with False show ?thesis
      by (auto simp: bit_or_iff bit_push_bit_iff Cons.IH bit_unsigned_iff dest: byte_bit_less)
  qed (auto simp: bit_or_iff bit_push_bit_iff bit_unsigned_iff)
qed simp

lemma le_value_bytes: "le_value (le_bytes n v) = take_bit (8 * n) v"
proof (rule bit_word_eqI)
  fix i assume "i < LENGTH(64)"
  moreover have "i < 8 * n \<Longrightarrow> i div 8 < n" by simp
  ultimately show "bit (le_value (le_bytes n v)) i \<longleftrightarrow> bit (take_bit (8 * n) v) i"
    by (auto simp: bit_le_value le_bytes_def bit_byte_of bit_take_bit_iff)
qed

definition load_n :: "nat \<Rightarrow> memory \<Rightarrow> addr \<Rightarrow> u64 option" where
  "load_n n m a = map_option le_value (read_n n m a)"

definition store_n :: "nat \<Rightarrow> u64 \<Rightarrow> addr \<Rightarrow> memory \<Rightarrow> memory option" where
  "store_n n v a m = write_n (le_bytes n v) a m"

lemma store_n_dom: "store_n n v a m = Some m' \<Longrightarrow> dom m' = dom m"
  by (simp add: store_n_def write_n_dom)

lemma store_n_defined: "store_n n v a m \<noteq> None \<longleftrightarrow> span a n \<subseteq> dom m"
  using write_n_defined [of "le_bytes n v"] by (simp add: store_n_def)

lemma load_n_defined: "load_n n m a \<noteq> None \<longleftrightarrow> span a n \<subseteq> dom m"
  using read_n_defined [of n m a] by (simp add: load_n_def)

lemma load_after_store:
  "store_n n v a m = Some m' \<Longrightarrow> n \<le> 8 \<Longrightarrow> load_n n m' a = Some (take_bit (8 * n) v)"
  using read_after_write [of "le_bytes n v" a m m']
  by (simp add: store_n_def load_n_def le_value_bytes)

lemma load_store_disjoint:
  "store_n k v a m = Some m' \<Longrightarrow> span a k \<inter> span x n = {} \<Longrightarrow> load_n n m' x = load_n n m x"
  using read_write_disjoint [of "le_bytes k v" a m m' x n] by (simp add: store_n_def load_n_def)

subsection \<open>Bits in the code\<close>

text \<open>\<open>fetchByte(pc)\<close> is \<open>*(pc)++\<close>: the byte and the moved address.\<close>

definition fetchByte :: "memory \<Rightarrow> addr \<Rightarrow> (byte \<times> addr) option" where
  "fetchByte m pc = do { b \<leftarrow> m pc; Some (b, pc + 1) }"

definition insBits16 :: "addr \<Rightarrow> u16 \<Rightarrow> memory \<Rightarrow> memory option" where
  "insBits16 iAddr val m = write_n
     [ucast (drop_bit 0 val AND 0xff), ucast (drop_bit 8 val AND 0xff)] iAddr m"

definition insBits32 :: "addr \<Rightarrow> u32 \<Rightarrow> memory \<Rightarrow> memory option" where
  "insBits32 iAddr val m = write_n
     [ucast (drop_bit 0 val AND 0xff), ucast (drop_bit 8 val AND 0xff),
      ucast (drop_bit 16 val AND 0xff), ucast (drop_bit 24 val AND 0xff)] iAddr m"

definition insBits64 :: "addr \<Rightarrow> u64 \<Rightarrow> memory \<Rightarrow> memory option" where
  "insBits64 iAddr val m = write_n
     [ucast (drop_bit 0 val AND 0xff), ucast (drop_bit 8 val AND 0xff),
      ucast (drop_bit 16 val AND 0xff), ucast (drop_bit 24 val AND 0xff),
      ucast (drop_bit 32 val AND 0xff), ucast (drop_bit 40 val AND 0xff),
      ucast (drop_bit 48 val AND 0xff), ucast (drop_bit 56 val AND 0xff)] iAddr m"

definition extBits16 :: "memory \<Rightarrow> addr \<Rightarrow> (u16 \<times> addr) option" where
  "extBits16 m iAddr = do {
     b0 \<leftarrow> m iAddr; b1 \<leftarrow> m (iAddr + 1);
     Some (ucast b0 OR push_bit 8 (ucast b1), iAddr + 2) }"

definition extBits32 :: "memory \<Rightarrow> addr \<Rightarrow> (u32 \<times> addr) option" where
  "extBits32 m iAddr = do {
     (ls, iAddr) \<leftarrow> extBits16 m iAddr;
     (ms, iAddr) \<leftarrow> extBits16 m iAddr;
     Some (ucast ls OR push_bit 16 (ucast ms), iAddr) }"

definition extBits64 :: "memory \<Rightarrow> addr \<Rightarrow> (u64 \<times> addr) option" where
  "extBits64 m iAddr = do {
     (ls, iAddr) \<leftarrow> extBits32 m iAddr;
     (ms, iAddr) \<leftarrow> extBits32 m iAddr;
     Some (ucast ls OR push_bit 32 (ucast ms), iAddr) }"

text \<open>A double is in the code with its most significant byte first: copied and byte-swapped.\<close>

definition extDouble :: "memory \<Rightarrow> addr \<Rightarrow> (u64 \<times> addr) option" where
  "extDouble m iAddr = do {
     d \<leftarrow> read_n 8 m iAddr; Some (le_value (byteSwap d 8), iAddr + 8) }"

text \<open>\<open>unpackVLU(&pc)\<close> on memory: the packed value is read from the mapped bytes at \<open>pc\<close>.\<close>

primrec peek :: "nat \<Rightarrow> memory \<Rightarrow> addr \<Rightarrow> byte list" where
  "peek 0 m a = []"
| "peek (Suc n) m a = (case m a of None \<Rightarrow> [] | Some b \<Rightarrow> b # peek n m (a + 1))"

definition fetchVLU :: "memory \<Rightarrow> addr \<Rightarrow> (u32 \<times> addr) option" where
  "fetchVLU m pc = do {
     let buf = peek 4 m pc;
     (v, rest) \<leftarrow> unpackVLU buf;
     Some (v, pc + of_nat (length buf - length rest)) }"

definition fetchVLI :: "memory \<Rightarrow> addr \<Rightarrow> (u32 \<times> addr) option" where
  "fetchVLI m pc = do {
     let buf = peek 4 m pc;
     (v, rest) \<leftarrow> unpackVLI buf;
     Some (v, pc + of_nat (length buf - length rest)) }"

lemma insBits_store:
  "insBits16 a v m = store_n 2 (ucast v) a m" "insBits32 a w m = store_n 4 (ucast w) a m"
  "insBits64 a x m = store_n 8 x a m"
proof -
  have b: "ucast (drop_bit k z AND 0xff) = (ucast (drop_bit k z) :: byte)" for k and z :: "'a::len word"
  proof -
    have m: "(0xff :: 'a word) = mask 8" by (simp add: mask_eq_exp_minus_1)
    show ?thesis unfolding m by (intro bit_word_eqI) (auto simp: bit_simps dest: bit_imp_le_length)
  qed
  have b0: "ucast (z AND 0xff) = (ucast z :: byte)" for z :: "'a::len word"
    using b [of 0 z] by simp
  have bb: "byte_of (ucast (z :: 'a::len word) :: u64) k = ucast (drop_bit (8 * k) z)" if "LENGTH('a) \<le> 64" for z k
    using that by (intro bit_word_eqI) (auto simp: bit_simps byte_of_def dest: bit_imp_le_length)
  show "insBits16 a v m = store_n 2 (ucast v) a m"
    by (simp add: insBits16_def store_n_def le_bytes_def b b0 bb upt_rec)
  show "insBits32 a w m = store_n 4 (ucast w) a m"
    by (simp add: insBits32_def store_n_def le_bytes_def b b0 bb upt_rec)
  show "insBits64 a x m = store_n 8 x a m"
    by (simp add: insBits64_def store_n_def le_bytes_def b b0 byte_of_def upt_rec)
qed

lemma extBits16_load: "extBits16 m a = map_option (\<lambda>v. (ucast v, a + 2)) (load_n 2 m a)"
proof -
  have "(ucast (b0::byte) OR push_bit 8 (ucast (b1::byte)) :: u16)
      = ucast (ucast b0 OR push_bit 8 (ucast b1) :: u64)" for b0 b1
    by (rule bit_word_eqI) (auto simp: bit_simps)
  then show ?thesis
    by (cases "m a"; cases "m (a + 1)")
      (simp_all add: extBits16_def load_n_def numeral_2_eq_2)
qed

lemma load_n_add:
  "k + n \<le> 8 \<Longrightarrow> load_n (k + n) m a = do { x \<leftarrow> load_n k m a; y \<leftarrow> load_n n m (a + of_nat k);
     Some (x OR push_bit (8 * k) y) }"
proof -
  assume "k + n \<le> 8"
  have "le_value (xs @ ys) = le_value xs OR push_bit (8 * length xs) (le_value ys)" for xs ys
    by (induction xs) (auto intro!: bit_word_eqI simp: bit_simps or.assoc add.commute)
  then show ?thesis
    by (cases "read_n k m a"; cases "read_n n m (a + of_nat k)")
      (auto simp: load_n_def read_n_append dest: read_n_length)
qed

lemma load_n_small: "load_n n m a = Some v \<Longrightarrow> take_bit (8 * n) v = v"
  by (auto simp: load_n_def bit_le_value bit_simps dest!: read_n_length intro!: bit_word_eqI)

lemma extBits32_load: "extBits32 m a = map_option (\<lambda>v. (ucast v, a + 4)) (load_n 4 m a)"
proof -
  have "(ucast (ucast (x::u64) :: u16) OR push_bit 16 (ucast (ucast (y::u64) :: u16)) :: u32)
      = ucast (x OR push_bit 16 y)" if "take_bit 16 x = x" "take_bit 16 y = y" for x y
  proof -
    have "bit x n \<Longrightarrow> n < 16" for n using that by (metis bit_take_bit_iff)
    then show ?thesis by (intro bit_word_eqI) (auto simp: bit_simps)
  qed
  then show ?thesis
    using load_n_add [of 2 2 m a]
    by (cases "load_n 2 m a"; cases "load_n 2 m (a + 2)")
      (auto simp: extBits32_def extBits16_load dest!: load_n_small)
qed

lemma extBits64_load: "extBits64 m a = map_option (\<lambda>v. (v, a + 8)) (load_n 8 m a)"
proof -
  have "(ucast (ucast (x::u64) :: u32) OR push_bit 32 (ucast (ucast (y::u64) :: u32)) :: u64)
      = x OR push_bit 32 y" if "take_bit 32 x = x" "take_bit 32 y = y" for x y
  proof -
    have "bit x n \<Longrightarrow> n < 32" for n using that by (metis bit_take_bit_iff)
    then show ?thesis by (intro bit_word_eqI) (auto simp: bit_simps)
  qed
  then show ?thesis
    using load_n_add [of 4 4 m a]
    by (cases "load_n 4 m a"; cases "load_n 4 m (a + 4)")
      (auto simp: extBits64_def extBits32_load dest!: load_n_small)
qed

lemma peek_length: "length (peek n m a) \<le> n"
  by (induction n arbitrary: a) (auto split: option.splits)

lemma peek_cong:
  "(\<And>x. x \<in> span a n \<Longrightarrow> m x = m' x) \<Longrightarrow> peek n m a = peek n m' a"
  by (induction n arbitrary: a) (auto split: option.splits)

lemma peek_read: "read_n n m a = Some bs \<Longrightarrow> n \<le> k \<Longrightarrow> \<exists>rest. peek k m a = bs @ rest"
proof (induction n arbitrary: a bs k)
  case (Suc n)
  then obtain j where "k = Suc j" by (cases k) auto
  with Suc show ?case by (fastforce simp: bind_simps)
qed simp

lemma fetchVLU_read:
  assumes "packVLU v = Some bs" "read_n (length bs) m pc = Some bs"
  shows "fetchVLU m pc = Some (v, pc + of_nat (length bs))"
proof -
  have "length bs \<le> 4" using packVLU_length [OF assms(1)] by (auto simp: vlu_length_cases split: if_splits)
  with peek_read [OF assms(2)] obtain rest where r: "peek 4 m pc = bs @ rest" by blast
  then show ?thesis by (simp add: fetchVLU_def unpackVLU_packVLU [OF assms(1)])
qed

subsection \<open>Properties\<close>

text \<open>C30: what an inserter writes into the code, the extractor of the same width reads back,
  moving the address past it, and no other byte of the memory changes; the 64-bit forms agree
  with the composition of two 32-bit ones, and these with two 16-bit ones.\<close>

theorem bits_roundtrip:
  assumes "insBits16 a v16 m = Some m16" "insBits32 a v32 m = Some m32" "insBits64 a v64 m = Some m64"
  shows "extBits16 m16 a = Some (v16, a + 2) \<and> extBits32 m32 a = Some (v32, a + 4)
    \<and> extBits64 m64 a = Some (v64, a + 8)
    \<and> (\<forall>x. x \<notin> span a 2 \<longrightarrow> m16 x = m x) \<and> (\<forall>x. x \<notin> span a 4 \<longrightarrow> m32 x = m x)
    \<and> (\<forall>x. x \<notin> span a 8 \<longrightarrow> m64 x = m x)"
proof -
  have "ucast (take_bit 16 (ucast v16 :: u64)) = v16" "ucast (take_bit 32 (ucast v32 :: u64)) = v32"
    "take_bit 64 v64 = v64"
    by (rule bit_word_eqI, simp add: bit_simps)+
  then show ?thesis
    using assms write_n_outside [of "le_bytes 2 (ucast v16)" a m m16]
      write_n_outside [of "le_bytes 4 (ucast v32)" a m m32] write_n_outside [of "le_bytes 8 v64" a m m64]
    by (auto simp: insBits_store extBits16_load extBits32_load extBits64_load load_after_store store_n_def
        simp flip: store_n_def)
qed

theorem bits_roundtrip_witness:
  "extBits32 ((\<lambda>x. if x < 16 then Some 0 else None)
     (4 \<mapsto> 0x78, 5 \<mapsto> 0x56, 6 \<mapsto> 0x34, 7 \<mapsto> 0x12)) 4 = Some (0x12345678, 8)"
proof -
  let ?m = "\<lambda>x::addr. if x < 16 then Some (0::byte) else None"
  have "insBits16 4 0xabcd ?m = Some (?m(4 \<mapsto> 0xcd, 5 \<mapsto> 0xab))"
    by (simp add: insBits16_def)
  moreover have "insBits32 4 0x12345678 ?m = Some (?m(4 \<mapsto> 0x78, 5 \<mapsto> 0x56, 6 \<mapsto> 0x34, 7 \<mapsto> 0x12))"
    by (simp add: insBits32_def)
  moreover have "insBits64 4 1 ?m = Some (?m(4 \<mapsto> 1, 5 \<mapsto> 0, 6 \<mapsto> 0, 7 \<mapsto> 0, 8 \<mapsto> 0,
      9 \<mapsto> 0, 10 \<mapsto> 0, 11 \<mapsto> 0))"
    by (simp add: insBits64_def)
  ultimately have "extBits32 (?m(4 \<mapsto> 0x78, 5 \<mapsto> 0x56, 6 \<mapsto> 0x34, 7 \<mapsto> 0x12)) 4 = Some (0x12345678, 4 + 4)"
    using bits_roundtrip by blast
  then show ?thesis by simp
qed

end
