(* ===== verification/Repr.thy ===== *)
theory Repr
  imports Memory
begin

text \<open>
  The 32-bit word of an expression (class Expr of header/ivory/common.h): a pointer to a cell
  when its lowest bit is clear, an enumerated value otherwise. The enumerated values are cut
  into consecutive ranges for tuple constructors, names, types, constructor tags, characters and
  small integers. The macros \<open>is<T>\<close>, \<open>to<T>\<close> and \<open>from<T>\<close> move between a C++ value and its
  expression; \<open>fromInt\<close> and \<open>toInt\<close> are in API/ivory/common/int/int.cpp.
\<close>

subsection \<open>The ranges\<close>

definition TAG_MASK :: u32 where [repr_consts]: "TAG_MASK = push_bit 1 1 - 1"
definition PTR_TAG :: u32 where [repr_consts]: "PTR_TAG = 0"
definition ENUM_VAL_TAG :: u32 where [repr_consts]: "ENUM_VAL_TAG = 1"
definition ENUM_VAL_INCR :: u32 where [repr_consts]: "ENUM_VAL_INCR = push_bit 1 1"
definition NEXT_TAG_3 :: u32 where [repr_consts]: "NEXT_TAG_3 = 300 * ENUM_VAL_INCR + ENUM_VAL_TAG"
definition CONS :: u32 where [repr_consts]: "CONS = NEXT_TAG_3"
definition CONS_ENV :: u32 where [repr_consts]: "CONS_ENV = CONS + ENUM_VAL_INCR"
definition TUPLE_MIN :: u32 where [repr_consts]: "TUPLE_MIN = CONS_ENV + ENUM_VAL_INCR"
definition TUPLE_MAX :: u32 where [repr_consts]: "TUPLE_MAX = TUPLE_MIN + 256 * ENUM_VAL_INCR"
definition NAME_MIN :: u32 where [repr_consts]: "NAME_MIN = TUPLE_MAX + ENUM_VAL_INCR"
definition NAME_MAX :: u32 where [repr_consts]: "NAME_MAX = NAME_MIN + (65536 - 1) * ENUM_VAL_INCR"
definition NAME_ZERO :: u32 where [repr_consts]:
  "NAME_ZERO = push_bit 1 (drop_bit 1 NAME_MIN div 2 + drop_bit 1 NAME_MAX div 2) + ENUM_VAL_TAG"
definition TYPE_MIN :: u32 where [repr_consts]: "TYPE_MIN = NAME_MAX + ENUM_VAL_INCR"
definition TYPE_MAX :: u32 where [repr_consts]: "TYPE_MAX = TYPE_MIN + (65536 - 1) * ENUM_VAL_INCR"
definition TAG_MIN :: u32 where [repr_consts]: "TAG_MIN = TYPE_MAX + ENUM_VAL_INCR"
definition TAG_MAX :: u32 where [repr_consts]: "TAG_MAX = TAG_MIN + (256 - 1) * ENUM_VAL_INCR"
definition CHAR_MIN :: u32 where [repr_consts]: "CHAR_MIN = TAG_MAX + ENUM_VAL_INCR"
definition CHAR_MAX :: u32 where [repr_consts]: "CHAR_MAX = CHAR_MIN + (256 - 1) * ENUM_VAL_INCR"
definition INT_MIN :: u32 where [repr_consts]: "INT_MIN = CHAR_MAX + ENUM_VAL_INCR"
definition INT_MAX :: u32 where [repr_consts]: "INT_MAX = push_bit 1 0x3ffffffe + ENUM_VAL_TAG"
definition INT_ZERO :: u32 where [repr_consts]:
  "INT_ZERO = push_bit 1 (drop_bit 1 INT_MIN div 2 + drop_bit 1 INT_MAX div 2) + ENUM_VAL_TAG"
definition MIN_SMALL_INT :: u32 where [repr_consts]:
  "MIN_SMALL_INT = INT_MIN div ENUM_VAL_INCR - INT_ZERO div ENUM_VAL_INCR"
definition MAX_SMALL_INT :: u32 where [repr_consts]:
  "MAX_SMALL_INT = INT_MAX div ENUM_VAL_INCR - INT_ZERO div ENUM_VAL_INCR"

subsection \<open>Predicates and conversions\<close>

definition expr_tag :: "u32 \<Rightarrow> u32" where "expr_tag expr = expr AND TAG_MASK"
definition isPtr :: "u32 \<Rightarrow> bool" where "isPtr expr \<longleftrightarrow> expr_tag expr = PTR_TAG \<and> expr \<noteq> 0"
definition isValue :: "u32 \<Rightarrow> bool" where "isValue expr \<longleftrightarrow> expr_tag expr = ENUM_VAL_TAG"

definition isTupleCon :: "u32 \<Rightarrow> bool" where
  "isTupleCon expr \<longleftrightarrow> isValue expr \<and> TUPLE_MIN \<le> expr \<and> expr \<le> TUPLE_MAX"
definition toTupleCon :: "u32 \<Rightarrow> u32" where
  "toTupleCon expr = drop_bit 1 expr - drop_bit 1 TUPLE_MIN"
definition fromTupleCon :: "u32 \<Rightarrow> u32" where
  "fromTupleCon tupleCon = push_bit 1 tupleCon + TUPLE_MIN"
definition tupleCard :: "u32 \<Rightarrow> u32" where
  "tupleCard expr = drop_bit 1 (expr - TUPLE_MIN) + 2"

definition isName :: "u32 \<Rightarrow> bool" where
  "isName expr \<longleftrightarrow> isValue expr \<and> NAME_MIN \<le> expr \<and> expr \<le> NAME_MAX"
definition toName :: "u32 \<Rightarrow> u16" where
  "toName expr = ucast (drop_bit 1 expr - drop_bit 1 NAME_ZERO)"
definition fromName :: "u16 \<Rightarrow> u32" where
  "fromName name = push_bit 1 (scast name + drop_bit 1 NAME_ZERO) + ENUM_VAL_TAG"

definition isType :: "u32 \<Rightarrow> bool" where
  "isType expr \<longleftrightarrow> isValue expr \<and> TYPE_MIN \<le> expr \<and> expr \<le> TYPE_MAX"
definition toType :: "u32 \<Rightarrow> u16" where
  "toType expr = ucast (drop_bit 1 (expr - TYPE_MIN))"
definition fromType :: "u16 \<Rightarrow> u32" where
  "fromType type = push_bit 1 (scast type) + TYPE_MIN"

definition isChar :: "u32 \<Rightarrow> bool" where
  "isChar expr \<longleftrightarrow> isValue expr \<and> CHAR_MIN \<le> expr \<and> expr \<le> CHAR_MAX"
definition toChar :: "u32 \<Rightarrow> byte" where
  "toChar expr = ucast (drop_bit 1 (expr - CHAR_MIN))"
definition fromChar :: "byte \<Rightarrow> u32" where
  "fromChar c = push_bit 1 (scast c) + CHAR_MIN"

definition isTag :: "u32 \<Rightarrow> bool" where
  "isTag expr \<longleftrightarrow> isValue expr \<and> TAG_MIN \<le> expr \<and> expr \<le> TAG_MAX"
definition toTag :: "u32 \<Rightarrow> u16" where
  "toTag expr = ucast (drop_bit 1 (expr - TAG_MIN))"
definition fromTag :: "u16 \<Rightarrow> u32" where
  "fromTag tag = push_bit 1 (ucast tag) + TAG_MIN"

text \<open>
  \<open>fromInt\<close> gives an enumerated value for a small integer; any other needs a cell, which the
  caller allocates: None. \<open>toInt\<close> reads the cell's body, behind its tag word.
\<close>

definition fromInt_small :: "u32 \<Rightarrow> u32 option" where
  "fromInt_small val =
     (if sint val \<ge> sint MIN_SMALL_INT \<and> sint val \<le> sint MAX_SMALL_INT
      then Some (push_bit 1 (val + drop_bit 1 INT_ZERO) + ENUM_VAL_TAG) else None)"

definition toInt :: "memory \<Rightarrow> u32 \<Rightarrow> u32 option" where
  "toInt m expr =
     (if isPtr expr then map_option ucast (load_n 4 m (expr + 4))
      else Some (signed_drop_bit 1 expr - signed_drop_bit 1 INT_ZERO))"

subsection \<open>Values of the constants\<close>

lemma repr_values:
  "TAG_MASK = 1" "TUPLE_MIN = 605" "TUPLE_MAX = 1117" "NAME_MIN = 1119" "NAME_MAX = 132189" "NAME_ZERO = 66653"
  "TYPE_MIN = 132191" "TYPE_MAX = 263261" "TAG_MIN = 263263" "TAG_MAX = 263773" "CHAR_MIN = 263775"
  "CHAR_MAX = 264285" "INT_MIN = 264287" "INT_MAX = 0x7ffffffd" "INT_ZERO = 1073873965"
  "MIN_SMALL_INT = - 536804839" "MAX_SMALL_INT = 536804840"
  by (simp_all add: repr_consts)

lemma tag_values: "ENUM_VAL_TAG = 1" "PTR_TAG = 0"
  by (simp_all add: repr_consts)

subsection \<open>Arithmetic of the conversions\<close>

lemma uint_of_small: "0 \<le> i \<Longrightarrow> i < 2 ^ 32 \<Longrightarrow> uint (word_of_int i :: u32) = i"
  by (simp add: uint_word_of_int_eq take_bit_int_eq_self)

lemma drop_zero: "drop_bit 1 NAME_ZERO = 33326" "drop_bit 1 INT_ZERO = 536936982"
  by (simp_all add: repr_values)

lemma odd_uint: "odd (uint e) \<longleftrightarrow> odd e" for e :: "'a::len word"
proof -
  have "odd (uint e) \<longleftrightarrow> bit (uint e) 0" by (simp only: bit_0)
  also have "\<dots> \<longleftrightarrow> bit e 0" by (simp only: bit_uint_iff) simp
  finally show ?thesis by (simp only: bit_0)
qed

lemma isValue_iff: "isValue e \<longleftrightarrow> odd (uint e)"
  unfolding odd_uint by (simp add: isValue_def expr_tag_def repr_values tag_values and_one_eq odd_iff_mod_2_eq_one)

lemma isPtr_iff: "isPtr e \<longleftrightarrow> even (uint e) \<and> e \<noteq> 0"
  by (simp add: isPtr_def expr_tag_def repr_values tag_values and_one_eq)
    (metis odd_uint even_iff_mod_2_eq_zero)

lemma drop_bit1_word_of_int:
  "0 \<le> i \<Longrightarrow> i < 2 ^ 32 \<Longrightarrow> drop_bit 1 (word_of_int i :: u32) = word_of_int (i div 2)"
  by (rule word_uint_eqI)
    (simp add: drop_bit_eq_div uint_div_distrib uint_of_small)

lemma ucast_word_of_int:
  "LENGTH('b::len) \<le> LENGTH('a) \<Longrightarrow> ucast (word_of_int i :: 'a::len word) = (word_of_int i :: 'b word)"
  by (rule bit_word_eqI) (simp add: bit_simps)

lemma from_value:
  "fromName n = word_of_int (2 * sint n + 66653)"
  "fromType t = word_of_int (2 * sint t + 132191)"
  "fromTag g = word_of_int (2 * uint g + 263263)"
  "fromChar c = word_of_int (2 * sint c + 263775)"
  unfolding fromName_def fromType_def fromTag_def fromChar_def drop_zero repr_values
      tag_values push_bit_eq_mult of_int_add of_int_mult of_int_numeral scast_eq ucast_eq
  by (simp_all only: power_one_right distrib_right mult.commute) (simp_all add: add.assoc)

lemma sint_bounds16: "- 32768 \<le> sint (n::u16)" "sint (n::u16) < 32768"
  using sint_ge [of n] sint_lt [of n] by simp_all

lemma sint_bounds8: "- 128 \<le> sint (c::byte)" "sint (c::byte) < 128"
  using sint_ge [of c] sint_lt [of c] by simp_all

lemma uint_bounds16: "0 \<le> uint (n::u16)" "uint (n::u16) < 65536"
  using uint_bounded [of n] by simp_all

lemma uint_from:
  "uint (fromName n) = 2 * sint n + 66653" "uint (fromType t) = 2 * sint t + 132191"
  "uint (fromTag g) = 2 * uint g + 263263" "uint (fromChar c) = 2 * sint c + 263775"
proof -
  note bounds = sint_bounds16 [of n] sint_bounds16 [of t] uint_bounds16 [of g] sint_bounds8 [of c]
  show "uint (fromName n) = 2 * sint n + 66653" "uint (fromType t) = 2 * sint t + 132191"
    "uint (fromTag g) = 2 * uint g + 263263" "uint (fromChar c) = 2 * sint c + 263775"
    unfolding from_value
    by - (rule uint_of_small, use bounds in simp, use bounds in simp)+
qed

lemma range_iff:
  "isName e \<longleftrightarrow> odd (uint e) \<and> 1119 \<le> uint e \<and> uint e \<le> 132189"
  "isType e \<longleftrightarrow> odd (uint e) \<and> 132191 \<le> uint e \<and> uint e \<le> 263261"
  "isTag e \<longleftrightarrow> odd (uint e) \<and> 263263 \<le> uint e \<and> uint e \<le> 263773"
  "isChar e \<longleftrightarrow> odd (uint e) \<and> 263775 \<le> uint e \<and> uint e \<le> 264285"
  "isTupleCon e \<longleftrightarrow> odd (uint e) \<and> 605 \<le> uint e \<and> uint e \<le> 1117"
  by (simp_all add: isName_def isType_def isTag_def isChar_def isTupleCon_def isValue_iff
      repr_values word_le_def)

lemma drop_push1: "drop_bit 1 (push_bit 1 x) = take_bit 31 x" for x :: u32
  by (rule bit_word_eqI)
    (simp only: bit_drop_bit_eq o_apply bit_push_bit_iff bit_take_bit_iff, simp add: bit_imp_le_length less_Suc_eq)

lemma to_from:
  "toName (fromName n) = n" "toType (fromType t) = t" "toTag (fromTag g) = g" "toChar (fromChar c) = c"
proof -
  have d: "drop_bit 1 (word_of_int (2 * i + 1) :: u32) = word_of_int i" if "0 \<le> i" "i < 2 ^ 31" for i
    using that drop_bit1_word_of_int [of "2 * i + 1"] by simp
  have e: "drop_bit 1 (word_of_int (2 * i) :: u32) = word_of_int i" if "0 \<le> i" "i < 2 ^ 31" for i
    using that drop_bit1_word_of_int [of "2 * i"] by simp
  have "fromName n = word_of_int (2 * (sint n + 33326) + 1)" by (simp add: from_value)
  then have "drop_bit 1 (fromName n) = word_of_int (sint n + 33326)"
    using d [of "sint n + 33326"] sint_bounds16 [of n] by simp
  then have "drop_bit 1 (fromName n) - drop_bit 1 NAME_ZERO = word_of_int (sint n)"
    unfolding drop_zero by simp
  also have "\<dots> = scast n" by (simp only: scast_eq)
  finally have "toName (fromName n) = ucast (scast n :: u32)" unfolding toName_def by simp
  also have "\<dots> = n" by (rule bit_word_eqI) (simp add: bit_simps)
  finally show "toName (fromName n) = n" .
  show "toType (fromType t) = t" "toTag (fromTag g) = g" "toChar (fromChar c) = c"
    unfolding toType_def fromType_def toTag_def fromTag_def toChar_def fromChar_def add_diff_cancel_right'
      drop_push1 by - (rule bit_word_eqI, simp add: bit_simps)+
qed


lemma tuple_conversions:
  assumes "k < 2 ^ 30"
  shows "toTupleCon (fromTupleCon k) = k" "tupleCard (fromTupleCon k) = k + 2" "\<not> isPtr (fromTupleCon k)"
    "isTupleCon (fromTupleCon k) \<longleftrightarrow> k \<le> 256"
proof -
  have k: "0 \<le> uint k" "uint k < 2 ^ 30" using assms by (simp_all add: word_less_def)
  have w: "k = word_of_int (uint k)" by simp
  have f: "fromTupleCon k = word_of_int (2 * uint k + 605)"
    unfolding fromTupleCon_def repr_values push_bit_eq_mult by (subst w) (simp only: of_int_add of_int_mult, simp)
  have u: "uint (fromTupleCon k) = 2 * uint k + 605" unfolding f by (rule uint_of_small) (use k in simp_all)
  show "\<not> isPtr (fromTupleCon k)" by (simp add: isPtr_iff u)
  show "isTupleCon (fromTupleCon k) \<longleftrightarrow> k \<le> 256" by (auto simp: range_iff u word_le_def)
  have "drop_bit 1 (fromTupleCon k) = word_of_int (uint k + 302)"
    unfolding f by (subst drop_bit1_word_of_int) (use k in simp_all)
  moreover have "drop_bit 1 TUPLE_MIN = 302" by (simp add: repr_values)
  ultimately show "toTupleCon (fromTupleCon k) = k" by (simp add: toTupleCon_def)
  have "drop_bit 1 (fromTupleCon k - TUPLE_MIN) = k"
    unfolding fromTupleCon_def add_diff_cancel_right' drop_push1
    using k by (intro word_uint_eqI) (simp add: unsigned_take_bit_eq take_bit_int_eq_self)
  then show "tupleCard (fromTupleCon k) = k + 2" by (simp add: tupleCard_def)
qed

lemma signed_drop1_word_of_int:
  assumes "0 \<le> i" "i < 2 ^ 31"
  shows "signed_drop_bit 1 (word_of_int i :: u32) = word_of_int (i div 2)"
proof -
  let ?w = "word_of_int i :: u32"
  have "?w < 2 ^ 31" using assms by (simp add: word_less_def uint_of_small)
  then have "\<not> bit ?w 31" using bit_small [of ?w 31 31] by blast
  then have "signed_drop_bit 1 ?w = drop_bit 1 ?w"
    by (intro bit_word_eqI) (auto simp: bit_signed_drop_bit_iff bit_drop_bit_eq less_Suc_eq dest: bit_imp_le_length)
  with assms show ?thesis using drop_bit1_word_of_int [of i] by simp
qed

lemma toInt_fromInt_small:
  assumes "fromInt_small v = Some e"
  shows "toInt m e = Some v" "\<not> isPtr e" "INT_MIN \<le> e" "e \<le> INT_MAX"
proof -
  have b: "sint MIN_SMALL_INT = - 536804839" "sint MAX_SMALL_INT = 536804840"
    unfolding repr_values by simp_all
  then have v: "- 536804839 \<le> sint v" "sint v \<le> 536804840"
    and e: "e = push_bit 1 (v + 536936982) + 1"
    using assms unfolding fromInt_small_def drop_zero tag_values by (auto split: if_splits)
  have sv: "v = word_of_int (sint v)" by simp
  have e': "e = word_of_int (2 * (sint v + 536936982) + 1)"
    unfolding e by (subst sv) (simp only: push_bit_eq_mult of_int_add of_int_mult, simp)
  then have u: "uint e = 2 * (sint v + 536936982) + 1"
    unfolding e' by (intro uint_of_small) (use v in simp_all)
  then show np: "\<not> isPtr e" by (simp add: isPtr_iff)
  show "INT_MIN \<le> e" "e \<le> INT_MAX" using v by (simp_all add: word_le_def u repr_values)
  have "signed_drop_bit 1 e = word_of_int (sint v + 536936982)"
    unfolding e' by (subst signed_drop1_word_of_int) (use v in simp_all)
  moreover have "signed_drop_bit 1 INT_ZERO = 536936982" 
    using signed_drop1_word_of_int [of 1073873965] by (simp add: repr_values)
  ultimately have "signed_drop_bit 1 e - signed_drop_bit 1 INT_ZERO = v" by simp
  with np show "toInt m e = Some v" by (simp add: toInt_def)
qed

subsection \<open>Properties\<close>

text \<open>C32: every C++ value that fits its range survives the trip through an expression word: the
  conversions are inverse, the word is never taken for a pointer, and it lies in its own range
  exactly for the tuple constructors up to 256 (whose cardinality is two more), the names other than
  -32768, the non-negative types, the tags below 256 and the non-negative characters. A character from
  -128 to -1 (char is signed in this build) lands in the range of the constructor tags, a negative type
  in that of the names.\<close>

theorem expr_conversions:
  assumes "k < 2 ^ 30"
  shows "toTupleCon (fromTupleCon k) = k \<and> tupleCard (fromTupleCon k) = k + 2 \<and> \<not> isPtr (fromTupleCon k)
   \<and> (isTupleCon (fromTupleCon k) \<longleftrightarrow> k \<le> 256)
   \<and> toName (fromName n) = n \<and> toType (fromType t) = t \<and> toTag (fromTag g) = g \<and> toChar (fromChar c) = c
   \<and> \<not> isPtr (fromName n) \<and> \<not> isPtr (fromType t) \<and> \<not> isPtr (fromTag g) \<and> \<not> isPtr (fromChar c)
   \<and> (isName (fromName n) \<longleftrightarrow> n \<noteq> 0x8000) \<and> (isType (fromType t) \<longleftrightarrow> 0 \<le> sint t)
   \<and> (isTag (fromTag g) \<longleftrightarrow> g < 256)
   \<and> (if 0 \<le> sint c then isChar (fromChar c) else isTag (fromChar c) \<and> \<not> isChar (fromChar c))"
proof -
  note bounds = sint_bounds16 [of n] sint_bounds16 [of t] uint_bounds16 [of g] sint_bounds8 [of c]
  have "sint n \<noteq> - 32768 \<longleftrightarrow> n \<noteq> 0x8000"
  proof -
    have "sint (0x8000 :: u16) = - 32768" by simp
    then show ?thesis by (metis signed_word_eqI)
  qed
  then have "isName (fromName n) \<longleftrightarrow> n \<noteq> 0x8000" using bounds by (auto simp: range_iff uint_from)
  moreover have "isType (fromType t) \<longleftrightarrow> 0 \<le> sint t" using bounds by (auto simp: range_iff uint_from)
  moreover have "isTag (fromTag g) \<longleftrightarrow> g < 256"
    using bounds by (auto simp: range_iff uint_from word_less_def)
  ultimately show ?thesis
    using bounds tuple_conversions [OF assms] by (auto simp: to_from isPtr_iff range_iff uint_from)
qed

theorem expr_conversions_witness:
  "toTupleCon (fromTupleCon 3) = 3 \<and> isTupleCon (fromTupleCon 3) \<and> \<not> isTupleCon (fromTupleCon 257)
   \<and> toChar (fromChar 0x80) = 0x80 \<and> isTag (fromChar 0x80)"
  using expr_conversions [of 3 0 0 0 "0x80"] expr_conversions [of 257 0 0 0 0] by simp


text \<open>C33: the ranges of the enumerated values are disjoint, and no word in one of them is a pointer.\<close>

theorem expr_ranges_disjoint:
  "(if isTupleCon e then 1 else 0) + (if isName e then 1 else 0) + (if isType e then 1 else 0)
   + (if isTag e then 1 else 0) + (if isChar e then 1 else 0)
   + (if isPtr e then 1 else 0) + (if e = 0 then 1 else 0) \<le> (1 :: nat)"
  by (auto simp: range_iff isPtr_iff)

text \<open>An integer expression gives the integer back: a small one is an enumerated value within
  the range of small integers and never a pointer, and one from a cell is the word behind the
  cell's tag; the small integers are those from -536804839 to 536804840.\<close>

theorem int_expr_roundtrip:
  "(case fromInt_small v of
      Some e \<Rightarrow> toInt m e = Some v \<and> \<not> isPtr e \<and> INT_MIN \<le> e \<and> e \<le> INT_MAX
        \<and> - 536804839 \<le> sint v \<and> sint v \<le> 536804840
    | None \<Rightarrow> sint v < - 536804839 \<or> 536804840 < sint v)
   \<and> (isPtr p \<longrightarrow> store_n 4 (ucast v) (p + 4) m = Some m' \<longrightarrow> toInt m' p = Some v)"
proof -
  have b: "sint MIN_SMALL_INT = - 536804839" "sint MAX_SMALL_INT = 536804840"
    unfolding repr_values by simp_all
  have "ucast (take_bit 32 (ucast v :: u64)) = v" by (rule bit_word_eqI) (simp add: bit_simps)
  then have "isPtr p \<Longrightarrow> store_n 4 (ucast v) (p + 4) m = Some m' \<Longrightarrow> toInt m' p = Some v"
    by (simp add: toInt_def load_after_store)
  moreover have "case fromInt_small v of
      Some e \<Rightarrow> - 536804839 \<le> sint v \<and> sint v \<le> 536804840
    | None \<Rightarrow> sint v < - 536804839 \<or> 536804840 < sint v"
    unfolding fromInt_small_def b by auto
  ultimately show ?thesis
    using toInt_fromInt_small [of v] by (auto split: option.splits)
qed

theorem int_expr_roundtrip_witness:
  "toInt ((\<lambda>x. if x < 16 then Some 0 else None)(12 \<mapsto> 0xff, 13 \<mapsto> 0xff, 14 \<mapsto> 0xff, 15 \<mapsto> 0x7f)) 8
    = Some 0x7fffffff"
proof -
  let ?m = "\<lambda>x::addr. if x < 16 then Some (0::byte) else None"
  have "store_n 4 (ucast (0x7fffffff :: u32)) (8 + 4) ?m
      = Some (?m(12 \<mapsto> 0xff, 13 \<mapsto> 0xff, 14 \<mapsto> 0xff, 15 \<mapsto> 0x7f))"
  proof -
    have c: "(2147483647 :: byte) = 255" "(8388607 :: byte) = 255" "(32767 :: byte) = 255" by simp_all
    show ?thesis by (simp add: store_n_def le_bytes_def byte_of_def upt_rec, simp only: c)
  qed
  moreover have "isPtr 8" by (simp add: isPtr_def expr_tag_def repr_consts)
  ultimately show ?thesis using int_expr_roundtrip [where p = 8 and v = "0x7fffffff" and m = ?m] by blast
qed

end
