(* ===== verification/Machine.thy ===== *)
theory Machine
  imports Memory
begin

text \<open>
  The virtual machine of header/ivory/machine.h: its registers (the build has GLOBAL_VM = 1, so
  they are the global variables of the same names), the memory, and the stack macros. The stack
  grows downwards; \<open>push\<close> moves \<open>sp\<close> before it writes. The registers an operand can name are
  the lvalues of type \<open>reg\<close>.
\<close>

subsection \<open>Types of operands\<close>

text \<open>The C++ types at which the operand macros of exec.h are instantiated.\<close>

datatype (plugins only: code size) ctype = TName | TType | TTag | TPtr | TExpr | TChar | TByte | TBits | TUInt | TInt
  | TFloat | TDouble | TRef | TLabel | TLabelPair | TIAddress

primrec sizeof :: "ctype \<Rightarrow> nat" where
  "sizeof TName = 2" | "sizeof TType = 2" | "sizeof TTag = 2" | "sizeof TPtr = 4"
| "sizeof TExpr = 4" | "sizeof TChar = 1" | "sizeof TByte = 1" | "sizeof TBits = 4"
| "sizeof TUInt = 4" | "sizeof TInt = 4" | "sizeof TFloat = 4" | "sizeof TDouble = 8"
| "sizeof TRef = 4" | "sizeof TLabel = 4" | "sizeof TLabelPair = 8" | "sizeof TIAddress = 4"

subsection \<open>State\<close>

record VirtualMachine =
  consMSA :: addr
  consEnv :: addr
  sb :: addr
  sp :: addr
  fp :: addr
  rack :: addr
  cell :: addr
  cellEnv :: addr
  rEnv :: addr
  rName :: u16
  rType :: u16
  rCell :: addr
  rExpr :: u32
  rByte :: byte
  rBits :: u32
  rInt :: u32
  rFloat :: u32
  rDouble :: u64
  rTag :: u16
  rChar :: byte
  rStruct :: addr
  rStructSize :: size_t
  rPtr :: addr
  rRef :: u32
  rUTC :: u32

text \<open>
  The machine with the memory it runs in and the messages it has passed to the host's \<open>error\<close>
  and \<open>trace\<close>, which only report: the newest first.
\<close>

datatype message = ErrorMessage "byte list" | TraceMessage "byte list" | InvalidOpcode byte

record machine = VirtualMachine +
  mem :: memory
  messages :: "message list"

subsection \<open>Registers as operands\<close>

datatype (plugins only: code size) reg = R_consMSA | R_consEnv | R_sb | R_sp | R_rack | R_cell | R_cellEnv | R_rCell
  | R_rStruct | R_rPtr | R_rEnv | R_rName | R_rType | R_rExpr | R_rByte | R_rBits | R_rInt
  | R_rFloat | R_rDouble | R_rTag | R_rChar | R_rRef

primrec reg_type :: "reg \<Rightarrow> ctype" where
  "reg_type R_consMSA = TPtr" | "reg_type R_consEnv = TPtr" | "reg_type R_sb = TPtr"
| "reg_type R_sp = TPtr" | "reg_type R_rack = TPtr" | "reg_type R_cell = TPtr"
| "reg_type R_cellEnv = TPtr" | "reg_type R_rCell = TPtr" | "reg_type R_rStruct = TPtr"
| "reg_type R_rPtr = TPtr" | "reg_type R_rEnv = TPtr" | "reg_type R_rName = TName"
| "reg_type R_rType = TType" | "reg_type R_rExpr = TExpr" | "reg_type R_rByte = TByte"
| "reg_type R_rBits = TBits" | "reg_type R_rInt = TInt" | "reg_type R_rFloat = TFloat"
| "reg_type R_rDouble = TDouble" | "reg_type R_rTag = TTag" | "reg_type R_rChar = TChar"
| "reg_type R_rRef = TRef"

primrec reg_get :: "reg \<Rightarrow> machine \<Rightarrow> u64" where
  "reg_get R_consMSA s = ucast (consMSA s)"
| "reg_get R_consEnv s = ucast (consEnv s)"
| "reg_get R_sb s = ucast (sb s)"
| "reg_get R_sp s = ucast (sp s)"
| "reg_get R_rack s = ucast (rack s)"
| "reg_get R_cell s = ucast (cell s)"
| "reg_get R_cellEnv s = ucast (cellEnv s)"
| "reg_get R_rCell s = ucast (rCell s)"
| "reg_get R_rStruct s = ucast (rStruct s)"
| "reg_get R_rPtr s = ucast (rPtr s)"
| "reg_get R_rEnv s = ucast (rEnv s)"
| "reg_get R_rName s = ucast (rName s)"
| "reg_get R_rType s = ucast (rType s)"
| "reg_get R_rExpr s = ucast (rExpr s)"
| "reg_get R_rByte s = ucast (rByte s)"
| "reg_get R_rBits s = ucast (rBits s)"
| "reg_get R_rInt s = ucast (rInt s)"
| "reg_get R_rFloat s = ucast (rFloat s)"
| "reg_get R_rDouble s = rDouble s"
| "reg_get R_rTag s = ucast (rTag s)"
| "reg_get R_rChar s = ucast (rChar s)"
| "reg_get R_rRef s = ucast (rRef s)"

primrec reg_set :: "reg \<Rightarrow> u64 \<Rightarrow> machine \<Rightarrow> machine" where
  "reg_set R_consMSA v s = s\<lparr>consMSA := ucast v\<rparr>"
| "reg_set R_consEnv v s = s\<lparr>consEnv := ucast v\<rparr>"
| "reg_set R_sb v s = s\<lparr>sb := ucast v\<rparr>"
| "reg_set R_sp v s = s\<lparr>sp := ucast v\<rparr>"
| "reg_set R_rack v s = s\<lparr>rack := ucast v\<rparr>"
| "reg_set R_cell v s = s\<lparr>cell := ucast v\<rparr>"
| "reg_set R_cellEnv v s = s\<lparr>cellEnv := ucast v\<rparr>"
| "reg_set R_rCell v s = s\<lparr>rCell := ucast v\<rparr>"
| "reg_set R_rStruct v s = s\<lparr>rStruct := ucast v\<rparr>"
| "reg_set R_rPtr v s = s\<lparr>rPtr := ucast v\<rparr>"
| "reg_set R_rEnv v s = s\<lparr>rEnv := ucast v\<rparr>"
| "reg_set R_rName v s = s\<lparr>rName := ucast v\<rparr>"
| "reg_set R_rType v s = s\<lparr>rType := ucast v\<rparr>"
| "reg_set R_rExpr v s = s\<lparr>rExpr := ucast v\<rparr>"
| "reg_set R_rByte v s = s\<lparr>rByte := ucast v\<rparr>"
| "reg_set R_rBits v s = s\<lparr>rBits := ucast v\<rparr>"
| "reg_set R_rInt v s = s\<lparr>rInt := ucast v\<rparr>"
| "reg_set R_rFloat v s = s\<lparr>rFloat := ucast v\<rparr>"
| "reg_set R_rDouble v s = s\<lparr>rDouble := v\<rparr>"
| "reg_set R_rTag v s = s\<lparr>rTag := ucast v\<rparr>"
| "reg_set R_rChar v s = s\<lparr>rChar := ucast v\<rparr>"
| "reg_set R_rRef v s = s\<lparr>rRef := ucast v\<rparr>"

lemma reg_get_set: "reg_get r (reg_set r v s) = take_bit (8 * sizeof (reg_type r)) v"
  by (cases r) (auto intro!: bit_word_eqI simp: bit_simps)

lemma reg_get_set_other: "r \<noteq> r' \<Longrightarrow> reg_get r' (reg_set r v s) = reg_get r' s"
  by (cases r; cases r') simp_all

lemma mem_reg_set [simp]: "mem (reg_set r v s) = mem s"
  by (cases r) simp_all

lemma reg_get_mem [simp]: "reg_get r (s\<lparr>mem := m\<rparr>) = reg_get r s"
  by (cases r) simp_all

subsection \<open>Typed access to memory and the stack macros\<close>

text \<open>\<open>indexed(p,i,t)\<close> is \<open>*(t * )((unsigned char * )p + i)\<close>, as a value and as an assignment.\<close>

definition load_mem :: "ctype \<Rightarrow> machine \<Rightarrow> addr \<Rightarrow> u64 option" where
  "load_mem t s a = load_n (sizeof t) (mem s) a"

definition store_mem :: "ctype \<Rightarrow> u64 \<Rightarrow> addr \<Rightarrow> machine \<Rightarrow> machine option" where
  "store_mem t v a s = map_option (\<lambda>m. s\<lparr>mem := m\<rparr>) (store_n (sizeof t) v a (mem s))"

definition push :: "u64 \<Rightarrow> ctype \<Rightarrow> machine \<Rightarrow> machine option" where
  "push x t s = (let s = s\<lparr>sp := sp s - of_nat (sizeof t)\<rparr> in store_mem t x (sp s) s)"

definition pop :: "ctype \<Rightarrow> machine \<Rightarrow> (u64 \<times> machine) option" where
  "pop t s = do { v \<leftarrow> load_mem t s (sp s); Some (v, s\<lparr>sp := sp s + of_nat (sizeof t)\<rparr>) }"

definition tos :: "ctype \<Rightarrow> machine \<Rightarrow> u64 option" where
  "tos t s = load_mem t s (sp s)"

definition stackAlloc :: "size_t \<Rightarrow> machine \<Rightarrow> machine" where
  "stackAlloc n s = s\<lparr>sp := sp s - n\<rparr>"

definition drop_stack :: "size_t \<Rightarrow> machine \<Rightarrow> machine" where
  "drop_stack n s = s\<lparr>sp := sp s + n\<rparr>"

text \<open>\<open>stack(i,t)\<close>: the slot at offset \<open>i\<close> from the stack pointer.\<close>

definition load_stack :: "addr \<Rightarrow> ctype \<Rightarrow> machine \<Rightarrow> u64 option" where
  "load_stack i t s = load_mem t s (sp s + i)"

definition store_stack :: "addr \<Rightarrow> ctype \<Rightarrow> u64 \<Rightarrow> machine \<Rightarrow> machine option" where
  "store_stack i t v s = store_mem t v (sp s + i) s"

lemma sizeof_le: "0 < sizeof t \<and> sizeof t \<le> 8"
  by (cases t) simp_all

lemma store_mem_dom: "store_mem t v a s = Some s' \<Longrightarrow> dom (mem s') = dom (mem s)"
  by (clarsimp simp: store_mem_def store_n_dom)

lemma load_store_mem:
  "store_mem t v a s = Some s' \<Longrightarrow> load_mem t s' a = Some (take_bit (8 * sizeof t) v)"
  using sizeof_le [of t] by (auto simp: store_mem_def load_mem_def load_after_store)

lemma load_mem_small: "load_mem t s a = Some v \<Longrightarrow> take_bit (8 * sizeof t) v = v"
  unfolding load_mem_def by (rule load_n_small)

lemma pop_push:
  "push x t s = Some s' \<Longrightarrow> \<exists>m. pop t s' = Some (take_bit (8 * sizeof t) x, s\<lparr>mem := m\<rparr>)
     \<and> dom m = dom (mem s) \<and> (\<forall>a. a \<notin> span (sp s - of_nat (sizeof t)) (sizeof t) \<longrightarrow> m a = mem s a)"
proof -
  assume p: "push x t s = Some s'"
  then obtain m where m: "store_n (sizeof t) x (sp s - of_nat (sizeof t)) (mem s) = Some m"
    "s' = s\<lparr>sp := sp s - of_nat (sizeof t), mem := m\<rparr>"
    by (auto simp: push_def store_mem_def)
  then have "pop t s' = Some (take_bit (8 * sizeof t) x, s\<lparr>mem := m\<rparr>)"
    using sizeof_le [of t] by (simp add: pop_def load_mem_def load_after_store)
  moreover have "m a = mem s a" if "a \<notin> span (sp s - of_nat (sizeof t)) (sizeof t)" for a
    using write_n_outside [OF m(1) [unfolded store_n_def]] that by simp
  ultimately show ?thesis using store_n_dom [OF m(1)] by blast
qed

end
