(* ===== verification/Operand.thy ===== *)
theory Operand
  imports Machine
begin

text \<open>
  The operand decoder of header/ivory/exec.h: the macros \<open>loadT\<close>, \<open>lvT\<close> and \<open>storeT\<close>,
  instantiated at every type in API/ivory/common/interpreter/exec.cpp, and the address modes of
  header/ivory/instructions.h. An operand is a mode byte followed by whatever the mode needs;
  the indirect and indexed modes contain further operands.

  The two macros differ only in the immediate modes (a value, so absent from \<open>lvT\<close>) and in the
  memory-relative modes (\<open>loadT\<close> extracts the value, \<open>lvT\<close> refers to it); \<open>operand\<close> is both,
  selected by its first argument. What it finds is a place: a value, an address or a register.
  A type without a case for a mode falls into the label below it, as in the source: \<open>default\<close>
  is the 8-bit indirect mode, and a type with an empty \<open>ret<T>Reg\<close> runs into \<open>IND_ADDR_MODE\<close>.
  Operands nest without bound in the source, hence \<open>partial_function\<close>: not returning is None,
  as is an access outside the memory.
\<close>

subsection \<open>The host\<close>

text \<open>
  What the byte code relies on outside the byte code: the addresses of the native entry points
  that byte code pushes and compares with, the static cell info of indirections, and the floating-point arithmetic of the processor on
  the representations of float and double.
\<close>

record host =
  entry_iContinuation :: addr
  entry_iClosure :: addr
  altEntry_iClosure :: addr
  indirectionCellInfo :: addr
  f_of_unsigned :: "u32 \<Rightarrow> u32"
  f_of_int :: "u32 \<Rightarrow> u32"
  f_of_d :: "u64 \<Rightarrow> u32"
  d_of_int :: "u32 \<Rightarrow> u64"
  f_neg :: "u32 \<Rightarrow> u32"
  f_add :: "u32 \<Rightarrow> u32 \<Rightarrow> u32"
  f_sub :: "u32 \<Rightarrow> u32 \<Rightarrow> u32"
  f_mul :: "u32 \<Rightarrow> u32 \<Rightarrow> u32"
  f_div :: "u32 \<Rightarrow> u32 \<Rightarrow> u32"
  f_lt :: "u32 \<Rightarrow> u32 \<Rightarrow> bool"
  f_eq :: "u32 \<Rightarrow> u32 \<Rightarrow> bool"
  d_neg :: "u64 \<Rightarrow> u64"
  d_add :: "u64 \<Rightarrow> u64 \<Rightarrow> u64"
  d_sub :: "u64 \<Rightarrow> u64 \<Rightarrow> u64"
  d_mul :: "u64 \<Rightarrow> u64 \<Rightarrow> u64"
  d_div :: "u64 \<Rightarrow> u64 \<Rightarrow> u64"
  d_lt :: "u64 \<Rightarrow> u64 \<Rightarrow> bool"
  d_eq :: "u64 \<Rightarrow> u64 \<Rightarrow> bool"

subsection \<open>The mode byte\<close>

definition addrMode :: "byte \<Rightarrow> byte" where "addrMode arg = drop_bit 5 (arg AND 0xe0)"
definition extAddrMode :: "byte \<Rightarrow> byte" where "extAddrMode arg = drop_bit 0 (arg AND 0x1f)"
definition immVal :: "byte \<Rightarrow> byte" where "immVal arg = drop_bit 0 (arg AND 0x1f)"
definition regId :: "byte \<Rightarrow> byte" where "regId arg = drop_bit 0 (arg AND 0x1f)"

abbreviation (input) IMM_ADDR_MODE :: byte where "IMM_ADDR_MODE \<equiv> 0"
abbreviation (input) MEM_ADDR_MODE :: byte where "MEM_ADDR_MODE \<equiv> 1"
abbreviation (input) STACK_ADDR_MODE :: byte where "STACK_ADDR_MODE \<equiv> 2"
abbreviation (input) CELL_ADDR_MODE :: byte where "CELL_ADDR_MODE \<equiv> 3"
abbreviation (input) RACK_ADDR_MODE :: byte where "RACK_ADDR_MODE \<equiv> 4"
abbreviation (input) REG_ADDR_MODE :: byte where "REG_ADDR_MODE \<equiv> 5"
abbreviation (input) IND_ADDR_MODE :: byte where "IND_ADDR_MODE \<equiv> 6"
abbreviation (input) EXT_ADDR_MODE :: byte where "EXT_ADDR_MODE \<equiv> 7"

text \<open>The extended modes come in groups of four: the offset (or the datum) takes 1, 2, 4 or 8
  bytes.\<close>

datatype ext_mode = IMM_EXT | MEM_EXT | STACK_EXT | CELL_EXT | FRAME_EXT | RACK_EXT | IND_EXT
  | INDEXED_EXT

definition ext_group :: "byte \<Rightarrow> ext_mode" where
  "ext_group e =
     (if e < 4 then IMM_EXT else if e < 8 then MEM_EXT else if e < 12 then STACK_EXT
      else if e < 16 then CELL_EXT else if e < 20 then FRAME_EXT else if e < 24 then RACK_EXT
      else if e < 28 then IND_EXT else INDEXED_EXT)"

definition ext_width :: "byte \<Rightarrow> nat" where
  "ext_width e = (if e AND 3 = 0 then 1 else if e AND 3 = 1 then 2 else if e AND 3 = 2 then 4 else 8)"

subsection \<open>Fetching offsets and immediate data\<close>

text \<open>\<open>extInt1 .. extInt8\<close> sign-extend, \<open>extUInt1 .. extUInt8\<close> zero-extend.\<close>

definition extInt :: "nat \<Rightarrow> memory \<Rightarrow> addr \<Rightarrow> (u64 \<times> addr) option" where
  "extInt n m pc =
     (if n = 1 then map_option (\<lambda>(b, pc). (scast b, pc)) (fetchByte m pc)
      else if n = 2 then map_option (\<lambda>(b, pc). (scast b, pc)) (extBits16 m pc)
      else if n = 4 then map_option (\<lambda>(b, pc). (scast b, pc)) (extBits32 m pc)
      else extBits64 m pc)"

definition extUInt :: "nat \<Rightarrow> memory \<Rightarrow> addr \<Rightarrow> (u64 \<times> addr) option" where
  "extUInt n m pc =
     (if n = 1 then map_option (\<lambda>(b, pc). (ucast b, pc)) (fetchByte m pc)
      else if n = 2 then map_option (\<lambda>(b, pc). (ucast b, pc)) (extBits16 m pc)
      else if n = 4 then map_option (\<lambda>(b, pc). (ucast b, pc)) (extBits32 m pc)
      else extBits64 m pc)"

definition extInt4 :: "memory \<Rightarrow> addr \<Rightarrow> (u32 \<times> addr) option" where
  "extInt4 m pc = extBits32 m pc"

text \<open>The short immediate of each type: five bits of the mode byte.\<close>

definition immInt :: "byte \<Rightarrow> u32" where
  "immInt arg = (let val = ucast (immVal arg) in
     if val AND 0x10 \<noteq> 0 then val OR NOT 0x1f else val)"

primrec imm :: "ctype \<Rightarrow> byte \<Rightarrow> u64" where
  "imm TExpr arg = 0"
| "imm TChar arg = 0"
| "imm TByte arg = ucast (immVal arg)"
| "imm TBits arg = ucast (immVal arg)"
| "imm TUInt arg = ucast (immVal arg)"
| "imm TTag arg = ucast (immVal arg)"
| "imm TInt arg = ucast (immInt arg)"
| "imm TLabel arg = 0"
| "imm TIAddress arg = 0"
| "imm TLabelPair arg = 0"
| "imm TRef arg = 0"
| "imm TType arg = ucast (- 1 :: u16)"
| "imm TName arg = ucast (- 1 :: u16)"
| "imm TDouble arg = 0"
| "imm TPtr arg = 0"
| "imm TFloat arg = 0"

text \<open>
  The extended immediates a type has (\<open>immExtAddrMode<T>\<close>) with their extractors. A float is the
  conversion of the 32 bits read as an unsigned number, as the source writes it.
\<close>

definition imm_ext_widths :: "ctype \<Rightarrow> nat set" where
  "imm_ext_widths t = (case t of
      TLabel \<Rightarrow> {4} | TIAddress \<Rightarrow> {4} | TName \<Rightarrow> {2} | TType \<Rightarrow> {2} | TTag \<Rightarrow> {2} | TPtr \<Rightarrow> {4}
    | TExpr \<Rightarrow> {4} | TChar \<Rightarrow> {1} | TByte \<Rightarrow> {1} | TBits \<Rightarrow> {1, 2, 4} | TUInt \<Rightarrow> {1, 2, 4}
    | TInt \<Rightarrow> {1, 2, 4} | TFloat \<Rightarrow> {4} | TDouble \<Rightarrow> {8} | TRef \<Rightarrow> {4} | TLabelPair \<Rightarrow> {})"

definition imm_ext :: "host \<Rightarrow> ctype \<Rightarrow> nat \<Rightarrow> memory \<Rightarrow> addr \<Rightarrow> (u64 \<times> addr) option" where
  "imm_ext h t n m pc = (case t of
      TInt \<Rightarrow> map_option (\<lambda>(v, pc). (take_bit 32 v, pc)) (extInt n m pc)
    | TFloat \<Rightarrow> map_option (\<lambda>(b, pc). (ucast (f_of_unsigned h b), pc)) (extBits32 m pc)
    | TDouble \<Rightarrow> extDouble m pc
    | _ \<Rightarrow> extUInt n m pc)"

text \<open>
  The memory-relative value \<open>ext<T>(addr)\<close>, with the program counter it leaves. \<open>extByte(addr)\<close>
  and \<open>extBits(addr)\<close> are defined as \<open>fetchByte(pc)\<close>: they ignore the address and take the next
  byte of the code.
\<close>

definition mem_ext :: "host \<Rightarrow> ctype \<Rightarrow> memory \<Rightarrow> addr \<Rightarrow> addr \<Rightarrow> (u64 \<times> addr) option" where
  "mem_ext h t m pc a = (case t of
      TByte \<Rightarrow> map_option (\<lambda>(b, pc). (ucast b, pc)) (fetchByte m pc)
    | TBits \<Rightarrow> map_option (\<lambda>(b, pc). (ucast b, pc)) (fetchByte m pc)
    | TChar \<Rightarrow> map_option (\<lambda>(b, _). (ucast b, pc)) (fetchByte m a)
    | TName \<Rightarrow> map_option (\<lambda>(b, _). (ucast b, pc)) (extBits16 m a)
    | TType \<Rightarrow> map_option (\<lambda>(b, _). (ucast b, pc)) (extBits16 m a)
    | TTag \<Rightarrow> map_option (\<lambda>(b, _). (ucast b, pc)) (extBits16 m a)
    | TFloat \<Rightarrow> map_option (\<lambda>(b, _). (ucast (f_of_unsigned h b), pc)) (extBits32 m a)
    | TDouble \<Rightarrow> map_option (\<lambda>(b, _). (b, pc)) (extDouble m a)
    | _ \<Rightarrow> map_option (\<lambda>(b, _). (ucast b, pc)) (extBits32 m a))"

subsection \<open>Register operands\<close>

datatype reg_operand = UseReg reg | NullDeref | FallThrough

definition retPtrReg :: "byte \<Rightarrow> reg_operand" where
  "retPtrReg k =
     (if k = 0 then UseReg R_consMSA else if k = 1 then UseReg R_consEnv
      else if k = 2 then UseReg R_sb else if k = 3 then UseReg R_sp
      else if k = 5 then UseReg R_rack else if k = 6 then UseReg R_cell
      else if k = 7 then UseReg R_cellEnv else if k = 11 then UseReg R_rCell
      else if k = 20 then UseReg R_rStruct else if k = 22 then UseReg R_rPtr
      else if k = 8 then UseReg R_rEnv else NullDeref)"

text \<open>Every type but Ptr has one register, whatever the register number says.\<close>

primrec retReg :: "ctype \<Rightarrow> byte \<Rightarrow> reg_operand" where
  "retReg TName k = UseReg R_rName"
| "retReg TType k = UseReg R_rType"
| "retReg TExpr k = UseReg R_rExpr"
| "retReg TByte k = UseReg R_rByte"
| "retReg TBits k = UseReg R_rBits"
| "retReg TInt k = UseReg R_rInt"
| "retReg TFloat k = UseReg R_rFloat"
| "retReg TDouble k = UseReg R_rDouble"
| "retReg TTag k = UseReg R_rTag"
| "retReg TChar k = UseReg R_rChar"
| "retReg TRef k = UseReg R_rRef"
| "retReg TPtr k = retPtrReg k"
| "retReg TLabelPair k = NullDeref"
| "retReg TUInt k = FallThrough"
| "retReg TLabel k = FallThrough"
| "retReg TIAddress k = FallThrough"

subsection \<open>Places\<close>

datatype place = Value u64 | At addr | InReg reg

primrec read_place :: "ctype \<Rightarrow> machine \<Rightarrow> place \<Rightarrow> u64 option" where
  "read_place t s (Value v) = Some v"
| "read_place t s (At a) = load_mem t s a"
| "read_place t s (InReg r) = Some (reg_get r s)"

primrec write_place :: "ctype \<Rightarrow> u64 \<Rightarrow> machine \<Rightarrow> place \<Rightarrow> machine option" where
  "write_place t v s (Value _) = None"
| "write_place t v s (At a) = store_mem t v a s"
| "write_place t v s (InReg r) = Some (reg_set r v s)"

text \<open>\<open>&lv\<close>: the address of a place. A register is a variable outside the modelled memory.\<close>

primrec address_of :: "place \<Rightarrow> addr option" where
  "address_of (Value _) = None"
| "address_of (At a) = Some a"
| "address_of (InReg r) = None"

subsection \<open>The decoder\<close>

partial_function (option) operand ::
  "host \<Rightarrow> machine \<Rightarrow> bool \<Rightarrow> ctype \<Rightarrow> addr \<Rightarrow> (place \<times> addr) option" where
  "operand h s lv t pc = do {
     (arg, pc) \<leftarrow> fetchByte (mem s) pc;
     let mode = addrMode arg;
     if mode = IMM_ADDR_MODE \<and> \<not> lv then Some (Value (imm t arg), pc)
     else if mode = STACK_ADDR_MODE then Some (At (sp s + immInt arg), pc)
     else if mode = CELL_ADDR_MODE then Some (At (cell s + ucast (immVal arg)), pc)
     else if mode = RACK_ADDR_MODE then Some (At (rack s + ucast (immVal arg)), pc)
     else if mode = REG_ADDR_MODE \<and> retReg t (regId arg) \<noteq> FallThrough then
       (case retReg t (regId arg) of UseReg r \<Rightarrow> Some (InReg r, pc) | _ \<Rightarrow> None)
     else if mode = REG_ADDR_MODE \<or> mode = IND_ADDR_MODE then do {
       (p, pc) \<leftarrow> operand h s False TPtr pc;
       a \<leftarrow> read_place TPtr s p;
       Some (At (ucast a + ucast (immVal arg)), pc) }
     else do {
       let e = extAddrMode arg;
       let n = ext_width e;
       let g = ext_group e;
       if g = INDEXED_EXT then do {
         (offset, pc) \<leftarrow> extUInt n (mem s) pc;
         (elemSize, pc) \<leftarrow> fetchVLU (mem s) pc;
         (p, pc) \<leftarrow> operand h s True TByte pc;
         base \<leftarrow> address_of p;
         (p, pc) \<leftarrow> operand h s False TInt pc;
         i \<leftarrow> read_place TInt s p;
         Some (At (base + (ucast i * elemSize + ucast offset)), pc) }
       else if g = IMM_EXT \<and> \<not> lv \<and> n \<in> imm_ext_widths t then do {
         (v, pc) \<leftarrow> imm_ext h t n (mem s) pc;
         Some (Value v, pc) }
       else if g = MEM_EXT then do {
         (offset, pc) \<leftarrow> extInt n (mem s) pc;
         if lv then Some (At (pc + ucast offset), pc)
         else do {
           (v, pc) \<leftarrow> mem_ext h t (mem s) pc (pc + ucast offset);
           Some (Value v, pc) } }
       else if g = STACK_EXT then do {
         (offset, pc) \<leftarrow> extInt n (mem s) pc;
         Some (At (sp s + ucast offset), pc) }
       else if g = CELL_EXT then do {
         (offset, pc) \<leftarrow> extUInt n (mem s) pc;
         Some (At (cell s + ucast offset), pc) }
       else if g = FRAME_EXT then do {
         (offset, pc) \<leftarrow> extUInt n (mem s) pc;
         Some (At (fp s + - ucast offset), pc) }
       else if g = RACK_EXT then do {
         (offset, pc) \<leftarrow> extUInt n (mem s) pc;
         Some (At (rack s + ucast offset), pc) }
       else do {
         (offset, pc) \<leftarrow> extUInt (if g = IND_EXT then n else 1) (mem s) pc;
         (p, pc) \<leftarrow> operand h s False TPtr pc;
         a \<leftarrow> read_place TPtr s p;
         Some (At (ucast a + ucast offset), pc) } } }"

declare operand.simps [code]

text \<open>\<open>load<T>\<close>, \<open>lv<T>\<close> and \<open>store<T>\<close>.\<close>

definition loadT :: "ctype \<Rightarrow> host \<Rightarrow> machine \<Rightarrow> addr \<Rightarrow> (u64 \<times> addr) option" where
  "loadT t h s pc = do {
     (p, pc) \<leftarrow> operand h s False t pc;
     v \<leftarrow> read_place t s p;
     Some (v, pc) }"

definition lvT :: "ctype \<Rightarrow> host \<Rightarrow> machine \<Rightarrow> addr \<Rightarrow> (place \<times> addr) option" where
  "lvT t h s pc = operand h s True t pc"

definition storeT :: "ctype \<Rightarrow> u64 \<Rightarrow> host \<Rightarrow> machine \<Rightarrow> addr \<Rightarrow> (machine \<times> addr) option" where
  "storeT t val h s pc = do {
     (p, pc) \<leftarrow> lvT t h s pc;
     s \<leftarrow> write_place t val s p;
     Some (s, pc) }"

end
