(* ===== verification/Exec.thy ===== *)
theory Exec
  imports Operand Repr "HOL-Library.Signed_Division"
begin

text \<open>
  The byte-code interpreter \<open>execByteCode\<close> of API/ivory/common/interpreter/exec.cpp, with the
  execution macros of header/ivory/exec.h and the opcodes of header/ivory/instructions.h.

  \<open>exec_instr\<close> is one pass through the dispatch loop: the byte at \<open>pc\<close> selects the instruction,
  which fetches its operands and changes the machine. Its outcome is the next iteration
  (\<open>Next\<close>), a jump to a native label (\<open>Jump\<close>), the end of the continuation sequence
  (\<open>Return\<close>), an exception (\<open>Throw\<close>), or an instruction that calls another component of the
  run-time system (\<open>Service\<close>: allocation, garbage collection, name and type mapping,
  serialisation), which is outside this theory. None is undefined behaviour: an access outside
  the memory, the overflow of a signed addition, a division by zero, a shift by 32 or more.
\<close>

subsection \<open>Instructions\<close>

datatype relop = RLt | RLe | REq | RNe | RGe | RGt
datatype dyop = Add | Sub | Mul | Div | Mod | BAnd | BIor | BXor | Lsh | Rsh
datatype monop = Neg | Not

datatype (plugins only: code size) instr = ADD_P | ADD_SP | SUB_SP | SQZ | MOV ctype | LVP | MMV_B | MCP | MIL | PCB
  | COND_BRANCH relop ctype | COMPARE relop ctype | CAST ctype ctype | MONADIC monop ctype
  | DYADIC dyop ctype | LEN_S | LEN_SC | GET_AT_S | GET_AT_SC | PUT_AT_S | STR_I | STR_IC
  | UNARY_BRANCH u64 ctype | TEST_NULL relop | BRA | BSE | EFC | ETC | TAG_N | TAG_T | TAG_C
  | TAG_I | ASC | UPD | CIO | ENT_P | ENT_A_P | JMP | RET | RTN | EXIT | ATB ctype | ATB_S | ATB_CS
  | ERR | ECP | TRC | TCP | SET_ENV | RSS | CPA | EXC | ILG | SERVICE

text \<open>The opcodes of each group of cases, in the order of the switch.\<close>

definition move_ops :: "(byte \<times> instr) list" where
  "move_ops =
   [(4, ADD_P), (145, ADD_SP), (146, SUB_SP), (179, SQZ), (2, MOV TExpr), (117, MOV TChar),
    (21, MOV TByte), (215, MOV TBits), (22, MOV TInt), (142, MOV TLabel), (9, MOV TName),
    (3, MOV TPtr), (214, LVP), (15, MOV TType), (140, MOV TRef), (101, MOV TTag), (138, MMV_B),
    (167, MCP), (144, MIL)]"

definition ptr_ops :: "(byte \<times> instr) list" where
  "ptr_ops =
   [(168, PCB), (5, COND_BRANCH REq TPtr), (6, COND_BRANCH RNe TPtr), (7, COMPARE REq TPtr),
    (8, COMPARE RNe TPtr), (181, TEST_NULL REq), (182, TEST_NULL RNe)]"

definition int_ops :: "(byte \<times> instr) list" where
  "int_ops =
   [(216, CAST TInt TByte), (75, CAST TInt TBits), (28, MONADIC Neg TInt),
    (24, DYADIC Add TInt), (25, DYADIC Sub TInt), (187, DYADIC Sub TInt), (26, DYADIC Mul TInt),
    (27, DYADIC Div TInt), (29, DYADIC Mod TInt), (35, MONADIC Not TBits),
    (30, DYADIC BAnd TBits), (31, DYADIC BIor TBits), (32, DYADIC BXor TBits),
    (33, DYADIC Lsh TBits), (34, DYADIC Rsh TBits), (36, COMPARE RLt TInt),
    (37, COMPARE RLe TInt), (38, COMPARE REq TInt), (39, COMPARE RNe TInt),
    (40, COMPARE RGe TInt), (41, COMPARE RGt TInt), (42, COND_BRANCH RLt TInt),
    (43, COND_BRANCH RLe TInt), (44, COND_BRANCH REq TInt), (45, COND_BRANCH RNe TInt),
    (46, COND_BRANCH RGe TInt), (47, COND_BRANCH RGt TInt)]"

definition string_ops :: "(byte \<times> instr) list" where
  "string_ops =
   [(133, LEN_S), (134, LEN_SC), (135, GET_AT_S), (136, GET_AT_SC), (137, PUT_AT_S),
    (54, STR_I), (55, STR_IC)]"

definition float_ops :: "(byte \<times> instr) list" where
  "float_ops =
   [(56, MOV TFloat), (58, MONADIC Neg TFloat), (59, DYADIC Add TFloat),
    (60, DYADIC Sub TFloat), (61, DYADIC Mul TFloat), (62, DYADIC Div TFloat),
    (63, COMPARE RLt TFloat), (64, COMPARE RLe TFloat), (65, COMPARE REq TFloat),
    (66, COMPARE RNe TFloat), (67, COMPARE RGe TFloat), (68, COMPARE RGt TFloat),
    (69, COND_BRANCH RLt TFloat), (70, COND_BRANCH RLe TFloat), (71, COND_BRANCH REq TFloat),
    (72, COND_BRANCH RNe TFloat), (73, COND_BRANCH RGe TFloat), (74, COND_BRANCH RGt TFloat),
    (76, CAST TInt TFloat), (77, CAST TDouble TFloat)]"

definition double_ops :: "(byte \<times> instr) list" where
  "double_ops =
   [(78, MOV TDouble), (80, MONADIC Neg TDouble), (81, DYADIC Add TDouble),
    (82, DYADIC Sub TDouble), (83, DYADIC Mul TDouble), (84, DYADIC Div TDouble),
    (85, COMPARE RLt TDouble), (86, COMPARE RLe TDouble), (87, COMPARE REq TDouble),
    (88, COMPARE RNe TDouble), (89, COMPARE RGe TDouble), (90, COMPARE RGt TDouble),
    (91, COND_BRANCH RLt TDouble), (92, COND_BRANCH RLe TDouble), (93, COND_BRANCH REq TDouble),
    (94, COND_BRANCH RNe TDouble), (95, COND_BRANCH RGe TDouble), (96, COND_BRANCH RGt TDouble),
    (97, CAST TInt TDouble)]"

definition tag_ops :: "(byte \<times> instr) list" where
  "tag_ops =
   [(103, COMPARE RLt TTag), (104, COMPARE RLe TTag), (105, COMPARE REq TTag),
    (106, COMPARE RNe TTag), (107, COMPARE RGe TTag), (108, COMPARE RGt TTag),
    (109, COND_BRANCH RLt TTag), (110, COND_BRANCH RLe TTag), (111, COND_BRANCH REq TTag),
    (112, COND_BRANCH RNe TTag), (113, COND_BRANCH RGe TTag), (114, COND_BRANCH RGt TTag),
    (115, UNARY_BRANCH 0 TTag), (116, UNARY_BRANCH 1 TTag)]"

definition char_ops :: "(byte \<times> instr) list" where
  "char_ops =
   [(119, COMPARE RLt TChar), (120, COMPARE RLe TChar), (121, COMPARE REq TChar),
    (122, COMPARE RNe TChar), (123, COMPARE RGe TChar), (124, COMPARE RGt TChar),
    (125, COND_BRANCH RLt TChar), (126, COND_BRANCH RLe TChar), (127, COND_BRANCH REq TChar),
    (128, COND_BRANCH RNe TChar), (129, COND_BRANCH RGe TChar), (130, COND_BRANCH RGt TChar)]"

definition expr_ops :: "(byte \<times> instr) list" where
  "expr_ops =
   [(147, BRA), (170, BSE), (159, EFC), (169, ETC), (10, TAG_N), (16, TAG_T), (118, TAG_C),
    (23, TAG_I)]"

definition cell_ops :: "(byte \<times> instr) list" where
  "cell_ops =
   [(164, ASC), (165, UPD), (153, CIO), (162, ENT_P), (163, ENT_A_P), (148, JMP), (149, RET),
    (150, RTN), (151, EXIT)]"

definition table_ops :: "(byte \<times> instr) list" where
  "table_ops =
   [(173, ATB TInt), (174, ATB TTag), (175, ATB TChar), (176, ATB_S), (177, ATB_CS)]"

definition system_ops :: "(byte \<times> instr) list" where
  "system_ops =
   [(183, ERR), (185, ECP), (184, TRC), (186, TCP), (194, SET_ENV), (195, RSS), (197, CPA),
    (178, EXC), (255, ILG)]"

definition service_ops :: "(byte \<times> instr) list" where
  "service_ops = List.map (\<lambda>b. (b, SERVICE))
     [1, 11, 12, 13, 14, 17, 18, 19, 20, 57, 79, 99, 100, 131, 139, 152, 154, 155, 156, 157,
      158, 161, 166, 171, 172, 180, 188, 189, 190, 191, 192, 193, 196, 201, 202, 203, 204, 205,
      206, 207, 208, 209, 210, 211, 212, 213]"

definition opcode_table :: "(byte \<times> instr) list" where
  "opcode_table = move_ops @ ptr_ops @ int_ops @ string_ops @ float_ops @ double_ops @ tag_ops
     @ char_ops @ expr_ops @ cell_ops @ table_ops @ system_ops @ service_ops"

lemmas opcode_table_defs = opcode_table_def move_ops_def ptr_ops_def int_ops_def string_ops_def float_ops_def
  double_ops_def tag_ops_def char_ops_def expr_ops_def cell_ops_def table_ops_def system_ops_def service_ops_def

text \<open>The same table on integers, for evaluation.\<close>

definition decode :: "byte \<Rightarrow> instr option" where
  "decode b = map_of opcode_table b"

lemma decode_uint: "decode b = map_of (List.map (map_prod uint id) opcode_table) (uint b)"
proof -
  have "map_of (List.map (map_prod uint id) xs) (uint b) = map_of xs b" for xs :: "(byte \<times> instr) list"
    by (induction xs) (auto dest: word_uint_eqI)
  then show ?thesis by (simp add: decode_def)
qed

lemma uint_byte: "uint (0::byte) = 0" "uint (1::byte) = 1" "numeral n < (256::int) \<Longrightarrow> uint (numeral n :: byte) = numeral n"
proof -
  show "uint (0::byte) = 0" "uint (1::byte) = 1" by simp_all
  assume n: "numeral n < (256::int)"
  have "uint (word_of_int (numeral n) :: byte) = take_bit 8 (numeral n)" by (simp only: uint_word_of_int_eq, simp)
  also have "\<dots> = numeral n" using n by (intro take_bit_int_eq_self) simp_all
  finally show "uint (numeral n :: byte) = numeral n" unfolding of_int_numeral .
qed

lemmas decode_code [code] = decode_uint [unfolded opcode_table_defs service_ops_def,
  simplified list.map append.simps map_prod_simp id_apply uint_byte numeral_less_iff less_num_simps]

lemma decode_opcode [code_unfold]: "map_of opcode_table = decode"
  by (rule ext) (simp add: decode_def)

text \<open>What one pass through the loop leads to. A service names the opcode and the address of its
  operands.\<close>

datatype outcome = Next machine addr | Jump addr machine | Return machine
  | Throw string machine | Service byte machine addr

subsection \<open>Arithmetic at the operand types\<close>

text \<open>The operand's bits at its C++ type.\<close>

abbreviation as_int :: "u64 \<Rightarrow> u32" where "as_int v \<equiv> ucast v"
abbreviation as_tag :: "u64 \<Rightarrow> u16" where "as_tag v \<equiv> ucast v"
abbreviation as_char :: "u64 \<Rightarrow> byte" where "as_char v \<equiv> ucast v"

text \<open>The result of a signed 32-bit operation: outside the range of int it is undefined.\<close>

definition int_result :: "int \<Rightarrow> u64 option" where
  "int_result i = (if - (2 ^ 31) \<le> i \<and> i < 2 ^ 31 then Some (ucast (word_of_int i :: u32)) else None)"

definition int_dyadic :: "dyop \<Rightarrow> u32 \<Rightarrow> u32 \<Rightarrow> u64 option" where
  "int_dyadic op x y = (case op of
      Add \<Rightarrow> int_result (sint x + sint y)
    | Sub \<Rightarrow> int_result (sint x - sint y)
    | Mul \<Rightarrow> int_result (sint x * sint y)
    | Div \<Rightarrow> if y = 0 then None else int_result (sint x sdiv sint y)
    | Mod \<Rightarrow> if y = 0 \<or> int_result (sint x sdiv sint y) = None then None
             else int_result (sint x smod sint y)
    | _ \<Rightarrow> None)"

definition bits_dyadic :: "dyop \<Rightarrow> u32 \<Rightarrow> u32 \<Rightarrow> u64 option" where
  "bits_dyadic op x y = (case op of
      BAnd \<Rightarrow> Some (ucast (x AND y))
    | BIor \<Rightarrow> Some (ucast (x OR y))
    | BXor \<Rightarrow> Some (ucast (x XOR y))
    | Lsh \<Rightarrow> if unat y < 32 then Some (ucast (push_bit (unat y) x)) else None
    | Rsh \<Rightarrow> if unat y < 32 then Some (ucast (drop_bit (unat y) x)) else None
    | _ \<Rightarrow> None)"

definition float_dyadic :: "host \<Rightarrow> dyop \<Rightarrow> u32 \<Rightarrow> u32 \<Rightarrow> u64 option" where
  "float_dyadic h op x y = (case op of
      Add \<Rightarrow> Some (ucast (f_add h x y)) | Sub \<Rightarrow> Some (ucast (f_sub h x y))
    | Mul \<Rightarrow> Some (ucast (f_mul h x y)) | Div \<Rightarrow> Some (ucast (f_div h x y)) | _ \<Rightarrow> None)"

definition double_dyadic :: "host \<Rightarrow> dyop \<Rightarrow> u64 \<Rightarrow> u64 \<Rightarrow> u64 option" where
  "double_dyadic h op x y = (case op of
      Add \<Rightarrow> Some (d_add h x y) | Sub \<Rightarrow> Some (d_sub h x y)
    | Mul \<Rightarrow> Some (d_mul h x y) | Div \<Rightarrow> Some (d_div h x y) | _ \<Rightarrow> None)"

definition dyadic :: "host \<Rightarrow> dyop \<Rightarrow> ctype \<Rightarrow> u64 \<Rightarrow> u64 \<Rightarrow> u64 option" where
  "dyadic h op t x y = (case t of
      TInt \<Rightarrow> int_dyadic op (as_int x) (as_int y)
    | TBits \<Rightarrow> bits_dyadic op (as_int x) (as_int y)
    | TFloat \<Rightarrow> float_dyadic h op (as_int x) (as_int y)
    | TDouble \<Rightarrow> double_dyadic h op x y
    | _ \<Rightarrow> None)"

definition monadic :: "host \<Rightarrow> monop \<Rightarrow> ctype \<Rightarrow> u64 \<Rightarrow> u64 option" where
  "monadic h op t x = (case (op, t) of
      (Neg, TInt) \<Rightarrow> int_result (- sint (as_int x))
    | (Neg, TFloat) \<Rightarrow> Some (ucast (f_neg h (as_int x)))
    | (Neg, TDouble) \<Rightarrow> Some (d_neg h x)
    | (Not, TBits) \<Rightarrow> Some (ucast (NOT (as_int x)))
    | _ \<Rightarrow> None)"

text \<open>The C++ comparison of two operands: Int and Char are signed, Tag and Ptr are unsigned.\<close>

definition rel :: "relop \<Rightarrow> bool \<Rightarrow> bool \<Rightarrow> bool \<Rightarrow> bool" where
  "rel op lt eq gt = (case op of RLt \<Rightarrow> lt | RLe \<Rightarrow> lt \<or> eq | REq \<Rightarrow> eq | RNe \<Rightarrow> \<not> eq
    | RGe \<Rightarrow> gt \<or> eq | RGt \<Rightarrow> gt)"

definition compare :: "host \<Rightarrow> relop \<Rightarrow> ctype \<Rightarrow> u64 \<Rightarrow> u64 \<Rightarrow> bool" where
  "compare h op t x y = (case t of
      TInt \<Rightarrow> rel op (sint (as_int x) < sint (as_int y)) (as_int x = as_int y) (sint (as_int x) > sint (as_int y))
    | TChar \<Rightarrow> rel op (sint (as_char x) < sint (as_char y)) (as_char x = as_char y) (sint (as_char x) > sint (as_char y))
    | TTag \<Rightarrow> rel op (as_tag x < as_tag y) (as_tag x = as_tag y) (as_tag x > as_tag y)
    | TFloat \<Rightarrow> rel op (f_lt h (as_int x) (as_int y)) (f_eq h (as_int x) (as_int y)) (f_lt h (as_int y) (as_int x))
    | TDouble \<Rightarrow> rel op (d_lt h x y) (d_eq h x y) (d_lt h y x)
    | _ \<Rightarrow> rel op (as_int x < as_int y) (as_int x = as_int y) (as_int x > as_int y))"

definition cast_value :: "host \<Rightarrow> ctype \<Rightarrow> ctype \<Rightarrow> u64 \<Rightarrow> u64" where
  "cast_value h srcT dstT x = (case (srcT, dstT) of
      (TInt, TByte) \<Rightarrow> ucast (ucast (as_int x) :: byte)
    | (TInt, TFloat) \<Rightarrow> ucast (f_of_int h (as_int x))
    | (TInt, TDouble) \<Rightarrow> d_of_int h (as_int x)
    | (TDouble, TFloat) \<Rightarrow> ucast (f_of_d h x)
    | _ \<Rightarrow> x)"

definition of_bool_tag :: "bool \<Rightarrow> u64" where
  "of_bool_tag b = (if b then 1 else 0)"

subsection \<open>The execution macros of exec.h\<close>

definition execMove :: "ctype \<Rightarrow> host \<Rightarrow> machine \<Rightarrow> addr \<Rightarrow> outcome option" where
  "execMove t h s pc = do {
     (src, pc) \<leftarrow> loadT t h s pc;
     (s, pc) \<leftarrow> storeT t src h s pc;
     Some (Next s pc) }"

definition execCast :: "ctype \<Rightarrow> ctype \<Rightarrow> host \<Rightarrow> machine \<Rightarrow> addr \<Rightarrow> outcome option" where
  "execCast srcT dstT h s pc = do {
     (x, pc) \<leftarrow> loadT srcT h s pc;
     (s, pc) \<leftarrow> storeT dstT (cast_value h srcT dstT x) h s pc;
     Some (Next s pc) }"

definition execMonadic :: "monop \<Rightarrow> ctype \<Rightarrow> host \<Rightarrow> machine \<Rightarrow> addr \<Rightarrow> outcome option" where
  "execMonadic op t h s pc = do {
     (x, pc) \<leftarrow> loadT t h s pc;
     v \<leftarrow> monadic h op t x;
     (s, pc) \<leftarrow> storeT t v h s pc;
     Some (Next s pc) }"

definition execDyadic :: "dyop \<Rightarrow> ctype \<Rightarrow> host \<Rightarrow> machine \<Rightarrow> addr \<Rightarrow> outcome option" where
  "execDyadic op t h s pc = do {
     (x, pc) \<leftarrow> loadT t h s pc;
     (y, pc) \<leftarrow> loadT t h s pc;
     v \<leftarrow> dyadic h op t x y;
     (s, pc) \<leftarrow> storeT t v h s pc;
     Some (Next s pc) }"

definition execCompare :: "relop \<Rightarrow> ctype \<Rightarrow> host \<Rightarrow> machine \<Rightarrow> addr \<Rightarrow> outcome option" where
  "execCompare op t h s pc = do {
     (x, pc) \<leftarrow> loadT t h s pc;
     (y, pc) \<leftarrow> loadT t h s pc;
     (s, pc) \<leftarrow> storeT TTag (of_bool_tag (compare h op t x y)) h s pc;
     Some (Next s pc) }"

definition execUnaryBranch :: "u64 \<Rightarrow> ctype \<Rightarrow> host \<Rightarrow> machine \<Rightarrow> addr \<Rightarrow> outcome option" where
  "execUnaryBranch k t h s pc = do {
     (x, pc) \<leftarrow> loadT t h s pc;
     (offset, pc) \<leftarrow> extInt4 (mem s) pc;
     Some (Next s (if x = k then pc + offset else pc)) }"

definition execCondBranch :: "relop \<Rightarrow> ctype \<Rightarrow> host \<Rightarrow> machine \<Rightarrow> addr \<Rightarrow> outcome option" where
  "execCondBranch op t h s pc = do {
     (x, pc) \<leftarrow> loadT t h s pc;
     (y, pc) \<leftarrow> loadT t h s pc;
     (offset, pc) \<leftarrow> extInt4 (mem s) pc;
     Some (Next s (if compare h op t x y then pc + offset else pc)) }"

definition execTestBranch :: "relop \<Rightarrow> u64 \<Rightarrow> ctype \<Rightarrow> host \<Rightarrow> machine \<Rightarrow> addr \<Rightarrow> outcome option" where
  "execTestBranch op y t h s pc = do {
     (x, pc) \<leftarrow> loadT t h s pc;
     (offset, pc) \<leftarrow> extInt4 (mem s) pc;
     Some (Next s (if compare h op t x y then pc + offset else pc)) }"

subsection \<open>Strings\<close>

text \<open>The characters of a C string up to its terminator; a string that never ends is None.\<close>

partial_function (option) c_string :: "memory \<Rightarrow> addr \<Rightarrow> byte list option" where
  "c_string m a = do {
     c \<leftarrow> m a;
     if c = 0 then Some [] else do { cs \<leftarrow> c_string m (a + 1); Some (c # cs) } }"

declare c_string.simps [code]

definition isspace :: "byte \<Rightarrow> bool" where
  "isspace c \<longleftrightarrow> c = 32 \<or> 9 \<le> c \<and> c \<le> 13"

definition isdigit :: "byte \<Rightarrow> bool" where
  "isdigit c \<longleftrightarrow> 48 \<le> c \<and> c \<le> 57"

text \<open>\<open>atoi\<close> of the C library: white space, an optional sign, decimal digits. A value outside
  int is undefined.\<close>

definition atoi :: "byte list \<Rightarrow> u64 option" where
  "atoi s = (let s = dropWhile isspace s;
       neg = (case s of c # _ \<Rightarrow> c = 45 | [] \<Rightarrow> False);
       s = (case s of c # cs \<Rightarrow> if c = 45 \<or> c = 43 then cs else s | [] \<Rightarrow> s);
       n = foldl (\<lambda>n c. 10 * n + (uint c - 48)) 0 (takeWhile isdigit s)
     in int_result (if neg then - n else n))"

subsection \<open>Blocks of memory\<close>

definition mem_move :: "addr \<Rightarrow> addr \<Rightarrow> u32 \<Rightarrow> machine \<Rightarrow> machine option" where
  "mem_move dst src len s = do {
     bs \<leftarrow> read_n (unat len) (mem s) src;
     m \<leftarrow> write_n bs dst (mem s);
     Some (s\<lparr>mem := m\<rparr>) }"

text \<open>\<open>memcpy\<close> is undefined when the two regions overlap.\<close>

definition mem_copy :: "addr \<Rightarrow> addr \<Rightarrow> u32 \<Rightarrow> machine \<Rightarrow> machine option" where
  "mem_copy dst src len s =
     (if src - dst < len \<or> dst - src < len then None else mem_move dst src len s)"

subsection \<open>Table branches\<close>

text \<open>\<open>ext<T>(addr)\<close> of a key, moving \<open>addr\<close>.\<close>

definition ext_key :: "ctype \<Rightarrow> memory \<Rightarrow> addr \<Rightarrow> (u64 \<times> addr) option" where
  "ext_key t m a = (case t of
      TChar \<Rightarrow> map_option (\<lambda>(b, a). (ucast b, a)) (fetchByte m a)
    | TTag \<Rightarrow> map_option (\<lambda>(b, a). (ucast b, a)) (extBits16 m a)
    | _ \<Rightarrow> map_option (\<lambda>(b, a). (ucast b, a)) (extBits32 m a))"

text \<open>The \<open>while (n > 0)\<close> loops over \<open>n\<close> entries and the default offset behind them.\<close>

primrec tableBranchOffset :: "nat \<Rightarrow> ctype \<Rightarrow> memory \<Rightarrow> addr \<Rightarrow> u64 \<Rightarrow> u32 option" where
  "tableBranchOffset 0 t m a index = map_option fst (extInt4 m a)"
| "tableBranchOffset (Suc n) t m a index = do {
     (key, a) \<leftarrow> ext_key t m a;
     (offset, a) \<leftarrow> extInt4 m a;
     if key = index then Some offset else tableBranchOffset n t m a index }"

primrec stringTableBranchOffset :: "nat \<Rightarrow> memory \<Rightarrow> addr \<Rightarrow> addr \<Rightarrow> u32 option" where
  "stringTableBranchOffset 0 m a index = map_option fst (extInt4 m a)"
| "stringTableBranchOffset (Suc n) m a index = do {
     key \<leftarrow> c_string m a;
     (offset, a) \<leftarrow> extInt4 m (a + of_nat (length key + 1));
     str \<leftarrow> c_string m index;
     if key = str then Some offset else stringTableBranchOffset n m a index }"

definition execTableBranch :: "ctype \<Rightarrow> host \<Rightarrow> machine \<Rightarrow> addr \<Rightarrow> outcome option" where
  "execTableBranch t h s pc = do {
     (x, pc) \<leftarrow> loadT t h s pc;
     (offset, pc) \<leftarrow> extInt4 (mem s) pc;
     (n, pc) \<leftarrow> fetchVLU (mem s) pc;
     off \<leftarrow> tableBranchOffset (unat n) t (mem s) (pc + offset) x;
     Some (Next s (pc + off)) }"

definition execStringTableBranch :: "host \<Rightarrow> machine \<Rightarrow> addr \<Rightarrow> outcome option" where
  "execStringTableBranch h s pc = do {
     (p, pc) \<leftarrow> loadT TPtr h s pc;
     (offset, pc) \<leftarrow> extInt4 (mem s) pc;
     (n, pc) \<leftarrow> fetchVLU (mem s) pc;
     off \<leftarrow> stringTableBranchOffset (unat n) (mem s) (pc + offset) (ucast p);
     Some (Next s (pc + off)) }"

definition execConstStringTableBranch :: "host \<Rightarrow> machine \<Rightarrow> addr \<Rightarrow> outcome option" where
  "execConstStringTableBranch h s pc = do {
     (stringOffset, pc) \<leftarrow> extInt4 (mem s) pc;
     let p = pc + stringOffset;
     (offset, pc) \<leftarrow> extInt4 (mem s) pc;
     (n, pc) \<leftarrow> fetchVLU (mem s) pc;
     off \<leftarrow> stringTableBranchOffset (unat n) (mem s) (pc + offset) p;
     Some (Next s (pc + off)) }"

text \<open>
  The argument satisfaction check: the loop of ASC_INS over the pairs (depth, offset). The last
  pair is taken whatever its depth.
\<close>

primrec asc_offset :: "nat \<Rightarrow> memory \<Rightarrow> addr \<Rightarrow> u32 \<Rightarrow> u32 option" where
  "asc_offset 0 m a d = None"
| "asc_offset (Suc n) m a d = do {
     (pd, a) \<leftarrow> extInt4 m a;
     (offset, a) \<leftarrow> extInt4 m a;
     if n = 0 \<or> d = pd then Some offset else asc_offset n m a d }"

definition execASC :: "machine \<Rightarrow> addr \<Rightarrow> outcome option" where
  "execASC s pc = do {
     (n, pc) \<leftarrow> fetchVLU (mem s) pc;
     if n > 0 then do {
       (offset, pc) \<leftarrow> extInt4 (mem s) pc;
       off \<leftarrow> asc_offset (unat n) (mem s) (pc + offset) (sb s - sp s);
       Some (Next s (pc + off)) }
     else Some (Next s pc) }"

subsection \<open>Cells\<close>

text \<open>
  A cell is its tag word, which for a closure points to the CellInfo, and its body. The fields
  of CellInfo and ICellInfo at their offsets: form 0, size 4, entry 8, altEntry 12, then five
  function pointers and, in an ICellInfo, the byte-code entries from 40 on.
\<close>

definition cell_tag :: "machine \<Rightarrow> addr \<Rightarrow> addr option" where
  "cell_tag s c = map_option ucast (load_mem TPtr s c)"

definition ci_size :: "machine \<Rightarrow> addr \<Rightarrow> u32 option" where
  "ci_size s ci = map_option ucast (load_mem TUInt s (ci + 4))"

definition ci_entry :: "machine \<Rightarrow> addr \<Rightarrow> addr option" where
  "ci_entry s ci = map_option ucast (load_mem TLabel s (ci + 8))"

definition ci_altEntry :: "machine \<Rightarrow> addr \<Rightarrow> addr option" where
  "ci_altEntry s ci = map_option ucast (load_mem TLabel s (ci + 12))"

definition ci_byteCodeEntry :: "machine \<Rightarrow> addr \<Rightarrow> addr option" where
  "ci_byteCodeEntry s ci = map_option ucast (load_mem TIAddress s (ci + 40))"

definition ci_byteCodeAltEntry :: "machine \<Rightarrow> addr \<Rightarrow> addr option" where
  "ci_byteCodeAltEntry s ci = map_option ucast (load_mem TIAddress s (ci + 44))"

definition execENT_P :: "host \<Rightarrow> machine \<Rightarrow> addr \<Rightarrow> outcome option" where
  "execENT_P h s pc = do {
     (p, pc) \<leftarrow> lvT TPtr h s pc;
     c \<leftarrow> read_place TPtr s p;
     ci \<leftarrow> cell_tag s (ucast c);
     entry \<leftarrow> ci_entry s ci;
     if entry \<noteq> entry_iClosure h then Some (Jump entry s)
     else do { pc \<leftarrow> ci_byteCodeEntry s ci; Some (Next s pc) } }"

definition execENT_A_P :: "host \<Rightarrow> machine \<Rightarrow> addr \<Rightarrow> outcome option" where
  "execENT_A_P h s pc = do {
     (p, pc) \<leftarrow> lvT TPtr h s pc;
     c \<leftarrow> read_place TPtr s p;
     ci \<leftarrow> cell_tag s (ucast c);
     entry \<leftarrow> ci_altEntry s ci;
     if entry \<noteq> altEntry_iClosure h then Some (Jump entry s)
     else do { pc \<leftarrow> ci_byteCodeAltEntry s ci; Some (Next s pc) } }"

text \<open>
  The update of a cell with its value: in place when the value fits, through an existing
  indirection, or through a new one, whose allocation is a service.
\<close>

definition execUPD :: "host \<Rightarrow> machine \<Rightarrow> addr \<Rightarrow> outcome option" where
  "execUPD h s pc0 = do {
     (src, pc) \<leftarrow> loadT TPtr h s pc0;
     (dst, pc) \<leftarrow> loadT TPtr h s pc;
     src_ci \<leftarrow> cell_tag s (ucast src);
     dst_ci \<leftarrow> cell_tag s (ucast dst);
     src_size \<leftarrow> ci_size s src_ci;
     in_place \<leftarrow> (if src_size \<le> 8 then Some True
       else do { dst_size \<leftarrow> ci_size s dst_ci; Some (src_size \<le> dst_size) });
     if in_place then do {
       s \<leftarrow> mem_copy (ucast dst) (ucast src) (src_size + 4) s;
       Some (Next s pc) }
     else if dst_ci = indirectionCellInfo h then do {
       s \<leftarrow> store_mem TPtr src (ucast dst + 4) s;
       Some (Next s pc) }
     else Some (Service 165 s pc0) }"

subsection \<open>The cases of the switch\<close>

definition report :: "message \<Rightarrow> machine \<Rightarrow> machine" where
  "report msg s = s\<lparr>messages := msg # messages s\<rparr>"

text \<open>One definition per instruction that is more than a macro: from the byte after its opcode.\<close>

definition execADD_P :: "host \<Rightarrow> machine \<Rightarrow> addr \<Rightarrow> outcome option" where
  "execADD_P h s pc = do {
     (x, pc) \<leftarrow> loadT TPtr h s pc;
     (y, pc) \<leftarrow> loadT TInt h s pc;
     (s, pc) \<leftarrow> storeT TPtr (ucast (ucast x + as_int y :: addr)) h s pc;
     Some (Next s pc) }"

definition execADD_SP :: "machine \<Rightarrow> addr \<Rightarrow> outcome option" where
  "execADD_SP s pc = do { (n, pc) \<leftarrow> fetchVLU (mem s) pc; Some (Next (s\<lparr>sp := sp s + n\<rparr>) pc) }"

definition execSUB_SP :: "machine \<Rightarrow> addr \<Rightarrow> outcome option" where
  "execSUB_SP s pc = do { (n, pc) \<leftarrow> fetchVLU (mem s) pc; Some (Next (s\<lparr>sp := sp s - n\<rparr>) pc) }"

definition execSQZ :: "machine \<Rightarrow> addr \<Rightarrow> outcome option" where
  "execSQZ s pc = do {
     (from, pc) \<leftarrow> fetchVLI (mem s) pc;
     (to, pc) \<leftarrow> fetchVLI (mem s) pc;
     (len, pc) \<leftarrow> fetchVLU (mem s) pc;
     s \<leftarrow> mem_move (sp s + to) (sp s + from) len s;
     Some (Next s pc) }"

definition execLVP :: "host \<Rightarrow> machine \<Rightarrow> addr \<Rightarrow> outcome option" where
  "execLVP h s pc = do {
     (p, pc) \<leftarrow> lvT TByte h s pc;
     src \<leftarrow> address_of p;
     (s, pc) \<leftarrow> storeT TPtr (ucast src) h s pc;
     Some (Next s pc) }"

definition execMMV_B :: "host \<Rightarrow> machine \<Rightarrow> addr \<Rightarrow> outcome option" where
  "execMMV_B h s pc = do {
     (p, pc) \<leftarrow> lvT TByte h s pc;
     src \<leftarrow> address_of p;
     (p, pc) \<leftarrow> lvT TByte h s pc;
     dst \<leftarrow> address_of p;
     (len, pc) \<leftarrow> fetchVLU (mem s) pc;
     s \<leftarrow> mem_move dst src len s;
     Some (Next s pc) }"

definition execMCP :: "host \<Rightarrow> machine \<Rightarrow> addr \<Rightarrow> outcome option" where
  "execMCP h s pc = do {
     (offset, pc) \<leftarrow> extInt4 (mem s) pc;
     let dataPtr = pc + offset;
     (s, pc) \<leftarrow> storeT TPtr (ucast dataPtr) h s pc;
     Some (Next s pc) }"

definition execMIL :: "host \<Rightarrow> machine \<Rightarrow> addr \<Rightarrow> outcome option" where
  "execMIL h s pc = do {
     (offset, pc) \<leftarrow> extInt4 (mem s) pc;
     (p, pc) \<leftarrow> lvT TLabelPair h s pc;
     lp \<leftarrow> address_of p;
     s \<leftarrow> store_mem TLabel (ucast (entry_iContinuation h)) lp s;
     s \<leftarrow> store_mem TIAddress (ucast (pc + offset)) (lp + 4) s;
     Some (Next s pc) }"

definition execPCB :: "host \<Rightarrow> machine \<Rightarrow> addr \<Rightarrow> outcome option" where
  "execPCB h s pc = do {
     (offset, pc) \<leftarrow> extInt4 (mem s) pc;
     s \<leftarrow> store_stack (- 4) TIAddress (ucast pc) s;
     s \<leftarrow> store_stack (- 8) TLabel (ucast (entry_iContinuation h)) s;
     Some (Next (stackAlloc 8 s) (pc + offset)) }"

definition execLEN_S :: "host \<Rightarrow> machine \<Rightarrow> addr \<Rightarrow> outcome option" where
  "execLEN_S h s pc = do {
     (p, pc) \<leftarrow> loadT TPtr h s pc;
     str \<leftarrow> c_string (mem s) (ucast p);
     (s, pc) \<leftarrow> storeT TInt (of_nat (length str)) h s pc;
     Some (Next s pc) }"

definition execLEN_SC :: "host \<Rightarrow> machine \<Rightarrow> addr \<Rightarrow> outcome option" where
  "execLEN_SC h s pc = do {
     (offset, pc) \<leftarrow> extInt4 (mem s) pc;
     str \<leftarrow> c_string (mem s) (pc + offset);
     (s, pc) \<leftarrow> storeT TInt (of_nat (length str)) h s pc;
     Some (Next s pc) }"

definition execGET_AT_S :: "host \<Rightarrow> machine \<Rightarrow> addr \<Rightarrow> outcome option" where
  "execGET_AT_S h s pc = do {
     (p, pc) \<leftarrow> loadT TPtr h s pc;
     (i, pc) \<leftarrow> loadT TInt h s pc;
     c \<leftarrow> load_mem TChar s (ucast p + as_int i);
     (s, pc) \<leftarrow> storeT TChar c h s pc;
     Some (Next s pc) }"

definition execGET_AT_SC :: "host \<Rightarrow> machine \<Rightarrow> addr \<Rightarrow> outcome option" where
  "execGET_AT_SC h s pc = do {
     (offset, pc) \<leftarrow> extInt4 (mem s) pc;
     let strPtr = pc + offset;
     (i, pc) \<leftarrow> loadT TInt h s pc;
     c \<leftarrow> load_mem TChar s (strPtr + as_int i);
     (s, pc) \<leftarrow> storeT TChar c h s pc;
     Some (Next s pc) }"

definition execPUT_AT_S :: "host \<Rightarrow> machine \<Rightarrow> addr \<Rightarrow> outcome option" where
  "execPUT_AT_S h s pc = do {
     (p, pc) \<leftarrow> loadT TPtr h s pc;
     (i, pc) \<leftarrow> loadT TInt h s pc;
     (c, pc) \<leftarrow> loadT TChar h s pc;
     s \<leftarrow> store_mem TChar c (ucast p + as_int i) s;
     Some (Next s pc) }"

definition execSTR_I :: "host \<Rightarrow> machine \<Rightarrow> addr \<Rightarrow> outcome option" where
  "execSTR_I h s pc = do {
     (p, pc) \<leftarrow> loadT TPtr h s pc;
     str \<leftarrow> c_string (mem s) (ucast p);
     v \<leftarrow> atoi str;
     (s, pc) \<leftarrow> storeT TInt v h s pc;
     Some (Next s pc) }"

definition execSTR_IC :: "host \<Rightarrow> machine \<Rightarrow> addr \<Rightarrow> outcome option" where
  "execSTR_IC h s pc = do {
     (offset, pc) \<leftarrow> extInt4 (mem s) pc;
     str \<leftarrow> c_string (mem s) (pc + offset);
     v \<leftarrow> atoi str;
     (s, pc) \<leftarrow> storeT TInt v h s pc;
     Some (Next s pc) }"

definition execBRA :: "machine \<Rightarrow> addr \<Rightarrow> outcome option" where
  "execBRA s pc = do { (offset, pc) \<leftarrow> extInt4 (mem s) pc; Some (Next s (pc + offset)) }"

definition execBSE :: "host \<Rightarrow> machine \<Rightarrow> addr \<Rightarrow> outcome option" where
  "execBSE h s pc = do {
     (x, pc) \<leftarrow> loadT TExpr h s pc;
     (offset, pc) \<leftarrow> extInt4 (mem s) pc;
     Some (Next s (if expr_tag (ucast x) \<noteq> PTR_TAG then pc + offset else pc)) }"

definition execEFC :: "host \<Rightarrow> machine \<Rightarrow> addr \<Rightarrow> outcome option" where
  "execEFC h s pc = do {
     (src, pc) \<leftarrow> loadT TPtr h s pc;
     (s, pc) \<leftarrow> storeT TExpr src h s pc;
     Some (Next s pc) }"

definition execETC :: "host \<Rightarrow> machine \<Rightarrow> addr \<Rightarrow> outcome option" where
  "execETC h s pc = do {
     (expr, pc) \<leftarrow> loadT TExpr h s pc;
     (s, pc) \<leftarrow> storeT TPtr expr h s pc;
     Some (Next s pc) }"

definition execTAG_N :: "host \<Rightarrow> machine \<Rightarrow> addr \<Rightarrow> outcome option" where
  "execTAG_N h s pc = do {
     (src, pc) \<leftarrow> loadT TName h s pc;
     (s, pc) \<leftarrow> storeT TExpr (ucast (fromName (ucast src))) h s pc;
     Some (Next s pc) }"

definition execTAG_T :: "host \<Rightarrow> machine \<Rightarrow> addr \<Rightarrow> outcome option" where
  "execTAG_T h s pc = do {
     (src, pc) \<leftarrow> loadT TName h s pc;
     (s, pc) \<leftarrow> storeT TExpr (ucast (fromType (ucast src))) h s pc;
     Some (Next s pc) }"

definition execTAG_C :: "host \<Rightarrow> machine \<Rightarrow> addr \<Rightarrow> outcome option" where
  "execTAG_C h s pc = do {
     (src, pc) \<leftarrow> loadT TChar h s pc;
     (s, pc) \<leftarrow> storeT TExpr (ucast (fromChar (ucast src))) h s pc;
     Some (Next s pc) }"

definition execTAG_I :: "host \<Rightarrow> byte \<Rightarrow> machine \<Rightarrow> addr \<Rightarrow> outcome option" where
  "execTAG_I h opCode s pc = do {
     (src, pc') \<leftarrow> loadT TInt h s pc;
     case fromInt_small (as_int src) of
       None \<Rightarrow> Some (Service opCode s pc)
     | Some e \<Rightarrow> do { (s, pc) \<leftarrow> storeT TExpr (ucast e) h s pc'; Some (Next s pc) } }"

definition execCIO :: "host \<Rightarrow> machine \<Rightarrow> addr \<Rightarrow> outcome option" where
  "execCIO h s pc = do {
     (c, pc) \<leftarrow> loadT TPtr h s pc;
     ci \<leftarrow> cell_tag s (ucast c);
     (s, pc) \<leftarrow> storeT TPtr (ucast ci) h s pc;
     Some (Next s pc) }"

definition execJMP :: "host \<Rightarrow> machine \<Rightarrow> addr \<Rightarrow> outcome option" where
  "execJMP h s pc = do { (lab, pc) \<leftarrow> loadT TLabel h s pc; Some (Jump (ucast lab) s) }"

definition execRET :: "machine \<Rightarrow> outcome option" where
  "execRET s = do { (a, s) \<leftarrow> pop TIAddress s; Some (Next s (ucast a)) }"

definition execRTN :: "host \<Rightarrow> machine \<Rightarrow> outcome option" where
  "execRTN h s = do {
     (label, s) \<leftarrow> pop TLabel s;
     if ucast label = entry_iContinuation h then do {
       (iLabel, s) \<leftarrow> pop TIAddress s;
       Some (Next s (ucast iLabel)) }
     else Some (Jump (ucast label) s) }"

definition execERR :: "host \<Rightarrow> machine \<Rightarrow> addr \<Rightarrow> outcome option" where
  "execERR h s pc = do {
     (p, pc) \<leftarrow> loadT TPtr h s pc;
     str \<leftarrow> c_string (mem s) (ucast p);
     Some (Return (report (ErrorMessage str) s)) }"

definition execECP :: "machine \<Rightarrow> addr \<Rightarrow> outcome option" where
  "execECP s pc = do {
     (offset, pc) \<leftarrow> extInt4 (mem s) pc;
     str \<leftarrow> c_string (mem s) (pc + offset);
     Some (Return (report (ErrorMessage str) s)) }"

definition execTRC :: "host \<Rightarrow> machine \<Rightarrow> addr \<Rightarrow> outcome option" where
  "execTRC h s pc = do {
     (p, pc) \<leftarrow> loadT TPtr h s pc;
     str \<leftarrow> c_string (mem s) (ucast p);
     Some (Next (report (TraceMessage str) s) pc) }"

definition execTCP :: "machine \<Rightarrow> addr \<Rightarrow> outcome option" where
  "execTCP s pc = do {
     (offset, pc) \<leftarrow> extInt4 (mem s) pc;
     str \<leftarrow> c_string (mem s) (pc + offset);
     Some (Next (report (TraceMessage str) s) pc) }"

definition execSET_ENV :: "host \<Rightarrow> machine \<Rightarrow> addr \<Rightarrow> outcome option" where
  "execSET_ENV h s pc = do {
     (env, pc) \<leftarrow> loadT TPtr h s pc;
     msa \<leftarrow> load_mem TPtr s (ucast env);
     Some (Next (s\<lparr>consEnv := ucast env, consMSA := ucast msa\<rparr>) pc) }"

definition execRSS :: "byte \<Rightarrow> machine \<Rightarrow> addr \<Rightarrow> outcome option" where
  "execRSS opCode s pc = do {
     (len, pc') \<leftarrow> fetchVLU (mem s) pc;
     if len > rStructSize s then Some (Service opCode s pc) else Some (Next s pc') }"

definition execCPA :: "host \<Rightarrow> machine \<Rightarrow> addr \<Rightarrow> outcome option" where
  "execCPA h s pc = do {
     (nElem, pc) \<leftarrow> loadT TInt h s pc;
     (elemSize, pc) \<leftarrow> fetchVLU (mem s) pc;
     (ptr1, pc) \<leftarrow> loadT TPtr h s pc;
     (offset1, pc) \<leftarrow> loadT TInt h s pc;
     (ptr2, pc) \<leftarrow> loadT TPtr h s pc;
     (offset2, pc) \<leftarrow> loadT TInt h s pc;
     s \<leftarrow> mem_copy (ucast ptr2 + as_int offset2 * elemSize) (ucast ptr1 + as_int offset1 * elemSize)
            (as_int nElem * elemSize) s;
     Some (Next s pc) }"

subsection \<open>The dispatch loop\<close>

text \<open>One instruction, from the byte after its opcode.\<close>

definition exec_opcode :: "host \<Rightarrow> byte \<Rightarrow> instr \<Rightarrow> machine \<Rightarrow> addr \<Rightarrow> outcome option" where
  "exec_opcode h opCode i s pc = (case i of
      ADD_P \<Rightarrow> execADD_P h s pc
    | ADD_SP \<Rightarrow> execADD_SP s pc
    | SUB_SP \<Rightarrow> execSUB_SP s pc
    | SQZ \<Rightarrow> execSQZ s pc
    | MOV t \<Rightarrow> execMove t h s pc
    | LVP \<Rightarrow> execLVP h s pc
    | MMV_B \<Rightarrow> execMMV_B h s pc
    | MCP \<Rightarrow> execMCP h s pc
    | MIL \<Rightarrow> execMIL h s pc
    | PCB \<Rightarrow> execPCB h s pc
    | COND_BRANCH op t \<Rightarrow> execCondBranch op t h s pc
    | COMPARE op t \<Rightarrow> execCompare op t h s pc
    | CAST srcT dstT \<Rightarrow> execCast srcT dstT h s pc
    | MONADIC op t \<Rightarrow> execMonadic op t h s pc
    | DYADIC op t \<Rightarrow> execDyadic op t h s pc
    | LEN_S \<Rightarrow> execLEN_S h s pc
    | LEN_SC \<Rightarrow> execLEN_SC h s pc
    | GET_AT_S \<Rightarrow> execGET_AT_S h s pc
    | GET_AT_SC \<Rightarrow> execGET_AT_SC h s pc
    | PUT_AT_S \<Rightarrow> execPUT_AT_S h s pc
    | STR_I \<Rightarrow> execSTR_I h s pc
    | STR_IC \<Rightarrow> execSTR_IC h s pc
    | UNARY_BRANCH k t \<Rightarrow> execUnaryBranch k t h s pc
    | TEST_NULL op \<Rightarrow> execTestBranch op 0 TPtr h s pc
    | BRA \<Rightarrow> execBRA s pc
    | BSE \<Rightarrow> execBSE h s pc
    | EFC \<Rightarrow> execEFC h s pc
    | ETC \<Rightarrow> execETC h s pc
    | TAG_N \<Rightarrow> execTAG_N h s pc
    | TAG_T \<Rightarrow> execTAG_T h s pc
    | TAG_C \<Rightarrow> execTAG_C h s pc
    | TAG_I \<Rightarrow> execTAG_I h opCode s pc
    | ASC \<Rightarrow> execASC s pc
    | UPD \<Rightarrow> execUPD h s pc
    | CIO \<Rightarrow> execCIO h s pc
    | ENT_P \<Rightarrow> execENT_P h s pc
    | ENT_A_P \<Rightarrow> execENT_A_P h s pc
    | JMP \<Rightarrow> execJMP h s pc
    | RET \<Rightarrow> execRET s
    | RTN \<Rightarrow> execRTN h s
    | EXIT \<Rightarrow> Some (Return s)
    | ATB t \<Rightarrow> execTableBranch t h s pc
    | ATB_S \<Rightarrow> execStringTableBranch h s pc
    | ATB_CS \<Rightarrow> execConstStringTableBranch h s pc
    | ERR \<Rightarrow> execERR h s pc
    | ECP \<Rightarrow> execECP s pc
    | TRC \<Rightarrow> execTRC h s pc
    | TCP \<Rightarrow> execTCP s pc
    | SET_ENV \<Rightarrow> execSET_ENV h s pc
    | RSS \<Rightarrow> execRSS opCode s pc
    | CPA \<Rightarrow> execCPA h s pc
    | EXC \<Rightarrow> Some (Throw ''execByteCode: exception'' s)
    | ILG \<Rightarrow> Some (Throw ''execByteCode: illegal instruction'' s)
    | SERVICE \<Rightarrow> Some (Service opCode s pc))"

lemmas exec_opcode_defs = exec_opcode_def
  execADD_P_def execADD_SP_def execSUB_SP_def execSQZ_def execLVP_def execMMV_B_def
  execMCP_def execMIL_def execPCB_def execLEN_S_def execLEN_SC_def execGET_AT_S_def
  execGET_AT_SC_def execPUT_AT_S_def execSTR_I_def execSTR_IC_def execBRA_def execBSE_def
  execEFC_def execETC_def execTAG_N_def execTAG_T_def execTAG_C_def execTAG_I_def execCIO_def
  execJMP_def execRET_def execRTN_def execERR_def execECP_def execTRC_def execTCP_def
  execSET_ENV_def execRSS_def execCPA_def

text \<open>
  The switch. An opcode without a case reaches \<open>default\<close>, whose \<open>error1\<close> only reports: the loop
  goes on with the next byte.
\<close>

definition exec_instr :: "host \<Rightarrow> machine \<Rightarrow> addr \<Rightarrow> outcome option" where
  "exec_instr h s pc = do {
     (opCode, pc) \<leftarrow> fetchByte (mem s) pc;
     case map_of opcode_table opCode of
       Some i \<Rightarrow> exec_opcode h opCode i s pc
     | None \<Rightarrow> Some (Next (report (InvalidOpcode opCode) s) pc) }"

text \<open>The loop: it runs until an instruction leaves it, and None when none ever does.\<close>

partial_function (option) execByteCode :: "host \<Rightarrow> machine \<Rightarrow> addr \<Rightarrow> outcome option" where
  "execByteCode h s pc = do {
     out \<leftarrow> exec_instr h s pc;
     case out of Next s pc \<Rightarrow> execByteCode h s pc | _ \<Rightarrow> Some out }"

declare execByteCode.simps [code]

subsection \<open>What an instruction can change\<close>

primrec outcome_state :: "outcome \<Rightarrow> machine" where
  "outcome_state (Next s pc) = s"
| "outcome_state (Jump l s) = s"
| "outcome_state (Return s) = s"
| "outcome_state (Throw e s) = s"
| "outcome_state (Service b s pc) = s"

definition same_map :: "machine \<Rightarrow> machine \<Rightarrow> bool" where
  "same_map s s' \<longleftrightarrow> dom (mem s') = dom (mem s)"

lemma same_map_refl [simp, intro!]: "same_map s s"
  by (simp add: same_map_def)

lemma same_map_trans [trans]: "same_map a b \<Longrightarrow> same_map b c \<Longrightarrow> same_map a c"
  by (simp add: same_map_def)

lemma same_map_fields [simp]:
  "same_map s (s'\<lparr>sp := x\<rparr>) = same_map s s'" "same_map s (s'\<lparr>consEnv := x\<rparr>) = same_map s s'"
  "same_map s (s'\<lparr>consMSA := x\<rparr>) = same_map s s'" "same_map s (report msg s') = same_map s s'"
  "same_map s (stackAlloc n s') = same_map s s'"
  by (simp_all add: same_map_def report_def stackAlloc_def)

lemma same_map_reg_set [simp]: "same_map s (reg_set r v s)"
  by (simp add: same_map_def)

lemma store_mem_map: "store_mem t v a s = Some s' \<Longrightarrow> same_map s s'"
  unfolding same_map_def by (rule store_mem_dom)

lemma write_place_map: "write_place t v s p = Some s' \<Longrightarrow> same_map s s'"
  by (cases p) (auto simp: store_mem_map)

lemma storeT_map: "storeT t v h s pc = Some (s', pc') \<Longrightarrow> same_map s s'"
  by (auto simp: storeT_def bind_simps write_place_map)

lemma mem_move_map: "mem_move d r n s = Some s' \<Longrightarrow> same_map s s'"
  by (clarsimp simp: mem_move_def bind_simps same_map_def write_n_dom)

lemma mem_copy_map: "mem_copy d r n s = Some s' \<Longrightarrow> same_map s s'"
  by (auto simp: mem_copy_def mem_move_map split: if_splits)

lemma pop_map: "pop t s = Some (v, s') \<Longrightarrow> same_map s s'"
  by (auto simp: pop_def bind_simps)

lemmas map_rules = store_mem_map storeT_map mem_move_map mem_copy_map pop_map

lemmas exec_macros = execMove_def execCast_def execMonadic_def execDyadic_def execCompare_def
  execUnaryBranch_def execCondBranch_def execTestBranch_def execTableBranch_def
  execStringTableBranch_def execConstStringTableBranch_def execASC_def execENT_P_def
  execENT_A_P_def execUPD_def

lemma exec_opcode_map: "exec_opcode h b i s pc = Some out \<Longrightarrow> same_map s (outcome_state out)"
  by (cases i)
    (auto simp: exec_opcode_defs exec_macros store_stack_def Let_def bind_simps map_rules
      dest!: map_rules split: if_splits option.splits elim: same_map_trans)

lemma exec_instr_map: "exec_instr h s pc = Some out \<Longrightarrow> same_map s (outcome_state out)"
  by (auto simp: exec_instr_def bind_simps split: option.splits dest: exec_opcode_map)


subsection \<open>Steps\<close>

text \<open>One iteration of the loop that stays in the loop, and the runs made of them.\<close>

inductive istep :: "host \<Rightarrow> machine \<times> addr \<Rightarrow> machine \<times> addr \<Rightarrow> bool" for h where
  istep: "exec_instr h s pc = Some (Next s' pc') \<Longrightarrow> istep h (s, pc) (s', pc')"

inductive_cases istepE: "istep h (s, pc) (s', pc')"
inductive_simps istep_iff: "istep h (s, pc) (s', pc')"

inductive runs :: "host \<Rightarrow> machine \<times> addr \<Rightarrow> machine \<times> addr \<Rightarrow> bool" for h where
  runs_refl: "runs h c c"
| runs_step: "istep h c c' \<Longrightarrow> runs h c' c'' \<Longrightarrow> runs h c c''"

primrec leaves_loop :: "outcome \<Rightarrow> bool" where
  "leaves_loop (Next s pc) \<longleftrightarrow> False"
| "leaves_loop (Jump l s) \<longleftrightarrow> True"
| "leaves_loop (Return s) \<longleftrightarrow> True"
| "leaves_loop (Throw e s) \<longleftrightarrow> True"
| "leaves_loop (Service b s pc) \<longleftrightarrow> True"

lemma runs_trans: "runs h a b \<Longrightarrow> runs h b c \<Longrightarrow> runs h a c"
  by (induction rule: runs.induct) (auto intro: runs.intros)

lemma istep_deterministic: "istep h c c1 \<Longrightarrow> istep h c c2 \<Longrightarrow> c1 = c2"
  by (auto elim!: istep.cases)

lemma runs_execByteCode:
  "runs h c c' \<Longrightarrow> execByteCode h (fst c) (snd c) = execByteCode h (fst c') (snd c')"
proof (induction rule: runs.induct)
  case (runs_step c c' c'')
  then show ?case by (auto elim!: istep.cases simp: execByteCode.simps)
qed simp

lemma execByteCode_runs:
  assumes "execByteCode h s pc = Some out"
  shows "leaves_loop out \<and> (\<exists>s' pc'. runs h (s, pc) (s', pc') \<and> exec_instr h s' pc' = Some out)"
proof (rule execByteCode.raw_induct
    [of "\<lambda>h s pc out. leaves_loop out \<and> (\<exists>s' pc'. runs h (s, pc) (s', pc') \<and> exec_instr h s' pc' = Some out)",
      OF _ assms])
  fix exec h s pc out
  assume IH: "\<And>h s pc out. exec h s pc = Some out \<Longrightarrow>
      leaves_loop out \<and> (\<exists>s' pc'. runs h (s, pc) (s', pc') \<and> exec_instr h s' pc' = Some out)"
    and body: "(do { out \<leftarrow> exec_instr h s pc;
      case out of Next s pc \<Rightarrow> exec h s pc | _ \<Rightarrow> Some out }) = Some out"
  from body obtain out1 where o1: "exec_instr h s pc = Some out1"
    and rest: "(case out1 of Next s pc \<Rightarrow> exec h s pc | _ \<Rightarrow> Some out1) = Some out"
    by (auto simp: bind_simps)
  show "leaves_loop out \<and> (\<exists>s' pc'. runs h (s, pc) (s', pc') \<and> exec_instr h s' pc' = Some out)"
  proof (cases "leaves_loop out1")
    case True
    with rest have "out = out1" by (cases out1) auto
    with o1 True show ?thesis by (blast intro: runs_refl)
  next
    case False
    then obtain s1 pc1 where n: "out1 = Next s1 pc1" by (cases out1) auto
    with rest have "exec h s1 pc1 = Some out" by simp
    then obtain s' pc' where "leaves_loop out" "runs h (s1, pc1) (s', pc')" "exec_instr h s' pc' = Some out"
      using IH by blast
    moreover have "istep h (s, pc) (s1, pc1)" using o1 n by (simp add: istep_iff)
    ultimately show ?thesis by (blast intro: runs_step)
  qed
qed

lemma runs_map: "runs h c c' \<Longrightarrow> same_map (fst c) (fst c')"
proof (induction rule: runs.induct)
  case (runs_step c c' c'')
  then have "same_map (fst c) (fst c')"
    by (auto elim!: istep.cases dest: exec_instr_map)
  with runs_step show ?case by (blast intro: same_map_trans)
qed simp


lemma execByteCode_iff:
  "execByteCode h s pc = Some out \<longleftrightarrow>
     leaves_loop out \<and> (\<exists>s' pc'. runs h (s, pc) (s', pc') \<and> exec_instr h s' pc' = Some out)"
proof
  assume "leaves_loop out \<and> (\<exists>s' pc'. runs h (s, pc) (s', pc') \<and> exec_instr h s' pc' = Some out)"
  then obtain s' pc' where r: "leaves_loop out" "runs h (s, pc) (s', pc')" "exec_instr h s' pc' = Some out"
    by blast
  have "execByteCode h s pc = execByteCode h s' pc'" using runs_execByteCode [OF r(2)] by simp
  also have "\<dots> = Some out" using r by (cases out) (simp_all add: execByteCode.simps)
  finally show "execByteCode h s pc = Some out" .
qed (rule execByteCode_runs)

subsection \<open>Concrete machines\<close>

text \<open>A memory that holds the given bytes from an address on, and a machine with it.\<close>

definition flash :: "addr \<Rightarrow> byte list \<Rightarrow> memory" where
  "flash base bs a = (let i = unat (a - base) in if i < length bs then Some (bs ! i) else None)"

definition zero_machine :: "memory \<Rightarrow> machine" where
  "zero_machine m = \<lparr>consMSA = 0, consEnv = 0, sb = 0, sp = 0, fp = 0, rack = 0, cell = 0, cellEnv = 0,
     rEnv = 0, rName = 0, rType = 0, rCell = 0, rExpr = 0, rByte = 0, rBits = 0, rInt = 0, rFloat = 0,
     rDouble = 0, rTag = 0, rChar = 0, rStruct = 0, rStructSize = 0, rPtr = 0, rRef = 0, rUTC = 0,
     mem = m, messages = []\<rparr>"

definition zero_host :: host where
  "zero_host = \<lparr>entry_iContinuation = 0x8000, entry_iClosure = 0x8004, altEntry_iClosure = 0x8008,
     indirectionCellInfo = 0x800c, f_of_unsigned = id, f_of_int = id, f_of_d = ucast, d_of_int = ucast,
     f_neg = id, f_add = (+), f_sub = (-), f_mul = (*), f_div = (div), f_lt = (<), f_eq = (=),
     d_neg = id, d_add = (+), d_sub = (-), d_mul = (*), d_div = (div), d_lt = (<), d_eq = (=)\<rparr>"

subsection \<open>Decoding from memory\<close>

lemma fetchByte_eq: "fetchByte m pc = map_option (\<lambda>b. (b, pc + 1)) (m pc)"
  by (cases "m pc") (simp_all add: fetchByte_def)

lemma extInt4_load: "extInt4 m a = map_option (\<lambda>v. (ucast v, a + 4)) (load_n 4 m a)"
  by (simp add: extInt4_def extBits32_load)

text \<open>A branch table as the assembler lays it out: \<open>n\<close> keys with their offsets, then the default.\<close>

primrec read_table :: "nat \<Rightarrow> ctype \<Rightarrow> memory \<Rightarrow> addr \<Rightarrow> ((u64 \<times> u32) list \<times> u32) option" where
  "read_table 0 t m a = do { (d, a) \<leftarrow> extInt4 m a; Some ([], d) }"
| "read_table (Suc n) t m a = do {
     (key, a) \<leftarrow> ext_key t m a;
     (offset, a) \<leftarrow> extInt4 m a;
     (es, d) \<leftarrow> read_table n t m a;
     Some ((key, offset) # es, d) }"

primrec read_depths :: "nat \<Rightarrow> memory \<Rightarrow> addr \<Rightarrow> (u32 \<times> u32) list option" where
  "read_depths 0 m a = Some []"
| "read_depths (Suc n) m a = do {
     (pd, a) \<leftarrow> extInt4 m a;
     (offset, a) \<leftarrow> extInt4 m a;
     es \<leftarrow> read_depths n m a;
     Some ((pd, offset) # es) }"

lemma tableBranchOffset_map_of:
  "read_table n t m a = Some (es, d) \<Longrightarrow>
   tableBranchOffset n t m a i = Some (case map_of es i of Some off \<Rightarrow> off | None \<Rightarrow> d)"
proof (induction n arbitrary: a es)
  case (Suc n)
  then obtain k off a1 a2 es' where "ext_key t m a = Some (k, a1)" "extInt4 m a1 = Some (off, a2)"
    "read_table n t m a2 = Some (es', d)" "es = (k, off) # es'"
    by (auto simp: bind_simps)
  with Suc.IH show ?case by simp
qed (auto simp: bind_simps)

lemma read_depths_length: "read_depths n m a = Some es \<Longrightarrow> length es = n"
  by (induction n arbitrary: a es) (auto simp: bind_simps)

lemma asc_offset_spec:
  "read_depths n m a = Some es \<Longrightarrow> n \<noteq> 0 \<Longrightarrow>
   asc_offset n m a d = Some (case map_of es d of Some off \<Rightarrow> off | None \<Rightarrow> snd (last es))"
proof (induction n arbitrary: a es)
  case (Suc n)
  then obtain pd off a1 a2 es' where *: "extInt4 m a = Some (pd, a1)" "extInt4 m a1 = Some (off, a2)"
    "read_depths n m a2 = Some es'" "es = (pd, off) # es'"
    by (auto simp: bind_simps)
  have "asc_offset (Suc n) m a d = (if n = 0 \<or> d = pd then Some off else asc_offset n m a2 d)"
    using *(1,2) by simp
  moreover have "n \<noteq> 0 \<Longrightarrow> es' \<noteq> []" "n = 0 \<Longrightarrow> es' = []" using read_depths_length [OF *(3)] by auto
  ultimately show ?case using Suc.IH [OF *(3)] *(4)
    by (cases "n = 0") (auto simp del: asc_offset.simps split: option.splits)
qed simp

subsection \<open>Moving memory\<close>

lemma mem_move_spec:
  assumes "mem_move dst src n s = Some s'"
  shows "read_n (unat n) (mem s') dst = read_n (unat n) (mem s) src"
    "x \<notin> span dst (unat n) \<Longrightarrow> mem s' x = mem s x" "s' = s\<lparr>mem := mem s'\<rparr>"
proof -
  obtain bs m where b: "read_n (unat n) (mem s) src = Some bs" "write_n bs dst (mem s) = Some m"
    "s' = s\<lparr>mem := m\<rparr>" using assms by (auto simp: mem_move_def bind_simps)
  have l: "length bs = unat n" using b(1) by (rule read_n_length)
  moreover have "unat n < 2 ^ LENGTH(32)" by (rule unsigned_less)
  ultimately have "length bs \<le> 2 ^ 32" by simp
  from read_after_write [OF b(2) this] b l
  show "read_n (unat n) (mem s') dst = read_n (unat n) (mem s) src" by simp
  show "x \<notin> span dst (unat n) \<Longrightarrow> mem s' x = mem s x"
    using write_n_outside [OF b(2)] l b(3) by simp
  show "s' = s\<lparr>mem := mem s'\<rparr>" using b(3) by simp
qed

lemma exec_fetch:
  assumes "mem s pc = Some op" "map_of opcode_table op = Some i"
  shows "exec_instr h s pc = exec_opcode h op i s (pc + 1)"
  using assms by (simp add: exec_instr_def fetchByte_eq)

subsection \<open>Properties\<close>

text \<open>Running the interpreter from a machine and an address yields an outcome exactly when the
  steps of the dispatch loop lead, in finitely many iterations, to an instruction that leaves the
  loop with that outcome; the steps are deterministic, so there is at most one. Never leaving the
  loop is None.\<close>

theorem execByteCode_steps:
  "(execByteCode h s pc = Some out \<longleftrightarrow>
     leaves_loop out \<and> (\<exists>s' pc'. runs h (s, pc) (s', pc') \<and> exec_instr h s' pc' = Some out))
   \<and> (istep h c c1 \<longrightarrow> istep h c c2 \<longrightarrow> c1 = c2)"
  using execByteCode_iff istep_deterministic by blast

theorem execByteCode_steps_witness:
  "execByteCode zero_host (zero_machine (flash 0x100 [145, 4, 151])) 0x100
     = Some (Return (zero_machine (flash 0x100 [145, 4, 151])\<lparr>sp := 4\<rparr>))"
proof -
  let ?s = "zero_machine (flash 0x100 [145, 4, 151])"
  have 1: "exec_instr zero_host ?s 0x100 = Some (Next (?s\<lparr>sp := 4\<rparr>) 0x102)" by code_simp
  have 2: "exec_instr zero_host (?s\<lparr>sp := 4\<rparr>) 0x102 = Some (Return (?s\<lparr>sp := 4\<rparr>))" by code_simp
  have st: "istep zero_host (?s, 0x100) (?s\<lparr>sp := 4\<rparr>, 0x102)" using 1 by (simp add: istep_iff)
  then have "runs zero_host (?s, 0x100) (?s\<lparr>sp := 4\<rparr>, 0x102)" by (blast intro: runs.intros)
  then show ?thesis
    using execByteCode_steps [where h = zero_host and s = ?s and pc = "0x100"
        and out = "Return (?s\<lparr>sp := 4\<rparr>)" and c = "(?s, 0x100)"] st 2
    by (auto intro: exI [of _ "0x102"])
qed

text \<open>No instruction maps or unmaps memory: whatever an instruction or a whole run of the
  interpreter does, the addresses that hold a byte afterwards are those that held one before.\<close>

theorem exec_keeps_mapped_memory:
  "(exec_instr h s pc = Some out \<longrightarrow> dom (mem (outcome_state out)) = dom (mem s))
   \<and> (runs h (s, pc) (s', pc') \<longrightarrow> dom (mem s') = dom (mem s))
   \<and> (execByteCode h s pc = Some out \<longrightarrow> dom (mem (outcome_state out)) = dom (mem s))"
proof -
  have r: "runs h (s, pc) (s', pc') \<Longrightarrow> same_map s s'" for s' pc' using runs_map by fastforce
  have "execByteCode h s pc = Some out \<Longrightarrow> same_map s (outcome_state out)"
    using execByteCode_runs [of h s pc out] r exec_instr_map same_map_trans by blast
  with r exec_instr_map show ?thesis unfolding same_map_def by blast
qed

lemma read_n_split:
  assumes "read_n (k + n) m a = Some xs"
  shows "read_n k m a = Some (take k xs)" "read_n n m (a + of_nat k) = Some (drop k xs)"
proof -
  obtain ys zs where r: "read_n k m a = Some ys" "read_n n m (a + of_nat k) = Some zs" "xs = ys @ zs"
    using assms by (auto simp: read_n_append bind_simps)
  moreover have "length ys = k" using r(1) by (rule read_n_length)
  ultimately show "read_n k m a = Some (take k xs)" "read_n n m (a + of_nat k) = Some (drop k xs)"
    by simp_all
qed

lemma span_add: "span a (k + n) = span a k \<union> span (a + of_nat k) n"
proof (induction k arbitrary: a)
  case (Suc k)
  have "a + 1 + of_nat k = a + of_nat (Suc k)" by simp
  with Suc [of "a + 1"] show ?case by (simp del: of_nat_Suc)
qed simp

lemma span_disjoint:
  assumes "k + n \<le> 2 ^ 32"
  shows "span a k \<inter> span (a + of_nat k) n = {}"
proof -
  have "i = k + j" if "a + of_nat i = a + of_nat k + of_nat j" "i < k" "j < n" for i j
  proof -
    have "of_nat i = (of_nat (k + j) :: addr)" using that(1) by (simp add: add.assoc)
    then have "unat (of_nat i :: addr) = unat (of_nat (k + j) :: addr)" by simp
    then show ?thesis using that(2,3) assms by (simp only: unat_of_nat) simp
  qed
  then show ?thesis by (fastforce simp: span_def)
qed

lemma ucast_take_ucast: "ucast (take_bit 32 (ucast (x::u32) :: u64)) = x"
  by (rule bit_word_eqI) (simp add: bit_simps)

text \<open>C15: a PCB instruction pushes the address behind it and the continuation entry, eight bytes
  below the stack pointer and nowhere else, and branches; an RTN that later finds those eight bytes
  on top of the stack continues at exactly that address, with the stack pointer as it was before
  the call and the rest of its machine unchanged.\<close>

theorem call_and_return:
  assumes call: "mem s pc = Some 168" "load_n 4 (mem s) (pc + 1) = Some offset"
    and room: "span (sp s - 8) 8 \<subseteq> dom (mem s)"
  shows "\<exists>s1. exec_instr h s pc = Some (Next s1 (pc + 5 + ucast offset)) \<and> sp s1 = sp s - 8
    \<and> (\<forall>a. a \<notin> span (sp s - 8) 8 \<longrightarrow> mem s1 a = mem s a)
    \<and> (\<forall>s2 pc2. mem s2 pc2 = Some 150 \<and> sp s2 = sp s1 \<and> read_n 8 (mem s2) (sp s1) = read_n 8 (mem s1) (sp s1)
        \<longrightarrow> exec_instr h s2 pc2 = Some (Next (s2\<lparr>sp := sp s\<rparr>) (pc + 5)))"
proof -
  let ?b = "sp s - 8"
  have sp4: "?b + of_nat 4 = sp s - 4" "?b + 4 = sp s - 4" by simp_all
  have halves: "span ?b 8 = span ?b 4 \<union> span (sp s - 4) 4" using span_add [of ?b 4 4] sp4 by simp
  then have "span (sp s - 4) 4 \<subseteq> dom (mem s)" using room by blast
  then obtain m1 where m1: "store_n 4 (ucast (pc + 5)) (sp s - 4) (mem s) = Some m1"
    using store_n_defined by fastforce
  have "span ?b 4 \<subseteq> dom m1" using room halves store_n_dom [OF m1] by blast
  then obtain m2 where m2: "store_n 4 (ucast (entry_iContinuation h)) ?b m1 = Some m2"
    using store_n_defined by fastforce
  let ?s1 = "s\<lparr>mem := m2, sp := ?b\<rparr>"
  have "exec_instr h s pc = Some (Next ?s1 (pc + 5 + ucast offset))"
    using call m1 m2 by (simp add: exec_fetch opcode_table_defs exec_opcode_defs extInt4_load store_stack_def
        store_mem_def stackAlloc_def add.assoc)
  moreover have "mem ?s1 a = mem s a" if "a \<notin> span ?b 8" for a
    using that halves write_n_outside [OF m1 [unfolded store_n_def]] write_n_outside [OF m2 [unfolded store_n_def]]
    by simp
  moreover have "exec_instr h s2 pc2 = Some (Next (s2\<lparr>sp := sp s\<rparr>) (pc + 5))"
    if s2: "mem s2 pc2 = Some 150" "sp s2 = ?b" "read_n 8 (mem s2) ?b = read_n 8 m2 ?b" for s2 pc2
  proof -
    have "span ?b 4 \<inter> span (sp s - 4) 4 = {}" using span_disjoint [of 4 4 ?b] sp4 by simp
    then have l: "load_n 4 m2 ?b = Some (take_bit 32 (ucast (entry_iContinuation h)))"
      "load_n 4 m2 (sp s - 4) = Some (take_bit 32 (ucast (pc + 5)))"
      using load_after_store [OF m1] load_after_store [OF m2] load_store_disjoint [OF m2] by simp_all
    have "span ?b 8 \<subseteq> dom m2" using room store_n_dom [OF m1] store_n_dom [OF m2] by simp
    then obtain xs where xs: "read_n 8 m2 ?b = Some xs" using read_n_defined by fastforce
    have "load_n 4 (mem s2) ?b = load_n 4 m2 ?b" "load_n 4 (mem s2) (sp s - 4) = load_n 4 m2 (sp s - 4)"
      using read_n_split [of 4 4 m2 ?b xs] read_n_split [of 4 4 "mem s2" ?b xs] xs s2(3) sp4
      by (simp_all add: load_n_def)
    with l s2 show ?thesis
      by (simp add: exec_fetch opcode_table_defs exec_opcode_defs pop_def load_mem_def ucast_take_ucast)
  qed
  ultimately show ?thesis by (intro exI [of _ ?s1]) simp
qed


theorem exec_keeps_mapped_memory_witness:
  "dom (mem (outcome_state (Return (zero_machine (flash 0x100 [151])))))
     = dom (flash 0x100 [151])"
proof -
  let ?s = "zero_machine (flash 0x100 [151])"
  have e: "exec_instr zero_host ?s 0x100 = Some (Return ?s)" by code_simp
  then have "execByteCode zero_host ?s 0x100 = Some (Return ?s)" by (simp add: execByteCode.simps)
  with e have "dom (mem (outcome_state (Return ?s))) = dom (mem ?s)"
    using exec_keeps_mapped_memory [of zero_host ?s "0x100" "Return ?s" ?s "0x100"] runs_refl by blast
  then show ?thesis by (simp add: zero_machine_def)
qed

theorem call_and_return_witness:
  "\<exists>s1. exec_instr zero_host (zero_machine (flash 0x100 ([0, 0, 0, 0, 0, 0, 0, 0, 168, 3, 0, 0, 0]))\<lparr>sp := 0x108\<rparr>) 0x108
     = Some (Next s1 0x110) \<and> sp s1 = 0x100"
proof -
  let ?s = "zero_machine (flash 0x100 ([0, 0, 0, 0, 0, 0, 0, 0, 168, 3, 0, 0, 0]))\<lparr>sp := 0x108\<rparr>"
  have "mem ?s 0x108 = Some 168" by code_simp
  moreover have "load_n 4 (mem ?s) (0x108 + 1) = Some 3" by code_simp
  moreover have "span (sp ?s - 8) 8 \<subseteq> dom (mem ?s)"
  proof -
    have "load_n 8 (mem ?s) 0x100 \<noteq> None" by code_simp
    then show ?thesis using load_n_defined [of 8 "mem ?s" "0x100"] by simp
  qed
  ultimately show ?thesis
    using call_and_return [of ?s "0x108" 3 zero_host] by (auto simp: zero_machine_def)
qed

text \<open>C21: a table branch goes to the offset of the first entry of the table whose key equals the
  operand, to the default offset behind the entries when none does, and changes nothing but the
  program counter. Int, Tag and Char tables are scanned alike.\<close>

theorem table_branch_first_match:
  assumes "mem s pc = Some op" "map_of opcode_table op = Some (ATB t)"
    and "loadT t h s (pc + 1) = Some (x, pc1)" "extInt4 (mem s) pc1 = Some (offset, pc2)"
    and "fetchVLU (mem s) pc2 = Some (n, pc3)"
    and "read_table (unat n) t (mem s) (pc3 + offset) = Some (es, d)"
  shows "exec_instr h s pc = Some (Next s (pc3 + (case map_of es x of Some off \<Rightarrow> off | None \<Rightarrow> d)))"
  using assms by (simp add: exec_fetch exec_opcode_defs execTableBranch_def tableBranchOffset_map_of)

theorem table_branch_first_match_witness:
  "exec_instr zero_host (zero_machine (flash 0x100
      [175, 0xe0, 66, 0, 0, 0, 0, 2, 65, 9, 0, 0, 0, 66, 7, 0, 0, 0, 5, 0, 0, 0])) 0x100
   = Some (Next (zero_machine (flash 0x100
      [175, 0xe0, 66, 0, 0, 0, 0, 2, 65, 9, 0, 0, 0, 66, 7, 0, 0, 0, 5, 0, 0, 0])) 0x10f)"
proof -
  let ?s = "zero_machine (flash 0x100
      [175, 0xe0, 66, 0, 0, 0, 0, 2, 65, 9, 0, 0, 0, 66, 7, 0, 0, 0, 5, 0, 0, 0])"
  have "mem ?s 0x100 = Some 175" by code_simp
  moreover have "map_of opcode_table 175 = Some (ATB TChar)" by code_simp
  moreover have "loadT TChar zero_host ?s (0x100 + 1) = Some (66, 0x103)" by code_simp
  moreover have "extInt4 (mem ?s) 0x103 = Some (0, 0x107)" by code_simp
  moreover have "fetchVLU (mem ?s) 0x107 = Some (2, 0x108)" by code_simp
  moreover have "read_table (unat (2::u32)) TChar (mem ?s) (0x108 + 0) = Some ([(65, 9), (66, 7)], 5)" by code_simp
  ultimately show ?thesis using table_branch_first_match [of ?s "0x100" 175 TChar zero_host 66] by simp
qed

text \<open>C20: an argument satisfaction check with a non-empty table goes to the offset paired with the
  current stack depth, and to the last offset when the depth is not in the table; with an empty
  table it falls through. The machine is unchanged.\<close>

theorem argument_check_dispatch:
  assumes "mem s pc = Some 164" "fetchVLU (mem s) (pc + 1) = Some (n, pc1)"
    and "0 < n \<Longrightarrow> extInt4 (mem s) pc1 = Some (offset, pc2)"
    and "0 < n \<Longrightarrow> read_depths (unat n) (mem s) (pc2 + offset) = Some es"
  shows "exec_instr h s pc = Some (Next s (if n = 0 then pc1
      else pc2 + (case map_of es (sb s - sp s) of Some off \<Rightarrow> off | None \<Rightarrow> snd (last es))))"
proof (cases "n = 0")
  case False
  then have n: "0 < n" by (simp add: word_neq_0_conv)
  then have "unat n \<noteq> 0" by (simp add: unat_gt_0)
  with n False assms show ?thesis
    by (simp add: exec_fetch opcode_table_defs exec_opcode_defs execASC_def asc_offset_spec)
qed (use assms in \<open>simp add: exec_fetch opcode_table_defs exec_opcode_defs execASC_def\<close>)

theorem argument_check_dispatch_witness:
  "exec_instr zero_host (zero_machine (flash 0x100
      [164, 2, 0, 0, 0, 0, 4, 0, 0, 0, 1, 0, 0, 0, 8, 0, 0, 0, 2, 0, 0, 0])\<lparr>sb := 0x90, sp := 0x80\<rparr>) 0x100
   = Some (Next (zero_machine (flash 0x100
      [164, 2, 0, 0, 0, 0, 4, 0, 0, 0, 1, 0, 0, 0, 8, 0, 0, 0, 2, 0, 0, 0])\<lparr>sb := 0x90, sp := 0x80\<rparr>) 0x108)"
proof -
  let ?s = "zero_machine (flash 0x100
      [164, 2, 0, 0, 0, 0, 4, 0, 0, 0, 1, 0, 0, 0, 8, 0, 0, 0, 2, 0, 0, 0])\<lparr>sb := 0x90, sp := 0x80\<rparr>"
  have "mem ?s 0x100 = Some 164" by code_simp
  moreover have "fetchVLU (mem ?s) (0x100 + 1) = Some (2, 0x102)" by code_simp
  moreover have "extInt4 (mem ?s) 0x102 = Some (0, 0x106)" by code_simp
  moreover have "read_depths (unat (2::u32)) (mem ?s) (0x106 + 0) = Some [(4, 1), (8, 2)]" by code_simp
  ultimately have "exec_instr zero_host ?s 0x100 = Some (Next ?s (if (2::u32) = 0 then 0x102
      else 0x106 + (case map_of [(4, 1), (8, 2)] (sb ?s - sp ?s) of Some off \<Rightarrow> off
                    | None \<Rightarrow> snd (last [(4::u32, 1), (8, 2)]))))"
    by (rule argument_check_dispatch)
  then show ?thesis by simp
qed

text \<open>The mathematical reading of an operand of a discrete type, and of a relation.\<close>

definition c_value :: "ctype \<Rightarrow> u64 \<Rightarrow> int" where
  "c_value t v = (case t of TInt \<Rightarrow> sint (as_int v) | TChar \<Rightarrow> sint (as_char v)
     | TTag \<Rightarrow> uint (as_tag v) | _ \<Rightarrow> uint (as_int v))"

primrec rel_int :: "relop \<Rightarrow> int \<Rightarrow> int \<Rightarrow> bool" where
  "rel_int RLt i j \<longleftrightarrow> i < j"
| "rel_int RLe i j \<longleftrightarrow> i \<le> j"
| "rel_int REq i j \<longleftrightarrow> i = j"
| "rel_int RNe i j \<longleftrightarrow> i \<noteq> j"
| "rel_int RGe i j \<longleftrightarrow> i \<ge> j"
| "rel_int RGt i j \<longleftrightarrow> i > j"

lemma compare_int:
  "t \<notin> {TFloat, TDouble} \<Longrightarrow> compare h op t x y \<longleftrightarrow> rel_int op (c_value t x) (c_value t y)"
proof -
  have s: "a = b \<longleftrightarrow> sint a = sint b" "a = b \<longleftrightarrow> uint a = uint b" for a b :: "'a::len word"
    by (metis signed_word_eqI) (rule word_uint_eq_iff)
  have r: "rel op (i < j) (i = j) (i > j) = rel_int op i j" for i j :: int
    by (cases op) (auto simp: rel_def)
  consider "t = TInt" | "t = TChar" | "t \<noteq> TInt" "t \<noteq> TChar" by blast
  then show "t \<notin> {TFloat, TDouble} \<Longrightarrow> ?thesis"
  proof cases
    case 1
    then show ?thesis unfolding r [symmetric] by (simp add: compare_def c_value_def s(1))
  next
    case 2
    then show ?thesis unfolding r [symmetric] by (simp add: compare_def c_value_def s(1))
  next
    case 3
    then show "t \<notin> {TFloat, TDouble} \<Longrightarrow> ?thesis"
      unfolding r [symmetric]
      by (cases t) (simp_all add: compare_def c_value_def word_less_def s(2))
  qed
qed

text \<open>The relation of an opcode: of the integers for a discrete type, and of the host for floating point, where
  of two unordered operands only the inequality holds.\<close>

primrec float_rel :: "relop \<Rightarrow> ('a \<Rightarrow> 'a \<Rightarrow> bool) \<Rightarrow> ('a \<Rightarrow> 'a \<Rightarrow> bool) \<Rightarrow> 'a \<Rightarrow> 'a \<Rightarrow> bool" where
  "float_rel RLt lt eq x y \<longleftrightarrow> lt x y"
| "float_rel RLe lt eq x y \<longleftrightarrow> lt x y \<or> eq x y"
| "float_rel REq lt eq x y \<longleftrightarrow> eq x y"
| "float_rel RNe lt eq x y \<longleftrightarrow> \<not> eq x y"
| "float_rel RGe lt eq x y \<longleftrightarrow> lt y x \<or> eq x y"
| "float_rel RGt lt eq x y \<longleftrightarrow> lt y x"

definition holds_at :: "host \<Rightarrow> relop \<Rightarrow> ctype \<Rightarrow> u64 \<Rightarrow> u64 \<Rightarrow> bool" where
  "holds_at h r t x y \<longleftrightarrow> (if t = TFloat then float_rel r (f_lt h) (f_eq h) (as_int x) (as_int y)
     else if t = TDouble then float_rel r (d_lt h) (d_eq h) x y
     else rel_int r (c_value t x) (c_value t y))"

lemma compare_holds: "compare h r t x y \<longleftrightarrow> holds_at h r t x y"
proof (cases "t \<in> {TFloat, TDouble}")
  case True
  then show ?thesis by (cases r) (auto simp: holds_at_def compare_def rel_def)
next
  case False
  then show ?thesis using compare_int [OF False] by (simp add: holds_at_def)
qed



lemma as_int_ucast: "as_int (ucast z) = z" for z :: u32
  by (rule bit_word_eqI) (simp add: bit_simps)

lemma int_result_eq: "int_result i = Some v \<Longrightarrow> sint (as_int v) = i"
proof -
  assume a: "int_result i = Some v"
  then have "- (2 ^ 31) \<le> i" "i < 2 ^ 31" "v = ucast (word_of_int i :: u32)"
    by (auto simp: int_result_def split: if_splits)
  moreover from this have "as_int v = word_of_int i"
    by (simp add: as_int_ucast)
  ultimately show ?thesis
    by (simp only: as_int_ucast sint_uint uint_word_of_int_eq) (simp add: signed_take_bit_take_bit signed_take_bit_int_eq_self)
qed

lemma int_result_None: "int_result i = None \<longleftrightarrow> i < - (2 ^ 31) \<or> 2 ^ 31 \<le> i"
  by (auto simp: int_result_def)

lemma sint32_bounds: "- (2 ^ 31) \<le> sint (x::u32)" "sint (x::u32) < 2 ^ 31"
  using sint_ge [of x] sint_lt [of x] by simp_all

text \<open>Truncated division: the quotient that overflows, the bounds and the sign of the remainder.\<close>

lemma quotient_overflow: "y \<noteq> 0 \<Longrightarrow> int_result (sint x sdiv sint y) = None \<longleftrightarrow> x = 0x80000000 \<and> y = - 1" for x y :: u32
proof -
  assume "y \<noteq> 0"
  have m1: "sint (- 1 :: u32) = - 1" "sint (0x80000000 :: u32) = - (2 ^ 31)" by simp_all
  have bx: "\<bar>sint x\<bar> \<le> 2 ^ 31" using sint32_bounds [of x] by linarith
  show ?thesis
  proof
    assume n: "int_result (sint x sdiv sint y) = None"
    then have "sint x sdiv sint y = 2 ^ 31" "sint x = - (2 ^ 31)"
      using sdiv_int_range [of "sint x" "sint y"] bx sint32_bounds [of x] by (auto simp: int_result_None)
    then have "sint x sdiv sint y = - sint x" "sint x \<noteq> 0" by simp_all
    then have "sint y = - 1" by simp
    with \<open>sint x = - (2 ^ 31)\<close> m1 show "x = 0x80000000 \<and> y = - 1" by (metis signed_word_eqI)
  next
    assume "x = 0x80000000 \<and> y = - 1"
    then show "int_result (sint x sdiv sint y) = None" using m1 by (simp add: int_result_None)
  qed
qed

lemma remainder_spec:
  fixes x y :: u32
  assumes "y \<noteq> 0"
  shows "\<bar>sint x smod sint y\<bar> < \<bar>sint y\<bar>" "sint x smod sint y = 0 \<or> sgn (sint x smod sint y) = sgn (sint x)"
    "- (2 ^ 31) \<le> sint x smod sint y" "sint x smod sint y < 2 ^ 31"
proof -
  have y0: "sint y \<noteq> 0" using assms by (metis signed_0 signed_word_eqI)
  show "\<bar>sint x smod sint y\<bar> < \<bar>sint y\<bar>" "- (2 ^ 31) \<le> sint x smod sint y" "sint x smod sint y < 2 ^ 31"
    using y0 smod_int_range [of "sint y" "sint x"] sint32_bounds [of y] by auto
  have "0 \<le> \<bar>sint x\<bar> mod \<bar>sint y\<bar>" using y0 by simp
  then have "\<bar>sint x\<bar> mod \<bar>sint y\<bar> = 0 \<or> sgn (\<bar>sint x\<bar> mod \<bar>sint y\<bar>) = 1" by (simp only: sgn_if) auto
  then show "sint x smod sint y = 0 \<or> sgn (sint x smod sint y) = sgn (sint x)"
    unfolding signed_modulo_int_def sgn_mult sgn_sgn by auto
qed

text \<open>C18: the instructions for addition, subtraction, multiplication and negation of integers store the exact
  result, left operand first, and are undefined when it is no signed 32-bit integer; those for division and
  remainder store the truncated quotient and the remainder with the sign of the dividend, and are undefined for
  a zero divisor and for the one quotient that overflows.\<close>

theorem integer_arithmetic:
  fixes x y :: u32
  assumes "mem s pc = Some op" "loadT TInt h s (pc + 1) = Some (ucast x, pc1)" "loadT TInt h s pc1 = Some (ucast y, pc2)"
  defines "put i pc' \<equiv> (if - (2 ^ 31) \<le> i \<and> i < 2 ^ 31
      then map_option (\<lambda>(s', pc'). Next s' pc') (storeT TInt (ucast (word_of_int i :: u32)) h s pc') else None)"
  shows "(op = 24 \<longrightarrow> exec_instr h s pc = put (sint x + sint y) pc2)
    \<and> (op = 25 \<longrightarrow> exec_instr h s pc = put (sint x - sint y) pc2)
    \<and> (op = 26 \<longrightarrow> exec_instr h s pc = put (sint x * sint y) pc2)
    \<and> (op = 28 \<longrightarrow> exec_instr h s pc = put (- sint x) pc1)
    \<and> (op \<in> {27, 29} \<and> y = 0 \<longrightarrow> exec_instr h s pc = None)
    \<and> (y \<noteq> 0 \<longrightarrow> (\<exists>q r. sint x = q * sint y + r \<and> \<bar>r\<bar> < \<bar>sint y\<bar> \<and> (r = 0 \<or> sgn r = sgn (sint x))
        \<and> (op = 27 \<longrightarrow> exec_instr h s pc = put q pc2)
        \<and> (op = 29 \<longrightarrow> exec_instr h s pc = (if x = 0x80000000 \<and> y = - 1 then None else put r pc2))))"
proof -
  have ops: "map_of opcode_table 24 = Some (DYADIC Add TInt)" "map_of opcode_table 25 = Some (DYADIC Sub TInt)"
    "map_of opcode_table 26 = Some (DYADIC Mul TInt)" "map_of opcode_table 27 = Some (DYADIC Div TInt)"
    "map_of opcode_table 28 = Some (MONADIC Neg TInt)" "map_of opcode_table 29 = Some (DYADIC Mod TInt)" by code_simp+
  have put: "Option.bind (int_result i) (\<lambda>v. Option.bind (storeT TInt v h s pc') (\<lambda>(s', pc'). Some (Next s' pc'))) = put i pc'" for i pc'
    by (auto simp: put_def int_result_def map_option_case split: option.splits)
  have go: "exec_instr h s pc = Option.bind (int_dyadic d x y) (\<lambda>v. Option.bind (storeT TInt v h s pc2) (\<lambda>(s', pc'). Some (Next s' pc')))"
    if "map_of opcode_table op = Some (DYADIC d TInt)" for d
    using assms(1-3) that by (simp add: exec_fetch exec_opcode_def execDyadic_def dyadic_def as_int_ucast)
  have neg: "exec_instr h s pc = put (- sint x) pc1" if "op = 28"
    unfolding put [symmetric]
    using assms(1,2) that ops(5) by (simp add: exec_fetch exec_opcode_def execMonadic_def monadic_def as_int_ucast)
  have "op = 27 \<Longrightarrow> y \<noteq> 0 \<Longrightarrow> exec_instr h s pc = put (sint x sdiv sint y) pc2"
    using go [of Div] ops(4) put by (simp add: int_dyadic_def)
  moreover have "op = 29 \<Longrightarrow> y \<noteq> 0 \<Longrightarrow>
      exec_instr h s pc = (if x = 0x80000000 \<and> y = - 1 then None else put (sint x smod sint y) pc2)"
    using go [of Mod] ops(6) put quotient_overflow [of y x] by (auto simp: int_dyadic_def)
  moreover have "sint x = (sint x sdiv sint y) * sint y + sint x smod sint y" by (simp add: sdiv_mult_smod_eq)
  ultimately have "y \<noteq> 0 \<longrightarrow> (\<exists>q r. sint x = q * sint y + r \<and> \<bar>r\<bar> < \<bar>sint y\<bar> \<and> (r = 0 \<or> sgn r = sgn (sint x))
        \<and> (op = 27 \<longrightarrow> exec_instr h s pc = put q pc2)
        \<and> (op = 29 \<longrightarrow> exec_instr h s pc = (if x = 0x80000000 \<and> y = - 1 then None else put r pc2)))"
    using remainder_spec [of y x] by blast
  then show ?thesis
    using go ops(1-4,6) put neg by (auto simp: int_dyadic_def)
qed

theorem integer_arithmetic_witness:
  "exec_instr zero_host (zero_machine (flash 0x100 [27, 0x19, 2, 0xa9])) 0x100
     = Some (Next (zero_machine (flash 0x100 [27, 0x19, 2, 0xa9])\<lparr>rInt := - 3\<rparr>) 0x104)"
proof -
  let ?s = "zero_machine (flash 0x100 [27, 0x19, 2, 0xa9])"
  have m: "mem ?s 0x100 = Some 27" by code_simp
  have x: "loadT TInt zero_host ?s (0x100 + 1) = Some (ucast (- 7 :: u32), 0x102)" by code_simp
  have y: "loadT TInt zero_host ?s 0x102 = Some (ucast (2 :: u32), 0x103)" by code_simp
  have v: "sint (- 7 :: u32) = - 7" "sint (2 :: u32) = 2" by simp_all
  obtain q r where q: "- 7 = q * 2 + r" "\<bar>r\<bar> < (2 :: int)" "r = 0 \<or> sgn r = sgn (- 7)"
    "exec_instr zero_host ?s 0x100 = (if - (2 ^ 31) \<le> q \<and> q < 2 ^ 31
      then map_option (\<lambda>(s', pc'). Next s' pc') (storeT TInt (ucast (word_of_int q :: u32)) zero_host ?s 0x103) else None)"
    using integer_arithmetic [OF m x y] unfolding v by auto
  have "q = - 3" using q(1-3) by (auto simp: sgn_if split: if_splits)
  moreover have "storeT TInt (ucast (word_of_int (- 3) :: u32)) zero_host ?s 0x103 = Some (?s\<lparr>rInt := - 3\<rparr>, 0x104)" by code_simp
  ultimately show ?thesis using q(4) by simp
qed

lemma read_n_span: "read_n n m a = Some bs \<Longrightarrow> span a n \<subseteq> dom m"
  by (subst read_n_defined [symmetric]) simp

lemma c_string_iff:
  "c_string m a = Some cs \<longleftrightarrow> read_n (length cs + 1) m a = Some (cs @ [0]) \<and> 0 \<notin> set cs"
proof (induction cs arbitrary: a)
  case Nil
  then show ?case by (subst c_string.simps) (auto simp: bind_simps)
next
  case (Cons c cs)
  show ?case by (subst c_string.simps) (use Cons [of "a + 1"] in \<open>auto simp: bind_simps\<close>)
qed

text \<open>The length instruction stores the number of characters before the first zero byte of the
  string its operand points to, whatever that string is, and the scan ends exactly on the strings
  that have such a byte.\<close>

theorem string_length:
  assumes "mem s pc = Some 133" "loadT TPtr h s (pc + 1) = Some (p, pc1)"
    and "read_n (length cs + 1) (mem s) (ucast p) = Some (cs @ [0])" "0 \<notin> set cs"
  shows "c_string (mem s) (ucast p) = Some cs
    \<and> exec_instr h s pc = map_option (\<lambda>(s, pc). Next s pc) (storeT TInt (of_nat (length cs)) h s pc1)"
proof -
  have "c_string (mem s) (ucast p) = Some cs" using assms(3,4) by (simp add: c_string_iff)
  with assms(1,2) show ?thesis
    by (auto simp: exec_fetch opcode_table_defs exec_opcode_defs split: Option.bind_splits)
qed

theorem string_length_witness:
  "c_string (mem (zero_machine (flash 0x100 [133, 0xe2, 6, 1, 0, 0, 72, 105, 0]))) 0x106 = Some [72, 105]"
proof -
  let ?s = "zero_machine (flash 0x100 [133, 0xe2, 6, 1, 0, 0, 72, 105, 0])"
  have "mem ?s 0x100 = Some 133" by code_simp
  moreover have "loadT TPtr zero_host ?s (0x100 + 1) = Some (0x106, 0x106)" by code_simp
  moreover have "read_n (length [72, 105 :: byte] + 1) (mem ?s) (ucast (0x106 :: u64)) = Some ([72, 105] @ [0])"
    by code_simp
  moreover have "(0 :: byte) \<notin> set [72, 105]" by simp
  ultimately show ?thesis using string_length [of ?s "0x100" zero_host "0x106" "0x106" "[72, 105]"] by simp
qed

text \<open>C19: squeezing the stack moves the slice of the given size as a whole, also when source and
  destination overlap: afterwards the destination holds what the source held before, no other
  byte of the memory has changed, and neither have the registers.\<close>

theorem squeeze_moves_slice:
  assumes "mem s pc = Some 179" "fetchVLI (mem s) (pc + 1) = Some (from, pc1)"
    and "fetchVLI (mem s) pc1 = Some (to, pc2)" "fetchVLU (mem s) pc2 = Some (n, pc3)"
    and "span (sp s + from) (unat n) \<subseteq> dom (mem s)" "span (sp s + to) (unat n) \<subseteq> dom (mem s)"
  shows "\<exists>m. exec_instr h s pc = Some (Next (s\<lparr>mem := m\<rparr>) pc3)
    \<and> read_n (unat n) m (sp s + to) = read_n (unat n) (mem s) (sp s + from)
    \<and> (\<forall>a. a \<notin> span (sp s + to) (unat n) \<longrightarrow> m a = mem s a)"
proof -
  obtain bs where bs: "read_n (unat n) (mem s) (sp s + from) = Some bs"
    using assms(5) read_n_defined by fastforce
  moreover have "length bs = unat n" using bs by (rule read_n_length)
  ultimately obtain m where m: "write_n bs (sp s + to) (mem s) = Some m"
    using assms(6) write_n_defined by fastforce
  then have mv: "mem_move (sp s + to) (sp s + from) n s = Some (s\<lparr>mem := m\<rparr>)"
    using bs by (simp add: mem_move_def)
  moreover have "exec_instr h s pc = Some (Next (s\<lparr>mem := m\<rparr>) pc3)"
    using assms(1-4) mv by (simp add: exec_fetch opcode_table_defs exec_opcode_defs)
  ultimately show ?thesis using mem_move_spec [OF mv] by (intro exI [of _ m]) simp
qed

theorem squeeze_moves_slice_witness:
  "\<exists>s m. s = zero_machine (flash 0x100 [1, 2, 3, 4, 5, 6, 179, 0, 2, 4])\<lparr>sp := 0x100\<rparr>
   \<and> exec_instr zero_host s 0x106 = Some (Next (s\<lparr>mem := m\<rparr>) 0x10a)
   \<and> read_n (unat (4::u32)) m (sp s + 2) = Some [1, 2, 3, 4]"
proof -
  define s where "s = zero_machine (flash 0x100 [1, 2, 3, 4, 5, 6, 179, 0, 2, 4])\<lparr>sp := 0x100\<rparr>"
  have "mem s 0x106 = Some 179" unfolding s_def by code_simp
  moreover have "fetchVLI (mem s) (0x106 + 1) = Some (0, 0x108)" unfolding s_def by code_simp
  moreover have "fetchVLI (mem s) 0x108 = Some (2, 0x109)" unfolding s_def by code_simp
  moreover have "fetchVLU (mem s) 0x109 = Some (4, 0x10a)" unfolding s_def by code_simp
  moreover have u: "unat (4::u32) = Suc (Suc (Suc (Suc 0)))" by simp
  have r: "read_n (unat (4::u32)) (mem s) (sp s + 0) = Some [1, 2, 3, 4]" unfolding s_def u by code_simp
  then have "span (sp s + 0) (unat (4::u32)) \<subseteq> dom (mem s)" by (rule read_n_span)
  moreover have "read_n (unat (4::u32)) (mem s) (sp s + 2) = Some [3, 4, 5, 6]" unfolding s_def u by code_simp
  then have "span (sp s + 2) (unat (4::u32)) \<subseteq> dom (mem s)" by (rule read_n_span)
  ultimately obtain m where "exec_instr zero_host s 0x106 = Some (Next (s\<lparr>mem := m\<rparr>) 0x10a)"
    "read_n (unat (4::u32)) m (sp s + 2) = Some [1, 2, 3, 4]"
    using squeeze_moves_slice [of s "0x106" 0 "0x108" 2 "0x109" 4 "0x10a" zero_host] r by metis
  then show ?thesis using s_def by blast
qed

text \<open>C16: updating a cell with its value makes the destination a copy of the source, tag word and
  body, when the value fits, and makes an existing indirection point at the source when it does
  not; nothing outside the written bytes changes. Only a larger value over a cell that is no
  indirection yet asks for a new cell, and then with the machine untouched.\<close>

theorem update_cell:
  assumes "mem s pc = Some 165" "loadT TPtr h s (pc + 1) = Some (src, pc1)" "loadT TPtr h s pc1 = Some (dst, pc2)"
    and "cell_tag s (ucast src) = Some src_ci" "ci_size s src_ci = Some n"
    and "cell_tag s (ucast dst) = Some dst_ci" "ci_size s dst_ci = Some k"
    and "exec_instr h s pc = Some out"
  shows "if n \<le> 8 \<or> n \<le> k then
      \<exists>m. out = Next (s\<lparr>mem := m\<rparr>) pc2 \<and> read_n (unat (n + 4)) m (ucast dst) = read_n (unat (n + 4)) (mem s) (ucast src)
        \<and> (\<forall>a. a \<notin> span (ucast dst) (unat (n + 4)) \<longrightarrow> m a = mem s a)
    else if dst_ci = indirectionCellInfo h then
      \<exists>m. out = Next (s\<lparr>mem := m\<rparr>) pc2 \<and> load_n 4 m (ucast dst + 4) = Some (take_bit 32 src)
        \<and> (\<forall>a. a \<notin> span (ucast dst + 4) 4 \<longrightarrow> m a = mem s a)
    else out = Service 165 s (pc + 1)"
proof -
  have e: "execUPD h s (pc + 1) = Some out"
    using assms(1,8) by (simp add: exec_fetch opcode_table_defs exec_opcode_defs)
  show ?thesis
  proof (cases "n \<le> 8 \<or> n \<le> k")
    case True
    with e assms(2-7) obtain s' where mv: "mem_move (ucast dst) (ucast src) (n + 4) s = Some s'" "out = Next s' pc2"
      by (auto simp: execUPD_def mem_copy_def bind_simps split: if_splits)
    show ?thesis using True mem_move_spec [OF mv(1)] mv(2) by (auto intro!: exI [of _ "mem s'"])
  next
    case False
    show ?thesis
    proof (cases "dst_ci = indirectionCellInfo h")
      case True
      with False e assms(2-7) obtain s' where st: "store_mem TPtr src (ucast dst + 4) s = Some s'" "out = Next s' pc2"
        by (auto simp: execUPD_def bind_simps)
      then obtain m where m: "store_n 4 src (ucast dst + 4) (mem s) = Some m" "s' = s\<lparr>mem := m\<rparr>"
        by (auto simp: store_mem_def)
      then show ?thesis
        using False True st load_after_store [OF m(1)] write_n_outside [OF m(1) [unfolded store_n_def]]
        by (auto intro!: exI [of _ m])
    next
      case not_ind: False
      with False e assms(2-7) show ?thesis by (simp add: execUPD_def)
    qed
  qed
qed

theorem update_cell_witness:
  "\<exists>s m. s = zero_machine (flash 0x100 [165, 0xe2, 0xc, 1, 0, 0, 0xe2, 0x1c, 1, 0, 0, 0,
       0x24, 1, 0, 0, 1, 2, 3, 4, 5, 6, 7, 8, 9, 10, 11, 12, 0x2c, 1, 0, 0, 0, 0, 0, 0,
       0, 0, 0, 0, 12, 0, 0, 0, 0, 0, 0, 0, 8, 0, 0, 0])
   \<and> exec_instr (zero_host\<lparr>indirectionCellInfo := 0x12c\<rparr>) s 0x100 = Some (Next (s\<lparr>mem := m\<rparr>) 0x10b)
   \<and> load_n 4 m (ucast (0x11c :: u64) + 4) = Some 0x10c"
proof -
  define s where "s = zero_machine (flash 0x100 [165, 0xe2, 0xc, 1, 0, 0, 0xe2, 0x1c, 1, 0, 0, 0,
       0x24, 1, 0, 0, 1, 2, 3, 4, 5, 6, 7, 8, 9, 10, 11, 12, 0x2c, 1, 0, 0, 0, 0, 0, 0,
       0, 0, 0, 0, 12, 0, 0, 0, 0, 0, 0, 0, 8, 0, 0, 0])"
  let ?h = "zero_host\<lparr>indirectionCellInfo := 0x12c\<rparr>"
  have "mem s 0x100 = Some 165" unfolding s_def by code_simp
  moreover have "loadT TPtr ?h s (0x100 + 1) = Some (0x10c, 0x106)" unfolding s_def by code_simp
  moreover have "loadT TPtr ?h s 0x106 = Some (0x11c, 0x10b)" unfolding s_def by code_simp
  moreover have "cell_tag s (ucast (0x10c :: u64)) = Some 0x124" unfolding s_def by code_simp
  moreover have "ci_size s 0x124 = Some 12" unfolding s_def by code_simp
  moreover have "cell_tag s (ucast (0x11c :: u64)) = Some 0x12c" unfolding s_def by code_simp
  moreover have "ci_size s 0x12c = Some 8" unfolding s_def by code_simp
  moreover have "exec_instr ?h s 0x100 \<noteq> None" unfolding s_def by code_simp
  then obtain out where "exec_instr ?h s 0x100 = Some out" by blast
  ultimately obtain m where "exec_instr ?h s 0x100 = Some (Next (s\<lparr>mem := m\<rparr>) 0x10b)"
    "load_n 4 m (ucast (0x11c :: u64) + 4) = Some 0x10c"
    using update_cell [of s "0x100" ?h "0x10c" "0x106" "0x11c" "0x10b" "0x124" 12 "0x12c" 8 out] by auto
  then show ?thesis using s_def by blast
qed

end
