(* ===== verification/Operators.thy ===== *)
theory Operators
  imports Exec
begin


text \<open>
  The choice of opcodes: \<open>Operator::byteCode\<close> and \<open>Operator::branchByteCode\<close> of
  API/ivory/compiler/byteCode.cpp, with the operators and operand types of class Operator
  (header/ivory/compiler/code.h).

  Both functions are a switch over the operator whose cases are switches over the type. The
  \<open>default: break\<close> of an inner switch leaves the inner switch only, so an operator with a type
  it does not list falls through to the operators below it. The model keeps that: a switch is
  the list of its cases in the order of the source, and selecting an operator starts at its
  label and runs on.
\<close>

subsection \<open>Operators and operand types\<close>

datatype (plugins only: code size) op_kind = UNKNOWN_OP | FROM_THUNK_OP | CELL_INFO_OF_OP | MAP_OP | EXTRACT_OP | INSERT_OP
  | MAP_CLOSURE_OP | EXTRACT_FREE_VARS_OP | INSERT_FREE_VARS_OP | UPDATE_OP
  | LT_OP | LTEQ_OP | EQ_OP | NEQ_OP | GTEQ_OP | GT_OP
  | LTZ_OP | LTEQZ_OP | EQZ_OP | NEQZ_OP | GTEQZ_OP | GTZ_OP | NEG_OP
  | ADD_OP | SUB_OP | MUL_OP | DIV_OP | MOD_OP
  | FROM_INT_OP | FROM_FLOAT_OP | FROM_DOUBLE_OP | FROM_STRING_OP | NOT_OP
  | AND_OP | OR_OP | XOR_OP | L_SHIFT_OP | R_SHIFT_OP | SPECIAL_EXPR_OP | ENTER_SPECIAL_EXPR_OP
  | TYPE_OF_OP | CAST_PTR_OP | ENV_OF_OP | SET_ENV_OP | FROM_PLAIN_OP | SIZE_OF_OP | OBJECT_TYPE_OP
  | TAG_OF_OP | CAST_TAG_OP | CONSTRUCTOR_STRING_OP | CONSTRUCT_FROM_NAME_OP
  | CONSTRUCT_FROM_STRING_OP | EQ_NULL_OP | NEQ_NULL_OP | LENGTH_STRING_OP | GET_AT_STRING_OP
  | PUT_AT_STRING_OP | CONS_OP | ALLOC_PTR_ARRAY_OP | COPY_PTR_ARRAY_OP | GET_AT_PTR_ARRAY_OP
  | PUT_AT_PTR_ARRAY_OP | GET_AT_PLAIN_PTR_ARRAY_OP | PUT_AT_PLAIN_PTR_ARRAY_OP | REV_REFS_OP
  | ASSIGN_AT_OP | MARK_FREE_VARS_GC_OP | MARK_PTR_GC_OP | NOT_MARK_PTR_GC_OP
  | MARK_EXPR_PTR_GC_OP | NOT_MARK_EXPR_PTR_GC_OP | MARK_EXPR_GC_OP | MARK_CELL_GC_OP
  | MARK_STRING_GC_OP | ERROR_OP | TRACE_OP

datatype (plugins only: code size) op_type = OP_TYPE_BITS | OP_TYPE_BOOLEAN | OP_TYPE_BYTE | OP_TYPE_CELL_INFO | OP_TYPE_CHAR
  | OP_TYPE_CLOSURE | OP_TYPE_DOUBLE | OP_TYPE_ENV | OP_TYPE_EXPR | OP_TYPE_FLOAT | OP_TYPE_INT
  | OP_TYPE_NAME | OP_TYPE_LIST | OP_TYPE_POLY | OP_TYPE_PTR | OP_TYPE_PTR_ARRAY | OP_TYPE_REF
  | OP_TYPE_REFLIST | OP_TYPE_STRING | OP_TYPE_TAG | OP_TYPE_TYPE | OP_TYPE_UNKNOWN | OP_TYPE_UTC
  | OP_TYPE_VOID

subsection \<open>Switches that fall through\<close>

text \<open>
  The body of a case: it returns an opcode, or one of two depending on whether the operand is a
  constant, or switches over the type and otherwise falls through.
\<close>

datatype arm = Ret byte | RetConst byte byte | ByType "(op_type \<times> byte \<times> byte) list"

fun run_switch :: "(op_kind \<times> arm) list \<Rightarrow> op_type \<Rightarrow> bool \<Rightarrow> byte" where
  "run_switch [] ty constOperand = 255"
| "run_switch ((_, Ret b) # rest) ty constOperand = b"
| "run_switch ((_, RetConst b c) # rest) ty constOperand = (if \<not> constOperand then b else c)"
| "run_switch ((_, ByType tab) # rest) ty constOperand =
     (case map_of tab ty of
        Some (b, c) \<Rightarrow> if \<not> constOperand then b else c
      | None \<Rightarrow> run_switch rest ty constOperand)"

definition at_label :: "op_kind \<Rightarrow> (op_kind \<times> arm) list \<Rightarrow> (op_kind \<times> arm) list" where
  "at_label k = dropWhile (\<lambda>c. fst c \<noteq> k)"

abbreviation by_type :: "(op_type \<times> byte) list \<Rightarrow> arm" where
  "by_type tab \<equiv> ByType (List.map (\<lambda>(ty, b). (ty, b, b)) tab)"

definition object_cases :: "(op_kind \<times> arm) list" where
  "object_cases =
    [(FROM_THUNK_OP, Ret 159), (ENTER_SPECIAL_EXPR_OP, Ret 161), (UPDATE_OP, Ret 165),
     (CELL_INFO_OF_OP, Ret 153), (SIZE_OF_OP, Ret 196), (TAG_OF_OP, Ret 101),
     (OBJECT_TYPE_OP, Ret 166), (SET_ENV_OP, Ret 194),
     (MAP_OP, ByType [(OP_TYPE_NAME, 188, 188), (OP_TYPE_TYPE, 189, 189),
          (OP_TYPE_CLOSURE, 190, 190), (OP_TYPE_EXPR, 191, 191), (OP_TYPE_STRING, 192, 193)])]"

definition arith_cases :: "(op_kind \<times> arm) list" where
  "arith_cases =
    [(ADD_OP, by_type [(OP_TYPE_INT, 24), (OP_TYPE_FLOAT, 59), (OP_TYPE_DOUBLE, 81)]),
     (SUB_OP, by_type [(OP_TYPE_INT, 25), (OP_TYPE_FLOAT, 60), (OP_TYPE_DOUBLE, 82),
          (OP_TYPE_UTC, 187)]),
     (MUL_OP, by_type [(OP_TYPE_INT, 26), (OP_TYPE_FLOAT, 61), (OP_TYPE_DOUBLE, 83)]),
     (DIV_OP, by_type [(OP_TYPE_INT, 27), (OP_TYPE_FLOAT, 62), (OP_TYPE_DOUBLE, 84)]),
     (MOD_OP, by_type [(OP_TYPE_INT, 29)]),
     (NEG_OP, by_type [(OP_TYPE_INT, 28), (OP_TYPE_FLOAT, 58), (OP_TYPE_DOUBLE, 80)]),
     (FROM_INT_OP, by_type [(OP_TYPE_BYTE, 216), (OP_TYPE_BITS, 75), (OP_TYPE_FLOAT, 76),
          (OP_TYPE_DOUBLE, 97)]), (FROM_DOUBLE_OP, by_type [(OP_TYPE_FLOAT, 77)]),
     (FROM_STRING_OP, ByType [(OP_TYPE_INT, 54, 55), (OP_TYPE_DOUBLE, 99, 100)]),
     (AND_OP, by_type [(OP_TYPE_BITS, 30)]), (OR_OP, by_type [(OP_TYPE_BITS, 31)]),
     (XOR_OP, by_type [(OP_TYPE_BITS, 32)]), (L_SHIFT_OP, by_type [(OP_TYPE_BITS, 33)]),
     (R_SHIFT_OP, by_type [(OP_TYPE_BITS, 34)]), (NOT_OP, by_type [(OP_TYPE_BITS, 35)])]"

definition relation_cases :: "(op_kind \<times> arm) list" where
  "relation_cases =
    [(LT_OP, by_type [(OP_TYPE_INT, 36), (OP_TYPE_FLOAT, 63), (OP_TYPE_DOUBLE, 85),
          (OP_TYPE_TAG, 103), (OP_TYPE_CHAR, 119)]),
     (LTEQ_OP, by_type [(OP_TYPE_INT, 37), (OP_TYPE_FLOAT, 64), (OP_TYPE_DOUBLE, 86),
          (OP_TYPE_TAG, 104), (OP_TYPE_CHAR, 120)]),
     (EQ_OP, by_type [(OP_TYPE_NAME, 11), (OP_TYPE_TYPE, 17), (OP_TYPE_INT, 38),
          (OP_TYPE_FLOAT, 65), (OP_TYPE_DOUBLE, 87), (OP_TYPE_TAG, 105), (OP_TYPE_CHAR, 121),
          (OP_TYPE_PTR, 7)]),
     (NEQ_OP, by_type [(OP_TYPE_NAME, 12), (OP_TYPE_TYPE, 18), (OP_TYPE_INT, 39),
          (OP_TYPE_FLOAT, 66), (OP_TYPE_DOUBLE, 88), (OP_TYPE_TAG, 106), (OP_TYPE_CHAR, 122),
          (OP_TYPE_PTR, 8)]),
     (GTEQ_OP, by_type [(OP_TYPE_INT, 40), (OP_TYPE_FLOAT, 67), (OP_TYPE_DOUBLE, 89),
          (OP_TYPE_TAG, 107), (OP_TYPE_CHAR, 123)]),
     (GT_OP, by_type [(OP_TYPE_INT, 41), (OP_TYPE_FLOAT, 68), (OP_TYPE_DOUBLE, 90),
          (OP_TYPE_TAG, 108), (OP_TYPE_CHAR, 124)])]"

definition system_cases :: "(op_kind \<times> arm) list" where
  "system_cases =
    [(LENGTH_STRING_OP, RetConst 133 134), (GET_AT_STRING_OP, RetConst 135 136),
     (PUT_AT_STRING_OP, RetConst 137 255), (ALLOC_PTR_ARRAY_OP, Ret 158),
     (COPY_PTR_ARRAY_OP, Ret 197), (GET_AT_PTR_ARRAY_OP, ByType []),
     (GET_AT_PLAIN_PTR_ARRAY_OP, Ret 198), (PUT_AT_PTR_ARRAY_OP, ByType []),
     (PUT_AT_PLAIN_PTR_ARRAY_OP, Ret 199), (REV_REFS_OP, Ret 180), (MARK_PTR_GC_OP, Ret 200),
     (MARK_STRING_GC_OP, Ret 206),
     (EXTRACT_OP, by_type [(OP_TYPE_CLOSURE, 207), (OP_TYPE_EXPR, 209)]),
     (INSERT_OP, by_type [(OP_TYPE_CLOSURE, 208), (OP_TYPE_EXPR, 210)]),
     (ERROR_OP, RetConst 183 185), (TRACE_OP, RetConst 184 186)]"

definition byteCode_cases :: "(op_kind \<times> arm) list" where
  "byteCode_cases = object_cases @ arith_cases @ relation_cases @ system_cases"

definition byteCode :: "op_kind \<Rightarrow> op_type \<Rightarrow> bool \<Rightarrow> byte" where
  "byteCode kind ty constOperand = run_switch (at_label kind byteCode_cases) ty constOperand"

definition branchByteCode_cases :: "(op_kind \<times> arm) list" where
  "branchByteCode_cases =
    [(LT_OP, by_type [(OP_TYPE_INT, 42), (OP_TYPE_FLOAT, 69), (OP_TYPE_DOUBLE, 91),
        (OP_TYPE_TAG, 109), (OP_TYPE_CHAR, 125)]),
     (LTEQ_OP, by_type [(OP_TYPE_INT, 43), (OP_TYPE_DOUBLE, 92), (OP_TYPE_FLOAT, 70),
        (OP_TYPE_CHAR, 126)]),
     (EQ_OP, by_type [(OP_TYPE_PTR, 5), (OP_TYPE_NAME, 13), (OP_TYPE_TYPE, 19), (OP_TYPE_INT, 44),
        (OP_TYPE_DOUBLE, 93), (OP_TYPE_FLOAT, 71), (OP_TYPE_TAG, 111), (OP_TYPE_CHAR, 127)]),
     (NEQ_OP, by_type [(OP_TYPE_PTR, 6), (OP_TYPE_NAME, 14), (OP_TYPE_TYPE, 20),
        (OP_TYPE_INT, 45), (OP_TYPE_FLOAT, 72), (OP_TYPE_DOUBLE, 94), (OP_TYPE_TAG, 112),
        (OP_TYPE_CHAR, 128)]),
     (GTEQ_OP, by_type [(OP_TYPE_INT, 46), (OP_TYPE_DOUBLE, 95), (OP_TYPE_FLOAT, 73),
        (OP_TYPE_TAG, 113), (OP_TYPE_CHAR, 129)]),
     (GT_OP, by_type [(OP_TYPE_INT, 47), (OP_TYPE_FLOAT, 74), (OP_TYPE_DOUBLE, 96),
        (OP_TYPE_TAG, 114), (OP_TYPE_CHAR, 130)]),
     (EQ_NULL_OP, Ret 181), (NEQ_NULL_OP, Ret 182),
     (SPECIAL_EXPR_OP, by_type [(OP_TYPE_EXPR, 170)]), (MARK_PTR_GC_OP, Ret 201),
     (NOT_MARK_PTR_GC_OP, Ret 202), (MARK_EXPR_PTR_GC_OP, Ret 203),
     (NOT_MARK_EXPR_PTR_GC_OP, Ret 204)]"

definition branchByteCode :: "op_kind \<Rightarrow> op_type \<Rightarrow> byte" where
  "branchByteCode kind ty = run_switch (at_label kind branchByteCode_cases) ty False"

subsection \<open>Primitives\<close>

text \<open>The table of \<open>Operator::Operator(const char* )\<close>: the first entry of the name counts.\<close>

definition prim_table :: "(string \<times> op_kind \<times> op_type \<times> nat) list" where
  "prim_table =
    [(''fromThunk'', FROM_THUNK_OP, OP_TYPE_EXPR, 1), (''update'', UPDATE_OP, OP_TYPE_CLOSURE, 1),
     (''typeOf'', TYPE_OF_OP, OP_TYPE_POLY, 1), (''castPtr'', CAST_PTR_OP, OP_TYPE_PTR, 1),
     (''envOf'', ENV_OF_OP, OP_TYPE_POLY, 1), (''setEnv'', SET_ENV_OP, OP_TYPE_VOID, 1),
     (''fromPlain'', FROM_PLAIN_OP, OP_TYPE_POLY, 2), (''sizeOf'', SIZE_OF_OP, OP_TYPE_TYPE, 1),
     (''objectType'', OBJECT_TYPE_OP, OP_TYPE_REF, 1),
     (''cellInfoOf'', CELL_INFO_OF_OP, OP_TYPE_CELL_INFO, 1),
     (''tagOf'', TAG_OF_OP, OP_TYPE_TAG, 1), (''castTag'', CAST_TAG_OP, OP_TYPE_POLY, 1),
     (''constructorString'', CONSTRUCTOR_STRING_OP, OP_TYPE_STRING, 1),
     (''constructFromName'', CONSTRUCT_FROM_NAME_OP, OP_TYPE_POLY, 1),
     (''constructFromString'', CONSTRUCT_FROM_STRING_OP, OP_TYPE_POLY, 1),
     (''mapClosure'', MAP_CLOSURE_OP, OP_TYPE_POLY, 1),
     (''extractFreeVars'', EXTRACT_FREE_VARS_OP, OP_TYPE_POLY, 2),
     (''insertFreeVars'', INSERT_FREE_VARS_OP, OP_TYPE_POLY, 2),
     (''eqEnv'', EQ_OP, OP_TYPE_PTR, 2), (''neqEnv'', NEQ_OP, OP_TYPE_PTR, 2),
     (''mapName'', MAP_OP, OP_TYPE_NAME, 2), (''mapType'', MAP_OP, OP_TYPE_TYPE, 2),
     (''mapFn'', MAP_OP, OP_TYPE_CLOSURE, 2), (''mapThunk'', MAP_OP, OP_TYPE_CLOSURE, 2),
     (''mapExpr'', MAP_OP, OP_TYPE_EXPR, 2), (''mapString'', MAP_OP, OP_TYPE_STRING, 2),
     (''extractBinFn'', EXTRACT_OP, OP_TYPE_CLOSURE, 1),
     (''insertBinFn'', INSERT_OP, OP_TYPE_CLOSURE, 2),
     (''extractBinThunk'', EXTRACT_OP, OP_TYPE_CLOSURE, 1),
     (''insertBinThunk'', INSERT_OP, OP_TYPE_CLOSURE, 2),
     (''extractBinExpr'', EXTRACT_OP, OP_TYPE_EXPR, 1),
     (''insertBinExpr'', INSERT_OP, OP_TYPE_EXPR, 2), (''mapExpr'', MAP_OP, OP_TYPE_EXPR, 2),
     (''mapString'', MAP_OP, OP_TYPE_STRING, 2), (''eqName'', EQ_OP, OP_TYPE_NAME, 2),
     (''nEqName'', NEQ_OP, OP_TYPE_NAME, 2), (''eqType'', EQ_OP, OP_TYPE_TYPE, 2),
     (''nEqType'', NEQ_OP, OP_TYPE_TYPE, 2), (''eqTag'', EQ_OP, OP_TYPE_TAG, 2),
     (''negInt'', NEG_OP, OP_TYPE_INT, 1), (''addInt'', ADD_OP, OP_TYPE_INT, 2),
     (''subInt'', SUB_OP, OP_TYPE_INT, 2), (''mulInt'', MUL_OP, OP_TYPE_INT, 2),
     (''divInt'', DIV_OP, OP_TYPE_INT, 2), (''modInt'', MOD_OP, OP_TYPE_INT, 2),
     (''notBits'', NOT_OP, OP_TYPE_BITS, 1), (''andBits'', AND_OP, OP_TYPE_BITS, 2),
     (''orBits'', OR_OP, OP_TYPE_BITS, 2), (''xorBits'', XOR_OP, OP_TYPE_BITS, 2),
     (''lShiftBits'', L_SHIFT_OP, OP_TYPE_BITS, 2),
     (''rShiftBist32'', R_SHIFT_OP, OP_TYPE_BITS, 2), (''ltInt'', LT_OP, OP_TYPE_INT, 2),
     (''ltEqInt'', LTEQ_OP, OP_TYPE_INT, 2), (''eqInt'', EQ_OP, OP_TYPE_INT, 2),
     (''nEqInt'', NEQ_OP, OP_TYPE_INT, 2), (''neqInt'', NEQ_OP, OP_TYPE_INT, 2),
     (''gtEqInt'', GTEQ_OP, OP_TYPE_INT, 2), (''gtInt'', GT_OP, OP_TYPE_INT, 2),
     (''fromStringInt'', FROM_STRING_OP, OP_TYPE_INT, 1),
     (''negFloat'', NEG_OP, OP_TYPE_FLOAT, 1), (''addFloat'', ADD_OP, OP_TYPE_FLOAT, 2),
     (''subFloat'', SUB_OP, OP_TYPE_FLOAT, 2), (''mulFloat'', MUL_OP, OP_TYPE_FLOAT, 2),
     (''divFloat'', DIV_OP, OP_TYPE_FLOAT, 2), (''ltFloat'', LT_OP, OP_TYPE_FLOAT, 2),
     (''ltEqFloat'', LTEQ_OP, OP_TYPE_FLOAT, 2), (''eqFloat'', EQ_OP, OP_TYPE_FLOAT, 2),
     (''nEqFloat'', NEQ_OP, OP_TYPE_FLOAT, 2), (''neqFloat'', NEQ_OP, OP_TYPE_FLOAT, 2),
     (''gtEqFloat'', GTEQ_OP, OP_TYPE_FLOAT, 2), (''gtFloat'', GT_OP, OP_TYPE_FLOAT, 2),
     (''fromIntFloat'', FROM_INT_OP, OP_TYPE_FLOAT, 1),
     (''fromDoubleFloat'', FROM_DOUBLE_OP, OP_TYPE_FLOAT, 1),
     (''negDouble'', NEG_OP, OP_TYPE_DOUBLE, 1), (''addDouble'', ADD_OP, OP_TYPE_DOUBLE, 2),
     (''subDouble'', SUB_OP, OP_TYPE_DOUBLE, 2), (''mulDouble'', MUL_OP, OP_TYPE_DOUBLE, 2),
     (''divDouble'', DIV_OP, OP_TYPE_DOUBLE, 2), (''ltDouble'', LT_OP, OP_TYPE_DOUBLE, 2),
     (''ltEqDouble'', LTEQ_OP, OP_TYPE_DOUBLE, 2), (''eqDouble'', EQ_OP, OP_TYPE_DOUBLE, 2),
     (''nEqDouble'', NEQ_OP, OP_TYPE_DOUBLE, 2), (''neqDouble'', NEQ_OP, OP_TYPE_DOUBLE, 2),
     (''gtEqDouble'', GTEQ_OP, OP_TYPE_DOUBLE, 2), (''gtDouble'', GT_OP, OP_TYPE_DOUBLE, 2),
     (''fromIntByte'', FROM_INT_OP, OP_TYPE_BYTE, 1),
     (''fromIntBits'', FROM_INT_OP, OP_TYPE_BITS, 1),
     (''fromIntFloat'', FROM_INT_OP, OP_TYPE_FLOAT, 1),
     (''fromIntDouble'', FROM_INT_OP, OP_TYPE_DOUBLE, 1),
     (''fromFloatDouble'', FROM_FLOAT_OP, OP_TYPE_DOUBLE, 1),
     (''fromStringDouble'', FROM_STRING_OP, OP_TYPE_DOUBLE, 1),
     (''ltTAG'', LT_OP, OP_TYPE_TAG, 2), (''ltEqTAG'', LTEQ_OP, OP_TYPE_TAG, 2),
     (''eqTAG'', EQ_OP, OP_TYPE_TAG, 2), (''nEqTAG'', NEQ_OP, OP_TYPE_TAG, 2),
     (''neqTAG'', NEQ_OP, OP_TYPE_TAG, 2), (''gtEqTAG'', GTEQ_OP, OP_TYPE_TAG, 2),
     (''gtTAG'', GT_OP, OP_TYPE_TAG, 2), (''eqBool'', EQ_OP, OP_TYPE_TAG, 2),
     (''nEqBool'', NEQ_OP, OP_TYPE_TAG, 2), (''neqBool'', NEQ_OP, OP_TYPE_TAG, 2),
     (''ltChar'', LT_OP, OP_TYPE_CHAR, 2), (''ltEqChar'', LTEQ_OP, OP_TYPE_CHAR, 2),
     (''eqChar'', EQ_OP, OP_TYPE_CHAR, 2), (''nEqChar'', NEQ_OP, OP_TYPE_CHAR, 2),
     (''neqChar'', NEQ_OP, OP_TYPE_CHAR, 2), (''gtEqChar'', GTEQ_OP, OP_TYPE_CHAR, 2),
     (''gtChar'', GT_OP, OP_TYPE_CHAR, 2),
     (''lengthString'', LENGTH_STRING_OP, OP_TYPE_STRING, 1),
     (''getAtString'', GET_AT_STRING_OP, OP_TYPE_STRING, 2),
     (''putAtString'', PUT_AT_STRING_OP, OP_TYPE_STRING, 3), (''eqPtr'', EQ_OP, OP_TYPE_PTR, 2),
     (''neqPtr'', NEQ_OP, OP_TYPE_PTR, 2), (''eqPlainPtr'', EQ_OP, OP_TYPE_PTR, 2),
     (''ltUTC'', LT_OP, OP_TYPE_INT, 2), (''ltEqUTC'', LTEQ_OP, OP_TYPE_INT, 2),
     (''eqUTC'', EQ_OP, OP_TYPE_INT, 2), (''nEqUTC'', NEQ_OP, OP_TYPE_INT, 2),
     (''neqUTC'', NEQ_OP, OP_TYPE_INT, 2), (''gtEqUTC'', GTEQ_OP, OP_TYPE_INT, 2),
     (''gtUTC'', GT_OP, OP_TYPE_INT, 2),
     (''allocPtrArray'', ALLOC_PTR_ARRAY_OP, OP_TYPE_PTR_ARRAY, 1),
     (''copyPtrArray'', COPY_PTR_ARRAY_OP, OP_TYPE_PTR_ARRAY, 5),
     (''getAtPtrArray'', GET_AT_PTR_ARRAY_OP, OP_TYPE_PTR_ARRAY, 2),
     (''putAtPtrArray'', PUT_AT_PTR_ARRAY_OP, OP_TYPE_PTR_ARRAY, 3),
     (''getAtPlainPtrArray'', GET_AT_PLAIN_PTR_ARRAY_OP, OP_TYPE_PTR_ARRAY, 2),
     (''putAtPlainPtrArray'', PUT_AT_PLAIN_PTR_ARRAY_OP, OP_TYPE_PTR_ARRAY, 3),
     (''revRefs'', REV_REFS_OP, OP_TYPE_REFLIST, 1), (''timeDiff'', SUB_OP, OP_TYPE_UTC, 2),
     (''assignAtPrim'', ASSIGN_AT_OP, OP_TYPE_VOID, 2),
     (''markFreeVars_GC'', MARK_FREE_VARS_GC_OP, OP_TYPE_POLY, 1),
     (''markPtr_GC'', MARK_PTR_GC_OP, OP_TYPE_PTR, 1),
     (''markExprPtr_GC'', MARK_EXPR_PTR_GC_OP, OP_TYPE_EXPR, 1),
     (''markExpr_GC'', MARK_EXPR_GC_OP, OP_TYPE_EXPR, 1),
     (''markCell_GC'', MARK_CELL_GC_OP, OP_TYPE_CLOSURE, 1),
     (''markString_GC'', MARK_STRING_GC_OP, OP_TYPE_STRING, 1),
     (''error'', ERROR_OP, OP_TYPE_VOID, 1), (''trace'', TRACE_OP, OP_TYPE_VOID, 1)]"

definition operator_named :: "string option \<Rightarrow> op_kind \<times> op_type \<times> nat" where
  "operator_named fnStr = (case Option.bind fnStr (map_of prim_table) of
      Some e \<Rightarrow> e
    | None \<Rightarrow> (UNKNOWN_OP, OP_TYPE_UNKNOWN, 0))"

definition mapNeedsGCFrame :: "op_kind \<times> op_type \<times> nat \<Rightarrow> bool" where
  "mapNeedsGCFrame op = (case op of (kind, ty, _) \<Rightarrow>
     if kind \<noteq> MAP_OP then False
     else ty = OP_TYPE_CLOSURE \<or> ty = OP_TYPE_EXPR \<or> ty = OP_TYPE_STRING)"

definition mnemonics :: "(op_kind \<times> string) list" where
  "mnemonics =
    [(FROM_THUNK_OP, ''fromThunk''), (UPDATE_OP, ''update''), (MAP_CLOSURE_OP, ''mapClosure''),
     (MAP_OP, ''map''), (EXTRACT_FREE_VARS_OP, ''extractFreeVars''),
     (INSERT_FREE_VARS_OP, ''insertFreeVars''), (EXTRACT_OP, ''extract''),
     (INSERT_OP, ''insert''), (NOT_OP, ''not''), (AND_OP, ''and''), (OR_OP, ''or''),
     (XOR_OP, ''xor''), (L_SHIFT_OP, ''lShift''), (R_SHIFT_OP, ''rShift''), (LT_OP, ''lt''),
     (LTEQ_OP, ''lteq''), (EQ_OP, ''eq''), (NEQ_OP, ''neq''), (GTEQ_OP, ''gteq''),
     (GT_OP, ''gt''), (NEG_OP, ''negate''), (ADD_OP, ''add''), (SUB_OP, ''sub''),
     (MUL_OP, ''mul''), (DIV_OP, ''div''), (MOD_OP, ''mod''), (FROM_INT_OP, ''fromInt''),
     (FROM_DOUBLE_OP, ''fromDouble''), (CELL_INFO_OF_OP, ''cellInfoOf''),
     (TYPE_OF_OP, ''typeOf''), (CAST_PTR_OP, ''castPtr''), (SIZE_OF_OP, ''sizeOf''),
     (TAG_OF_OP, ''tagOf''), (CAST_TAG_OP, ''castTag''),
     (CONSTRUCTOR_STRING_OP, ''constructorString''),
     (CONSTRUCT_FROM_NAME_OP, ''constructFromName''),
     (CONSTRUCT_FROM_STRING_OP, ''constructFromString''), (ENV_OF_OP, ''envOf''),
     (FROM_PLAIN_OP, ''fromPlain''), (OBJECT_TYPE_OP, ''objectType''), (EQ_NULL_OP, ''eqNULL''),
     (NEQ_NULL_OP, ''neqNULL''), (CONS_OP, ''cons''), (LENGTH_STRING_OP, ''lengthString''),
     (GET_AT_STRING_OP, ''getAtString''), (PUT_AT_STRING_OP, ''putAtString''),
     (ALLOC_PTR_ARRAY_OP, ''allocPtrArray''), (COPY_PTR_ARRAY_OP, ''copyPtrArray''),
     (GET_AT_PTR_ARRAY_OP, ''getAtPtrArray''), (PUT_AT_PTR_ARRAY_OP, ''putAtPtrArray''),
     (GET_AT_PLAIN_PTR_ARRAY_OP, ''getAtPlainPtrArray''),
     (PUT_AT_PLAIN_PTR_ARRAY_OP, ''putAtPlainPtrArray''),
     (MARK_FREE_VARS_GC_OP, ''markFreeVars_GC''), (MARK_PTR_GC_OP, ''markPtr_GC''),
     (NOT_MARK_PTR_GC_OP, ''notMarkPtr_GC''), (MARK_EXPR_PTR_GC_OP, ''markExprPtr_GC''),
     (NOT_MARK_EXPR_PTR_GC_OP, ''notMarkExprPtr_GC''), (MARK_EXPR_GC_OP, ''markExpr_GC''),
     (MARK_CELL_GC_OP, ''markCell_GC''), (MARK_STRING_GC_OP, ''markString_GC''),
     (ASSIGN_AT_OP, ''assignAtPrim''), (ERROR_OP, ''error''), (TRACE_OP, ''trace''),
     (SET_ENV_OP, ''setEnv''), (SPECIAL_EXPR_OP, ''special''),
     (ENTER_SPECIAL_EXPR_OP, ''enterSpecial''), (REV_REFS_OP, ''revRefs'')]"

definition mnemonic :: "op_kind \<times> op_type \<times> nat \<Rightarrow> string" where
  "mnemonic op = (case map_of mnemonics (fst op) of Some str \<Rightarrow> str | None \<Rightarrow> ''??'')"

text \<open>\<open>Operator::inverse\<close>: the operator of the opposite condition, with the arity it is given there.\<close>

definition inverse_op :: "op_kind \<times> op_type \<times> nat \<Rightarrow> op_kind \<times> op_type \<times> nat" where
  "inverse_op op = (case op of (kind, ty, _) \<Rightarrow>
     (case kind of
        LT_OP \<Rightarrow> (GTEQ_OP, ty, 2) | LTEQ_OP \<Rightarrow> (GT_OP, ty, 2) | EQ_OP \<Rightarrow> (NEQ_OP, ty, 2)
      | NEQ_OP \<Rightarrow> (EQ_OP, ty, 2) | GTEQ_OP \<Rightarrow> (LT_OP, ty, 2) | GT_OP \<Rightarrow> (LTEQ_OP, ty, 2)
      | LTZ_OP \<Rightarrow> (GTEQZ_OP, ty, 1) | LTEQZ_OP \<Rightarrow> (GTZ_OP, ty, 1) | EQZ_OP \<Rightarrow> (NEQZ_OP, ty, 1)
      | NEQZ_OP \<Rightarrow> (EQZ_OP, ty, 1) | GTEQZ_OP \<Rightarrow> (LTZ_OP, ty, 1) | GTZ_OP \<Rightarrow> (LTEQZ_OP, ty, 1)
      | EQ_NULL_OP \<Rightarrow> (NEQ_NULL_OP, ty, 2) | NEQ_NULL_OP \<Rightarrow> (EQ_NULL_OP, ty, 2)
      | MARK_PTR_GC_OP \<Rightarrow> (NOT_MARK_PTR_GC_OP, ty, 1)
      | NOT_MARK_PTR_GC_OP \<Rightarrow> (MARK_PTR_GC_OP, ty, 1)
      | MARK_EXPR_PTR_GC_OP \<Rightarrow> (NOT_MARK_EXPR_PTR_GC_OP, ty, 1)
      | NOT_MARK_EXPR_PTR_GC_OP \<Rightarrow> (MARK_EXPR_PTR_GC_OP, ty, 1)
      | _ \<Rightarrow> (UNKNOWN_OP, OP_TYPE_UNKNOWN, 0)))"

subsection \<open>What an opcode should do\<close>

text \<open>The instruction that computes an operator at a type, as the interpreter names it.\<close>

definition op_ctype :: "op_type \<Rightarrow> ctype option" where
  "op_ctype ty = map_of [(OP_TYPE_BITS, TBits), (OP_TYPE_BYTE, TByte), (OP_TYPE_CHAR, TChar),
     (OP_TYPE_DOUBLE, TDouble), (OP_TYPE_FLOAT, TFloat), (OP_TYPE_INT, TInt), (OP_TYPE_PTR, TPtr),
     (OP_TYPE_TAG, TTag)] ty"

definition op_rel :: "op_kind \<Rightarrow> relop option" where
  "op_rel kind = map_of [(LT_OP, RLt), (LTEQ_OP, RLe), (EQ_OP, REq), (NEQ_OP, RNe), (GTEQ_OP, RGe),
     (GT_OP, RGt)] kind"

definition op_dyadic :: "op_kind \<Rightarrow> dyop option" where
  "op_dyadic kind = map_of [(ADD_OP, Add), (SUB_OP, Sub), (MUL_OP, Mul), (DIV_OP, Div), (MOD_OP, Mod),
     (AND_OP, BAnd), (OR_OP, BIor), (XOR_OP, BXor), (L_SHIFT_OP, Lsh), (R_SHIFT_OP, Rsh)] kind"

definition op_instr :: "op_kind \<Rightarrow> ctype \<Rightarrow> (instr \<times> nat) option" where
  "op_instr kind t = (case op_rel kind of
      Some r \<Rightarrow> Some (COMPARE r t, 2)
    | None \<Rightarrow> (case op_dyadic kind of
        Some d \<Rightarrow> Some (DYADIC d t, 2)
      | None \<Rightarrow> map_of [(NEG_OP, (MONADIC Neg t, 1)), (NOT_OP, (MONADIC Not t, 1)),
          (FROM_INT_OP, (CAST TInt t, 1)), (FROM_DOUBLE_OP, (CAST TDouble t, 1)),
          (FROM_FLOAT_OP, (CAST TFloat t, 1))] kind))"

lemma prim_table_instr:
  "list_all (\<lambda>(name, kind, ty, arity). case Option.bind (op_ctype ty) (op_instr kind) of
      None \<Rightarrow> True
    | Some (i, n) \<Rightarrow> arity = n \<and> (if kind = FROM_FLOAT_OP then byteCode kind ty False = 255 \<and> byteCode kind ty True = 255
        else map_of opcode_table (byteCode kind ty False) = Some i \<and> map_of opcode_table (byteCode kind ty True) = Some i)) prim_table"
  by code_simp



text \<open>The primitives left without an opcode, for which byteCode gives the illegal instruction,
  are exactly those compiled in other ways and fromFloatDouble; rShiftBits is not in the table
  at all, since its entry is spelled rShiftBist32. The opcodes of the accesses to pointer arrays and
  of markPtr_GC have no case in the interpreter.\<close>

lemma primitives_without_opcode:
  "List.map fst (List.filter (\<lambda>(name, kind, ty, arity). byteCode kind ty False = 255) prim_table)
     = [''typeOf'', ''castPtr'', ''envOf'', ''fromPlain'', ''castTag'', ''constructorString'',
        ''constructFromName'', ''constructFromString'', ''mapClosure'', ''extractFreeVars'',
        ''insertFreeVars'', ''fromFloatDouble'', ''assignAtPrim'', ''markFreeVars_GC'',
        ''markExprPtr_GC'', ''markExpr_GC'', ''markCell_GC'']
   \<and> list_all (\<lambda>name. case operator_named (Some name) of (kind, ty, _) \<Rightarrow>
        byteCode kind ty False \<noteq> 255 \<and> map_of opcode_table (byteCode kind ty False) = None)
      [''getAtPtrArray'', ''putAtPtrArray'', ''getAtPlainPtrArray'', ''putAtPlainPtrArray'', ''markPtr_GC'']
   \<and> operator_named (Some ''rShiftBits'') = (UNKNOWN_OP, OP_TYPE_UNKNOWN, 0)
   \<and> operator_named (Some ''rShiftBist32'') = (R_SHIFT_OP, OP_TYPE_BITS, 2)"
  by code_simp

subsection \<open>Conditional branches\<close>

lemma branch_opcodes:
  "list_all (\<lambda>(kind, ty). case (op_rel kind, op_ctype ty) of
      (Some r, Some t) \<Rightarrow> t \<in> set [TInt, TFloat, TDouble, TTag, TChar] \<and> (kind, ty) \<noteq> (LTEQ_OP, OP_TYPE_TAG) \<longrightarrow>
        map_of opcode_table (branchByteCode kind ty) = Some (COND_BRANCH r t)
    | _ \<Rightarrow> True)
    (List.product [LT_OP, LTEQ_OP, EQ_OP, NEQ_OP, GTEQ_OP, GT_OP]
       [OP_TYPE_INT, OP_TYPE_FLOAT, OP_TYPE_DOUBLE, OP_TYPE_TAG, OP_TYPE_CHAR])"
  by code_simp

lemma op_rel_cases: "op_rel kind = Some r \<Longrightarrow> kind \<in> set [LT_OP, LTEQ_OP, EQ_OP, NEQ_OP, GTEQ_OP, GT_OP]"
  by (auto simp: op_rel_def split: if_splits)

lemma op_ctype_cases:
  "op_ctype ty = Some t \<Longrightarrow> t \<in> set [TInt, TFloat, TDouble, TTag, TChar] \<Longrightarrow>
     ty \<in> set [OP_TYPE_INT, OP_TYPE_FLOAT, OP_TYPE_DOUBLE, OP_TYPE_TAG, OP_TYPE_CHAR]"
  by (auto simp: op_ctype_def split: if_splits)

lemma branch_opcode:
  assumes "op_rel kind = Some r" "op_ctype ty = Some t" "t \<in> set [TInt, TFloat, TDouble, TTag, TChar]"
    and "(kind, ty) \<noteq> (LTEQ_OP, OP_TYPE_TAG)"
  shows "map_of opcode_table (branchByteCode kind ty) = Some (COND_BRANCH r t)"
proof -
  have "(kind, ty) \<in> set (List.product [LT_OP, LTEQ_OP, EQ_OP, NEQ_OP, GTEQ_OP, GT_OP]
       [OP_TYPE_INT, OP_TYPE_FLOAT, OP_TYPE_DOUBLE, OP_TYPE_TAG, OP_TYPE_CHAR])"
    using op_rel_cases [OF assms(1)] op_ctype_cases [OF assms(2,3)] unfolding set_product by blast
  with branch_opcodes have "case (op_rel kind, op_ctype ty) of
      (Some r, Some t) \<Rightarrow> t \<in> set [TInt, TFloat, TDouble, TTag, TChar] \<and> (kind, ty) \<noteq> (LTEQ_OP, OP_TYPE_TAG) \<longrightarrow>
        map_of opcode_table (branchByteCode kind ty) = Some (COND_BRANCH r t)
    | _ \<Rightarrow> True"
    unfolding list_all_iff by fast
  with assms show ?thesis by simp
qed

lemma op_rel_inverse:
  "op_rel kind = Some r \<Longrightarrow> op_rel (fst (inverse_op (kind, ty, n))) =
     Some (case r of RLt \<Rightarrow> RGe | RLe \<Rightarrow> RGt | REq \<Rightarrow> RNe | RNe \<Rightarrow> REq | RGe \<Rightarrow> RLt | RGt \<Rightarrow> RLe)"
  by (auto simp: op_rel_def inverse_op_def split: if_splits)

lemma inverse_type: "op_rel kind = Some r \<Longrightarrow> inverse_op (kind, ty, n) = (fst (inverse_op (kind, ty, n)), ty, 2)"
  by (auto simp: op_rel_def inverse_op_def split: if_splits)

text \<open>Operands of which exactly one of less, equal and greater holds: all of a discrete type, and floating-point
  numbers that are no NaN.\<close>

definition ordered :: "host \<Rightarrow> ctype \<Rightarrow> u64 \<Rightarrow> u64 \<Rightarrow> bool" where
  "ordered h t x y \<longleftrightarrow> (case (compare h RLt t x y, compare h REq t x y, compare h RGt t x y) of
     (True, False, False) \<Rightarrow> True | (False, True, False) \<Rightarrow> True | (False, False, True) \<Rightarrow> True | _ \<Rightarrow> False)"

lemma discrete_ordered: "t \<in> {TInt, TChar, TTag} \<Longrightarrow> ordered h t x y"
  unfolding ordered_def by (subst (1 2 3) compare_int; auto split: bool.splits)

lemma compare_inverse:
  assumes "ordered h t x y" "t \<in> {TInt, TChar, TTag, TFloat, TDouble}"
  shows "compare h (case r of RLt \<Rightarrow> RGe | RLe \<Rightarrow> RGt | REq \<Rightarrow> RNe | RNe \<Rightarrow> REq | RGe \<Rightarrow> RLt | RGt \<Rightarrow> RLe) t x y
    \<longleftrightarrow> \<not> compare h r t x y"
  using assms by (cases r) (auto simp: ordered_def compare_def rel_def split: bool.splits)

text \<open>C22: the branch compiled from the inverse of a relational operator on integers, characters, tags, floats or
  doubles is taken exactly when the relation fails, when the operands are ordered (all are, but for NaNs) and
  the operator is not > on tags, whose inverse <= has no branch of its own.\<close>

theorem inverse_branch:
  assumes "op_rel kind = Some r" "op_ctype ty = Some t" "t \<in> {TInt, TChar, TTag} \<or> t \<in> {TFloat, TDouble} \<and> ordered h t x y"
    and "(kind, ty) \<noteq> (GT_OP, OP_TYPE_TAG)"
    and "mem s pc = Some (branchByteCode (fst (inverse_op (kind, ty, n))) ty)"
    and "loadT t h s (pc + 1) = Some (x, pc1)" "loadT t h s pc1 = Some (y, pc2)"
    and "extInt4 (mem s) pc2 = Some (offset, pc3)"
  shows "exec_instr h s pc = Some (Next s (if compare h r t x y then pc3 else pc3 + offset))"
proof -
  have t: "t \<in> set [TInt, TFloat, TDouble, TTag, TChar]" "t \<in> {TInt, TChar, TTag, TFloat, TDouble}" using assms(3) by auto
  have o: "ordered h t x y" using assms(3) discrete_ordered by blast
  have "fst (inverse_op (kind, ty, n)) = LTEQ_OP \<Longrightarrow> kind = GT_OP"
    using assms(1) by (auto simp: op_rel_def inverse_op_def split: if_splits)
  then have "map_of opcode_table (branchByteCode (fst (inverse_op (kind, ty, n))) ty)
      = Some (COND_BRANCH (case r of RLt \<Rightarrow> RGe | RLe \<Rightarrow> RGt | REq \<Rightarrow> RNe | RNe \<Rightarrow> REq | RGe \<Rightarrow> RLt | RGt \<Rightarrow> RLe) t)"
    using branch_opcode [OF op_rel_inverse [OF assms(1)] assms(2) t(1)] assms(4) by auto
  then show ?thesis
    using assms(5-8) compare_inverse [OF o t(2), of r]
    by (simp add: exec_fetch exec_opcode_def execCondBranch_def)
qed

theorem inverse_branch_witness:
  "exec_instr zero_host (zero_machine (flash 0x100 [46, 3, 5, 16, 0, 0, 0])) 0x100
     = Some (Next (zero_machine (flash 0x100 [46, 3, 5, 16, 0, 0, 0])) 0x107)"
proof -
  let ?s = "zero_machine (flash 0x100 [46, 3, 5, 16, 0, 0, 0])"
  have "op_rel LT_OP = Some RLt" by code_simp
  moreover have "op_ctype OP_TYPE_INT = Some TInt" by code_simp
  moreover have "mem ?s 0x100 = Some (branchByteCode (fst (inverse_op (LT_OP, OP_TYPE_INT, 2))) OP_TYPE_INT)" by code_simp
  moreover have "loadT TInt zero_host ?s (0x100 + 1) = Some (3, 0x102)" by code_simp
  moreover have "loadT TInt zero_host ?s 0x102 = Some (5, 0x103)" by code_simp
  moreover have "extInt4 (mem ?s) 0x103 = Some (16, 0x107)" by code_simp
  moreover have "compare zero_host RLt TInt 3 5" by code_simp
  ultimately show ?thesis
    using inverse_branch [of LT_OP RLt OP_TYPE_INT TInt zero_host 3 5 ?s "0x100" 2 "0x102" "0x103" 16 "0x107"]
    by simp
qed

text \<open>C38: a branch on <= between tags is compiled to the opcode of the branch on equality, because its
  case does not list the tags and falls through to the next one: it is not taken for a smaller
  left operand.\<close>

theorem tag_lteq_branches_on_equality:
  "map_of opcode_table (branchByteCode LTEQ_OP OP_TYPE_TAG) = Some (COND_BRANCH REq TTag)
   \<and> branchByteCode LTEQ_OP OP_TYPE_TAG = branchByteCode EQ_OP OP_TYPE_TAG
   \<and> map_of opcode_table (byteCode LTEQ_OP OP_TYPE_TAG c) = Some (COMPARE RLe TTag)
   \<and> (compare h REq TTag x y \<longleftrightarrow> as_tag x = as_tag y)
   \<and> (compare h RLe TTag x y \<longleftrightarrow> as_tag x \<le> as_tag y)"
proof -
  have "map_of opcode_table (branchByteCode LTEQ_OP OP_TYPE_TAG) = Some (COND_BRANCH REq TTag)" by code_simp
  moreover have "branchByteCode LTEQ_OP OP_TYPE_TAG = branchByteCode EQ_OP OP_TYPE_TAG" by code_simp
  moreover have "map_of opcode_table (byteCode LTEQ_OP OP_TYPE_TAG c) = Some (COMPARE RLe TTag)"
    by (cases c) (simp only:, code_simp)+
  ultimately show ?thesis by (auto simp: compare_def rel_def)
qed



end
