(* ===== verification/Assembler.thy ===== *)
theory Assembler
  imports Operators
begin

text \<open>
  The byte-code assembler of API/ivory/compiler/byteCode.cpp and header/ivory/compiler/byteCode.h:
  code is emitted into sections, sections belong to segments, and linking places the sections
  one after the other, patches the offsets between them and copies them to memory.

  A pointer to a section is its position in the list of all sections of the code, a pointer to a
  segment its position in the list of segments: both lists only grow. A section's bytes are
  those below \<open>_bytePos\<close>; a byte put beyond them is never read, because \<open>putByte\<close> overwrites it,
  so such a put leaves the visible bytes alone. None stands for dereferencing NULL.
\<close>

subsection \<open>Sections\<close>

record ByteCodeSection =
  sec_id :: nat
  align :: bool
  bytes :: "byte list"
  origin :: nat
  bytePtr :: addr
  owner :: "nat option"

definition new_section :: "nat \<Rightarrow> bool \<Rightarrow> ByteCodeSection" where
  "new_section i al = \<lparr>sec_id = i, align = al, bytes = [], origin = 0, bytePtr = 0, owner = None\<rparr>"

abbreviation bytePos :: "ByteCodeSection \<Rightarrow> nat" where
  "bytePos s \<equiv> length (bytes s)"

definition sec_putByte :: "byte \<Rightarrow> ByteCodeSection \<Rightarrow> ByteCodeSection" where
  "sec_putByte val s = s\<lparr>bytes := bytes s @ [val]\<rparr>"

definition sec_putByteAt :: "byte \<Rightarrow> nat \<Rightarrow> ByteCodeSection \<Rightarrow> ByteCodeSection" where
  "sec_putByteAt val pos s = s\<lparr>bytes := (bytes s)[pos := val]\<rparr>"

definition reserve :: "nat \<Rightarrow> ByteCodeSection \<Rightarrow> ByteCodeSection" where
  "reserve n s = (sec_putByte 0 ^^ n) s"

definition pad :: "nat \<Rightarrow> ByteCodeSection \<Rightarrow> ByteCodeSection" where
  "pad sz s =
     (if sz = 2 \<and> bytePos s mod 2 = 1 \<or> sz > 2 \<and> bytePos s mod 4 \<noteq> 0 then
        let n = if sz = 2 then 1 else 4 - bytePos s mod 4
        in (sec_putByte 0 ^^ n) s
      else s)"

subsection \<open>Segments and the state of the assembler\<close>

record ImportRecord =
  reserved :: u16
  nameIndex :: u16
  importOffset :: u32

record ByteCodeSegment =
  parent :: "nat option"
  index :: nat
  children :: "nat list"
  seg_sections :: "nat option"
  lastSection :: "nat option"
  nameConsts :: "u16 list"
  typeConsts :: "u16 list"
  importRecs :: "ImportRecord list"

text \<open>
  A back-patch: the position of the offset, the origin it is relative to, and the target, which
  is a position in a section, a code label or the header of a segment.
\<close>

datatype binding = Simple nat "nat option" | Label nat bool | Segment nat

record BackPatchElement =
  bp_pos :: nat
  posSection :: nat
  bp_origin :: nat
  originSection :: "nat option"
  bp_target :: binding

text \<open>
  The state. \<open>insBackPatchList\<close> is the \<open>_backPatchList\<close> of the current instruction, whose origins
  are set at its end. \<open>labels\<close> holds what the labels bound so far refer to, that is \<open>_bytePos\<close> and
  \<open>_section\<close> of each CodeLabel, and \<open>reports\<close> the calls of \<open>ivoryError\<close>.
\<close>

record ByteCode =
  rootSegment :: "nat option"
  currSegment :: "nat option"
  segments :: "ByteCodeSegment list"
  sectionId :: nat
  sections :: "ByteCodeSection list"
  currSection :: "nat option"
  codeSection :: "nat option"
  backPatchList :: "BackPatchElement list"
  insBackPatchList :: "BackPatchElement list"
  labels :: "nat \<rightharpoonup> nat \<times> nat"
  reports :: "string list"

definition on_section :: "nat \<Rightarrow> (ByteCodeSection \<Rightarrow> ByteCodeSection) \<Rightarrow> ByteCode \<Rightarrow> ByteCode" where
  "on_section i f c = c\<lparr>sections := (sections c)[i := f (sections c ! i)]\<rparr>"

definition on_segment :: "nat \<Rightarrow> (ByteCodeSegment \<Rightarrow> ByteCodeSegment) \<Rightarrow> ByteCode \<Rightarrow> ByteCode" where
  "on_segment i f c = c\<lparr>segments := (segments c)[i := f (segments c ! i)]\<rparr>"

subsection \<open>Emission\<close>

definition putByte :: "byte \<Rightarrow> ByteCode \<Rightarrow> ByteCode option" where
  "putByte val c = do { i \<leftarrow> currSection c; Some (on_section i (sec_putByte val) c) }"

definition putByteAt :: "byte \<Rightarrow> nat \<Rightarrow> ByteCode \<Rightarrow> ByteCode option" where
  "putByteAt val pos c = do { i \<leftarrow> currSection c; Some (on_section i (sec_putByteAt val pos) c) }"

primrec putBytes :: "byte list \<Rightarrow> ByteCode \<Rightarrow> ByteCode option" where
  "putBytes [] c = Some c"
| "putBytes (b # bs) c = do { c \<leftarrow> putByte b c; putBytes bs c }"

definition putBits16 :: "u16 \<Rightarrow> ByteCode \<Rightarrow> ByteCode option" where
  "putBits16 val c = do {
     c \<leftarrow> putByte (ucast (drop_bit 0 val AND 0xff)) c;
     putByte (ucast (drop_bit 8 val AND 0xff)) c }"

definition putBits32 :: "u32 \<Rightarrow> ByteCode \<Rightarrow> ByteCode option" where
  "putBits32 val c = do {
     c \<leftarrow> putByte (ucast (drop_bit 0 val AND 0xff)) c;
     c \<leftarrow> putByte (ucast (drop_bit 8 val AND 0xff)) c;
     c \<leftarrow> putByte (ucast (drop_bit 16 val AND 0xff)) c;
     putByte (ucast (drop_bit 24 val AND 0xff)) c }"

definition putBits64 :: "u64 \<Rightarrow> ByteCode \<Rightarrow> ByteCode option" where
  "putBits64 val c = do {
     c \<leftarrow> putByte (ucast (drop_bit 0 val AND 0xff)) c;
     c \<leftarrow> putByte (ucast (drop_bit 8 val AND 0xff)) c;
     c \<leftarrow> putByte (ucast (drop_bit 16 val AND 0xff)) c;
     c \<leftarrow> putByte (ucast (drop_bit 24 val AND 0xff)) c;
     c \<leftarrow> putByte (ucast (drop_bit 32 val AND 0xff)) c;
     c \<leftarrow> putByte (ucast (drop_bit 40 val AND 0xff)) c;
     c \<leftarrow> putByte (ucast (drop_bit 48 val AND 0xff)) c;
     putByte (ucast (drop_bit 56 val AND 0xff)) c }"

definition putBits32At :: "u32 \<Rightarrow> nat \<Rightarrow> ByteCode \<Rightarrow> ByteCode option" where
  "putBits32At val pos c = do {
     c \<leftarrow> putByteAt (ucast (drop_bit 0 val AND 0xff)) pos c;
     c \<leftarrow> putByteAt (ucast (drop_bit 8 val AND 0xff)) (pos + 1) c;
     c \<leftarrow> putByteAt (ucast (drop_bit 16 val AND 0xff)) (pos + 2) c;
     putByteAt (ucast (drop_bit 24 val AND 0xff)) (pos + 3) c }"

definition putVLU :: "u32 \<Rightarrow> ByteCode \<Rightarrow> ByteCode option" where
  "putVLU val c = do { bs \<leftarrow> packVLU val; putBytes bs c }"

definition putVLI :: "u32 \<Rightarrow> ByteCode \<Rightarrow> ByteCode option" where
  "putVLI val c = do { bs \<leftarrow> packVLI val; putBytes bs c }"

subsection \<open>Address modes\<close>

text \<open>\<open><mode>_ADDR_MODE_VAL\<close> and the extended modes, whose groups have one byte per width.\<close>

definition mode_val :: "byte \<Rightarrow> byte" where
  "mode_val m = push_bit 5 m"

primrec ext_base :: "ext_mode \<Rightarrow> byte" where
  "ext_base IMM_EXT = 0" | "ext_base MEM_EXT = 4" | "ext_base STACK_EXT = 8"
| "ext_base CELL_EXT = 12" | "ext_base FRAME_EXT = 16" | "ext_base RACK_EXT = 20"
| "ext_base IND_EXT = 24" | "ext_base INDEXED_EXT = 28"

definition ext_mode_val :: "ext_mode \<Rightarrow> byte \<Rightarrow> byte" where
  "ext_mode_val g k = mode_val EXT_ADDR_MODE OR push_bit 0 (ext_base g + k)"

definition putImmUInt :: "u32 \<Rightarrow> ByteCode \<Rightarrow> ByteCode option" where
  "putImmUInt val c =
     (if val < 32 then putByte (ucast val AND 0x1f OR mode_val IMM_ADDR_MODE) c
      else if 32 \<le> val \<and> val < 256 then do {
        c \<leftarrow> putByte (ext_mode_val IMM_EXT 0) c;
        putByte (ucast val) c }
      else if 256 \<le> val \<and> val < 65536 then do {
        c \<leftarrow> putByte (ext_mode_val IMM_EXT 1) c;
        putBits16 (ucast val) c }
      else do {
        c \<leftarrow> putByte (ext_mode_val IMM_EXT 2) c;
        putBits32 val c })"

definition putImmInt :: "u32 \<Rightarrow> ByteCode \<Rightarrow> ByteCode option" where
  "putImmInt val c =
     (if - 16 \<le> sint val \<and> sint val < 16 then putByte (ucast val AND 0x1f OR mode_val IMM_ADDR_MODE) c
      else if - 128 \<le> sint val \<and> sint val < 128 then do {
        c \<leftarrow> putByte (ext_mode_val IMM_EXT 0) c;
        putByte (ucast val) c }
      else if - 32768 \<le> sint val \<and> sint val < 32768 then do {
        c \<leftarrow> putByte (ext_mode_val IMM_EXT 1) c;
        putBits16 (ucast val) c }
      else do {
        c \<leftarrow> putByte (ext_mode_val IMM_EXT 2) c;
        putBits32 val c })"

definition putRegAddrMode :: "u32 \<Rightarrow> ByteCode \<Rightarrow> ByteCode option" where
  "putRegAddrMode i c = putByte (ucast (push_bit 0 i OR ucast (mode_val REG_ADDR_MODE))) c"

text \<open>The widths of a signed and of an unsigned 64-bit offset behind an extended mode.\<close>

definition putExtInt :: "ext_mode \<Rightarrow> u64 \<Rightarrow> ByteCode \<Rightarrow> ByteCode option" where
  "putExtInt g offset c =
     (if - 128 \<le> sint offset \<and> sint offset < 128 then do {
        c \<leftarrow> putByte (ext_mode_val g 0) c;
        putByte (ucast offset) c }
      else if - 32768 \<le> sint offset \<and> sint offset < 32768 then do {
        c \<leftarrow> putByte (ext_mode_val g 1) c;
        putBits16 (ucast offset) c }
      else if - 2147483647 - 1 \<le> sint offset \<and> sint offset < 2147483648 then do {
        c \<leftarrow> putByte (ext_mode_val g 2) c;
        putBits32 (ucast offset) c }
      else do {
        c \<leftarrow> putByte (ext_mode_val g 3) c;
        putBits64 offset c })"

definition putExtUInt :: "ext_mode \<Rightarrow> u64 \<Rightarrow> ByteCode \<Rightarrow> ByteCode option" where
  "putExtUInt g offset c =
     (if offset < 256 then do {
        c \<leftarrow> putByte (ext_mode_val g 0) c;
        putByte (ucast offset) c }
      else if 256 \<le> offset \<and> offset < 65536 then do {
        c \<leftarrow> putByte (ext_mode_val g 1) c;
        putBits16 (ucast offset) c }
      else if 65536 \<le> offset \<and> offset < 0x100000000 then do {
        c \<leftarrow> putByte (ext_mode_val g 2) c;
        putBits32 (ucast offset) c }
      else do {
        c \<leftarrow> putByte (ext_mode_val g 3) c;
        putBits64 offset c })"

definition putStackAddrMode :: "u64 \<Rightarrow> ByteCode \<Rightarrow> ByteCode option" where
  "putStackAddrMode offset c =
     (if - 16 \<le> sint offset \<and> sint offset < 16
      then putByte (ucast offset AND 0x1f OR mode_val STACK_ADDR_MODE) c
      else putExtInt STACK_EXT offset c)"

definition putFrameAddrMode :: "u64 \<Rightarrow> ByteCode \<Rightarrow> ByteCode option" where
  "putFrameAddrMode offset c = putExtUInt FRAME_EXT offset c"

definition putCellAddrMode :: "u64 \<Rightarrow> ByteCode \<Rightarrow> ByteCode option" where
  "putCellAddrMode offset c =
     (if offset < 32 then putByte (ucast offset AND 0x1f OR mode_val CELL_ADDR_MODE) c
      else putExtUInt CELL_EXT offset c)"

definition putRackAddrMode :: "u64 \<Rightarrow> ByteCode \<Rightarrow> ByteCode option" where
  "putRackAddrMode offset c =
     (if offset < 32 then putByte (ucast offset OR mode_val RACK_ADDR_MODE) c
      else putExtUInt RACK_EXT offset c)"

text \<open>The offset of the indirect mode is signed, but only 8, 16 and 32 bits without sign are
  considered before 64.\<close>

definition putIndAddrMode :: "u64 \<Rightarrow> ByteCode \<Rightarrow> ByteCode option" where
  "putIndAddrMode offset c =
     (if 0 \<le> sint offset \<and> sint offset < 32 then putByte (ucast offset OR mode_val IND_ADDR_MODE) c
      else if 32 \<le> sint offset \<and> sint offset < 256 then do {
        c \<leftarrow> putByte (ext_mode_val IND_EXT 0) c;
        putByte (ucast offset) c }
      else if 256 \<le> sint offset \<and> sint offset < 65536 then do {
        c \<leftarrow> putByte (ext_mode_val IND_EXT 1) c;
        putBits16 (ucast offset) c }
      else if 65536 \<le> sint offset \<and> sint offset < 0x100000000 then do {
        c \<leftarrow> putByte (ext_mode_val IND_EXT 2) c;
        putBits32 (ucast offset) c }
      else do {
        c \<leftarrow> putByte (ext_mode_val IND_EXT 3) c;
        putBits64 offset c })"

definition putIndexedAddrMode :: "u64 \<Rightarrow> ByteCode \<Rightarrow> ByteCode option" where
  "putIndexedAddrMode offset c = putExtUInt INDEXED_EXT offset c"

subsection \<open>What emission appends\<close>

lemma putBytes_append [simp]: "putBytes (xs @ ys) c = do { c \<leftarrow> putBytes xs c; putBytes ys c }"
  by (induction xs arbitrary: c) (auto simp: bind_assoc)

lemma putByte_putBytes: "putByte b c = putBytes [b] c"
  by simp

lemma low_byte: "ucast (v AND 0xff) = (ucast v :: byte)" for v :: "'a::len word"
proof -
  have m: "(0xff :: 'a word) = mask 8" by (simp add: mask_eq_exp_minus_1)
  show ?thesis unfolding m by (intro bit_word_eqI) (auto simp: bit_simps dest: bit_imp_le_length)
qed

lemma le_bytes_cases:
  "le_bytes 1 v = [ucast v]"
  "le_bytes 2 v = [ucast v, ucast (drop_bit 8 v)]"
  "le_bytes 4 v = [ucast v, ucast (drop_bit 8 v), ucast (drop_bit 16 v), ucast (drop_bit 24 v)]"
  "le_bytes 8 v = [ucast v, ucast (drop_bit 8 v), ucast (drop_bit 16 v), ucast (drop_bit 24 v),
     ucast (drop_bit 32 v), ucast (drop_bit 40 v), ucast (drop_bit 48 v), ucast (drop_bit 56 v)]"
  by (simp_all add: le_bytes_def byte_of_def upt_rec)

lemma byte_of_narrow:
  "ucast (drop_bit k (ucast v :: u16)) = (ucast (drop_bit k v) :: byte)" if "k \<le> 8" for v :: u64
  using that by (intro bit_word_eqI) (auto simp: bit_simps)

lemma byte_of_narrow32:
  "ucast (drop_bit k (ucast v :: u32)) = (ucast (drop_bit k v) :: byte)" if "k \<le> 24" for v :: u64
  using that by (intro bit_word_eqI) (auto simp: bit_simps)

lemma put_bits:
  "putBits16 (ucast (v :: u64)) = putBytes (le_bytes 2 v)"
  "putBits32 (ucast (v :: u64)) = putBytes (le_bytes 4 v)"
  "putBits64 v = putBytes (le_bytes 8 v)"
  using byte_of_narrow [of 0 v] byte_of_narrow32 [of 0 v]
  by (simp_all add: fun_eq_iff putBits16_def putBits32_def putBits64_def le_bytes_cases low_byte
        byte_of_narrow byte_of_narrow32)

lemma put_words:
  "putBits16 (x :: u16) c = putBytes (le_bytes 2 (ucast x)) c"
  "putBits32 (y :: u32) c = putBytes (le_bytes 4 (ucast y)) c"
proof -
  have "x = ucast (ucast x :: u64)" "y = ucast (ucast y :: u64)" by (intro bit_word_eqI; simp add: bit_simps)+
  then show "putBits16 x c = putBytes (le_bytes 2 (ucast x)) c" "putBits32 y c = putBytes (le_bytes 4 (ucast y)) c"
    using put_bits(1) [of "ucast x"] put_bits(2) [of "ucast y"] by simp_all
qed

subsection \<open>Code in memory\<close>

definition code_at :: "memory \<Rightarrow> addr \<Rightarrow> byte list \<Rightarrow> bool" where
  "code_at m pc bs \<longleftrightarrow> read_n (length bs) m pc = Some bs"

lemma code_at_simps [simp]:
  "code_at m pc []" "code_at m pc (b # bs) \<longleftrightarrow> m pc = Some b \<and> code_at m (pc + 1) bs"
  by (auto simp: code_at_def bind_simps)

lemma code_at_append [simp]:
  "code_at m pc (xs @ ys) \<longleftrightarrow> code_at m pc xs \<and> code_at m (pc + of_nat (length xs)) ys"
  by (induction xs arbitrary: pc) (auto simp: ac_simps)

lemma load_code: "code_at m pc (le_bytes n v) \<Longrightarrow> load_n n m pc = Some (take_bit (8 * n) v)"
  by (simp add: code_at_def load_n_def le_value_bytes)

lemma load_1: "load_n (Suc 0) m pc = map_option ucast (m pc)"
  by (cases "m pc") (simp_all add: load_n_def)

lemma widths_cases: "n \<in> {1, 2, 4, 8} \<Longrightarrow> (n = 1 \<Longrightarrow> P) \<Longrightarrow> (n = 2 \<Longrightarrow> P) \<Longrightarrow> (n = 4 \<Longrightarrow> P) \<Longrightarrow> (n = 8 \<Longrightarrow> P) \<Longrightarrow> P"
  for n :: nat
  by blast

lemma ucast_ucast_take: "ucast (ucast x :: 'a::len word) = take_bit LENGTH('a) x" if "LENGTH('a) \<le> LENGTH('b)"
  for x :: "'b::len word"
  using that by (intro bit_word_eqI) (auto simp: bit_simps)

lemma scast_ucast_take: "scast (ucast x :: 'a::len word) = signed_take_bit (LENGTH('a) - 1) x" if "LENGTH('a) \<le> LENGTH('b)"
  for x :: "'b::len word"
  using that by (intro bit_word_eqI) (auto simp: bit_simps min_def dest: bit_imp_le_length)

lemma ucast_byte_take: "take_bit 8 (ucast (b :: byte)) = (ucast b :: u64)"
  by (intro bit_word_eqI) (auto simp: bit_simps dest: bit_imp_le_length)

lemma scast_byte_take: "signed_take_bit 7 (ucast (b :: byte)) = (scast b :: u64)"
  by (intro bit_word_eqI) (auto simp: bit_simps min_def dest: bit_imp_le_length)

lemma signed_take_63: "signed_take_bit 63 (x :: u64) = x"
proof (intro bit_word_eqI)
  fix n assume "n < LENGTH(64)"
  then have "min 63 n = n" by simp
  then show "bit (signed_take_bit 63 x) n = bit x n" using \<open>n < LENGTH(64)\<close> by (simp add: bit_signed_take_bit_iff)
qed

lemma extUInt_load:
  "n \<in> {1, 2, 4, 8} \<Longrightarrow> extUInt n m pc = map_option (\<lambda>v. (v, pc + of_nat n)) (load_n n m pc)"
  by (cases "load_n n m pc"; cases "m pc"; elim widths_cases)
    (auto simp: extUInt_def fetchByte_def extBits16_load extBits32_load extBits64_load load_1
      ucast_ucast_take ucast_byte_take dest: load_n_small)

lemma extInt_load:
  "n \<in> {1, 2, 4, 8} \<Longrightarrow>
     extInt n m pc = map_option (\<lambda>v. (signed_take_bit (8 * n - 1) v, pc + of_nat n)) (load_n n m pc)"
  by (cases "load_n n m pc"; cases "m pc"; elim widths_cases)
    (auto simp: extInt_def fetchByte_def extBits16_load extBits32_load extBits64_load load_1
      scast_ucast_take scast_byte_take signed_take_63 dest: load_n_small)

text \<open>An offset fits a width when extending its low bytes gives it back.\<close>

definition fitsU :: "nat \<Rightarrow> u64 \<Rightarrow> bool" where "fitsU n v \<longleftrightarrow> take_bit (8 * n) v = v"
definition fitsS :: "nat \<Rightarrow> u64 \<Rightarrow> bool" where "fitsS n v \<longleftrightarrow> signed_take_bit (8 * n - 1) v = v"

lemma extUInt_code:
  "n \<in> {1, 2, 4, 8} \<Longrightarrow> code_at m pc (le_bytes n v) \<Longrightarrow> fitsU n v \<Longrightarrow> extUInt n m pc = Some (v, pc + of_nat n)"
  by (simp add: extUInt_load load_code fitsU_def)

lemma extInt_code:
  "n \<in> {1, 2, 4, 8} \<Longrightarrow> code_at m pc (le_bytes n v) \<Longrightarrow> fitsS n v \<Longrightarrow> extInt n m pc = Some (v, pc + of_nat n)"
  by (auto simp: extInt_load load_code fitsS_def signed_take_bit_take_bit)

lemma fitsU_cases: "v < 256 \<Longrightarrow> fitsU 1 v" "v < 65536 \<Longrightarrow> fitsU 2 v" "v < 0x100000000 \<Longrightarrow> fitsU 4 v" "fitsU 8 v"
proof -
  have f: "take_bit k v = v" if "uint v < 2 ^ k" for k
    using that
    by (intro word_uint_eqI) (simp add: unsigned_take_bit_eq take_bit_int_eq_self)
  show "v < 256 \<Longrightarrow> fitsU 1 v" "v < 65536 \<Longrightarrow> fitsU 2 v" "v < 0x100000000 \<Longrightarrow> fitsU 4 v" "fitsU 8 v"
    using f [of 8] f [of 16] f [of 32]
    by (simp_all add: fitsU_def word_less_def take_bit_word_eq_self)
qed

lemma fitsS_cases:
  "- 128 \<le> sint v \<Longrightarrow> sint v < 128 \<Longrightarrow> fitsS 1 v" "- 32768 \<le> sint v \<Longrightarrow> sint v < 32768 \<Longrightarrow> fitsS 2 v"
  "- 2147483648 \<le> sint v \<Longrightarrow> sint v < 2147483648 \<Longrightarrow> fitsS 4 v" "fitsS 8 v"
proof -
  have f: "signed_take_bit k v = v" if "- (2 ^ k) \<le> sint v" "sint v < 2 ^ k" "k \<le> 63" for k
  proof -
    have "sint (signed_take_bit k v) = signed_take_bit k (sint v)"
      using that(3) by (intro bit_eqI) (auto simp: bit_simps min_def)
    also have "... = sint v" using that by (simp add: signed_take_bit_int_eq_self)
    finally show ?thesis by (rule signed_word_eqI)
  qed
  show "- 128 \<le> sint v \<Longrightarrow> sint v < 128 \<Longrightarrow> fitsS 1 v" "- 32768 \<le> sint v \<Longrightarrow> sint v < 32768 \<Longrightarrow> fitsS 2 v"
    "- 2147483648 \<le> sint v \<Longrightarrow> sint v < 2147483648 \<Longrightarrow> fitsS 4 v" "fitsS 8 v"
    using f [of 7] f [of 15] f [of 31] by (simp_all add: fitsS_def signed_take_63)
qed

subsection \<open>The encodings\<close>

definition enc_ext :: "ext_mode \<Rightarrow> nat \<Rightarrow> u64 \<Rightarrow> byte list" where
  "enc_ext g k v = ext_mode_val g (of_nat k) # le_bytes (2 ^ k) v"

definition widthU :: "u64 \<Rightarrow> nat" where
  "widthU v = (if v < 256 then 0 else if v < 65536 then 1 else if v < 0x100000000 then 2 else 3)"

definition widthS :: "u64 \<Rightarrow> nat" where
  "widthS v = (if - 128 \<le> sint v \<and> sint v < 128 then 0 else if - 32768 \<le> sint v \<and> sint v < 32768 then 1
     else if - 2147483648 \<le> sint v \<and> sint v < 2147483648 then 2 else 3)"

lemma width_fits: "widthU v < 4" "fitsU (2 ^ widthU v) v" "widthS v < 4" "fitsS (2 ^ widthS v) v"
  using fitsU_cases [of v] fitsS_cases [of v] by (auto simp: widthU_def widthS_def)

lemma enc_ext_cases:
  "enc_ext g 0 v = [ext_mode_val g 0, ucast v]"
  "enc_ext g 1 v = ext_mode_val g 1 # le_bytes 2 v"
  "enc_ext g 2 v = ext_mode_val g 2 # le_bytes 4 v"
  "enc_ext g 3 v = ext_mode_val g 3 # le_bytes 8 v"
  using le_bytes_cases(1) [of v] by (simp_all add: enc_ext_def)

lemma putExtUInt_bytes: "putExtUInt g v c = putBytes (enc_ext g (widthU v) v) c"
  by (auto simp: putExtUInt_def widthU_def enc_ext_cases put_bits enc_ext_cases(2) [simplified] not_less)

lemma putExtInt_bytes: "putExtInt g v c = putBytes (enc_ext g (widthS v) v) c"
  by (simp add: putExtInt_def widthS_def enc_ext_cases put_bits enc_ext_cases(2) [simplified])

lemma ext_mode_byte:
  assumes "k < 4"
  shows "addrMode (ext_mode_val g (of_nat k)) = 7" "ext_group (extAddrMode (ext_mode_val g (of_nat k))) = g"
    "ext_width (extAddrMode (ext_mode_val g (of_nat k))) = 2 ^ k"
proof -
  have "list_all (\<lambda>k. addrMode (ext_mode_val g (of_nat k)) = 7
      \<and> ext_group (extAddrMode (ext_mode_val g (of_nat k))) = g
      \<and> ext_width (extAddrMode (ext_mode_val g (of_nat k))) = 2 ^ k) [0, 1, 2, 3]"
    by (cases g) (simp_all add: ext_mode_val_def mode_val_def addrMode_def extAddrMode_def ext_group_def ext_width_def)
  moreover have "k \<in> set [0, 1, 2, 3]" using assms by auto
  ultimately show "addrMode (ext_mode_val g (of_nat k)) = 7" "ext_group (extAddrMode (ext_mode_val g (of_nat k))) = g"
    "ext_width (extAddrMode (ext_mode_val g (of_nat k))) = 2 ^ k"
    unfolding list_all_iff by blast+
qed

lemma short_mode_table:
  "list_all (\<lambda>i. list_all (\<lambda>j. addrMode (of_nat i OR mode_val (of_nat j)) = of_nat j
      \<and> immVal (of_nat i OR mode_val (of_nat j)) = of_nat i \<and> of_nat i AND 0x1f = (of_nat i :: byte))
    [0..<8]) [0..<32]"
  by code_simp

lemma short_mode_byte:
  assumes "m < 8" "w < 32"
  shows "addrMode (w OR mode_val m) = m" "immVal (w OR mode_val m) = w" "w AND 0x1f = w"
proof -
  have w: "unat w < 32" "unat m < 8" using assms by (simp_all add: word_less_nat_alt)
  have "of_nat (unat w) = w" "of_nat (unat m) = m" by simp_all
  with short_mode_table w show "addrMode (w OR mode_val m) = m" "immVal (w OR mode_val m) = w" "w AND 0x1f = w"
    unfolding list_all_iff by (metis atLeastLessThan_iff atLeast_upt lessThan_iff le0 set_upt)+
qed

lemma mode_of_low: "addrMode (w AND 0x1f OR mode_val m) = m" "immVal (w AND 0x1f OR mode_val m) = w AND 0x1f"
  if "m < 8" for w :: byte
proof -
  have "w AND 0x1f < 32" by (rule le_less_trans [OF word_and_le1]) simp
  then show "addrMode (w AND 0x1f OR mode_val m) = m" "immVal (w AND 0x1f OR mode_val m) = w AND 0x1f"
    using short_mode_byte [OF that] by simp_all
qed

subsection \<open>Decoding\<close>

lemma length_enc_ext [simp]: "length (enc_ext g k v) = 1 + 2 ^ k"
  by (simp add: enc_ext_def)

lemma width_set: "k < 4 \<Longrightarrow> (2 :: nat) ^ k \<in> {1, 2, 4, 8}"
  by (auto simp: less_Suc_eq numeral_eq_Suc)

lemma ext_fetch:
  assumes "code_at m pc (enc_ext g k v)" "k < 4"
  shows "\<exists>b. m pc = Some b \<and> addrMode b = 7 \<and> ext_group (extAddrMode b) = g \<and> ext_width (extAddrMode b) = 2 ^ k
    \<and> (fitsU (2 ^ k) v \<longrightarrow> extUInt (2 ^ k) m (pc + 1) = Some (v, pc + of_nat (1 + 2 ^ k)))
    \<and> (fitsS (2 ^ k) v \<longrightarrow> extInt (2 ^ k) m (pc + 1) = Some (v, pc + of_nat (1 + 2 ^ k)))"
  using assms ext_mode_byte [OF assms(2)] width_set [OF assms(2)]
    extUInt_code [of "2 ^ k" m "pc + 1" v] extInt_code [of "2 ^ k" m "pc + 1" v]
  by (simp add: enc_ext_def add.assoc)

lemma operand_ext_stack:
  assumes "code_at (mem s) pc (enc_ext STACK_EXT k v)" "k < 4" "fitsS (2 ^ k) v"
  shows "operand h s lv t pc = Some (At (sp s + ucast v), pc + of_nat (1 + 2 ^ k))"
  using ext_fetch [OF assms(1,2)] assms(3)
  by (subst operand.simps) (auto simp: fetchByte_def Let_def)

lemma operand_extU:
  assumes "code_at (mem s) pc (enc_ext g k v)" "k < 4" "fitsU (2 ^ k) v"
  shows "g = CELL_EXT \<Longrightarrow> operand h s lv t pc = Some (At (cell s + ucast v), pc + of_nat (1 + 2 ^ k))"
    "g = RACK_EXT \<Longrightarrow> operand h s lv t pc = Some (At (rack s + ucast v), pc + of_nat (1 + 2 ^ k))"
    "g = FRAME_EXT \<Longrightarrow> operand h s lv t pc = Some (At (fp s - ucast v), pc + of_nat (1 + 2 ^ k))"
    "g = IND_EXT \<Longrightarrow> operand h s lv t pc = do {
       (p, pc) \<leftarrow> operand h s False TPtr (pc + of_nat (1 + 2 ^ k));
       a \<leftarrow> read_place TPtr s p;
       Some (At (ucast a + ucast v), pc) }"
    "g = INDEXED_EXT \<Longrightarrow> operand h s lv t pc = do {
       (elemSize, pc) \<leftarrow> fetchVLU (mem s) (pc + of_nat (1 + 2 ^ k));
       (p, pc) \<leftarrow> operand h s True TByte pc;
       base \<leftarrow> address_of p;
       (p, pc) \<leftarrow> operand h s False TInt pc;
       i \<leftarrow> read_place TInt s p;
       Some (At (base + (ucast i * elemSize + ucast v)), pc) }"
  using ext_fetch [OF assms(1,2)] assms(3)
  by (subst operand.simps; force simp: fetchByte_def Let_def)+

lemma operand_short:
  assumes "code_at (mem s) pc [b]"
  shows "addrMode b = 2 \<Longrightarrow> operand h s lv t pc = Some (At (sp s + immInt b), pc + 1)"
    "addrMode b = 3 \<Longrightarrow> operand h s lv t pc = Some (At (cell s + ucast (immVal b)), pc + 1)"
    "addrMode b = 4 \<Longrightarrow> operand h s lv t pc = Some (At (rack s + ucast (immVal b)), pc + 1)"
    "addrMode b = 5 \<Longrightarrow> retReg t (regId b) = UseReg r \<Longrightarrow> operand h s lv t pc = Some (InReg r, pc + 1)"
    "addrMode b = 6 \<Longrightarrow> operand h s lv t pc = do {
       (p, pc) \<leftarrow> operand h s False TPtr (pc + 1);
       a \<leftarrow> read_place TPtr s p;
       Some (At (ucast a + ucast (immVal b)), pc) }"
    "addrMode b = 0 \<Longrightarrow> operand h s False t pc = Some (Value (imm t b), pc + 1)"
  using assms by (subst operand.simps; simp add: fetchByte_def Let_def)+

subsection \<open>Segments\<close>

abbreviation (input) SEGMENT_HEADER_SECTION_ID :: nat where "SEGMENT_HEADER_SECTION_ID \<equiv> 1"
abbreviation (input) RACK_SECTION_ID :: nat where "RACK_SECTION_ID \<equiv> 2"
abbreviation (input) NAME_TABLE_SECTION_ID :: nat where "NAME_TABLE_SECTION_ID \<equiv> 3"
abbreviation (input) TYPE_TABLE_SECTION_ID :: nat where "TYPE_TABLE_SECTION_ID \<equiv> 4"
abbreviation (input) CHILD_SEGMENT_TABLE_SECTION_ID :: nat where "CHILD_SEGMENT_TABLE_SECTION_ID \<equiv> 5"
abbreviation (input) IMPORT_TABLE_SECTION_ID :: nat where "IMPORT_TABLE_SECTION_ID \<equiv> 6"
abbreviation (input) DATA_SECTION_ID :: nat where "DATA_SECTION_ID \<equiv> 7"
abbreviation (input) INITIALISATION_CODE_SECTION_ID :: nat where "INITIALISATION_CODE_SECTION_ID \<equiv> 8"
abbreviation (input) MAIN_CODE_SECTION_ID :: nat where "MAIN_CODE_SECTION_ID \<equiv> 9"
abbreviation (input) HIGHEST_RESERVED_SECTION_ID :: nat where "HIGHEST_RESERVED_SECTION_ID \<equiv> 9"

text \<open>The section of a segment: the walk along \<open>_next\<close> from the segment's first one.\<close>

definition getSection :: "nat \<Rightarrow> nat \<Rightarrow> ByteCode \<Rightarrow> nat option" where
  "getSection seg i c = (case seg_sections (segments c ! seg) of
      None \<Rightarrow> None
    | Some first \<Rightarrow> List.find (\<lambda>j. sec_id (sections c ! j) = i + (sec_id (sections c ! first) - 1))
        [first..<length (sections c)])"

definition childCount :: "ByteCodeSegment \<Rightarrow> nat" where
  "childCount seg = length (children seg)"

definition addChild :: "nat \<Rightarrow> nat \<Rightarrow> ByteCode \<Rightarrow> ByteCode" where
  "addChild par seg c =
     on_segment par (\<lambda>p. p\<lparr>children := children p @ [seg]\<rparr>)
       (on_segment seg (\<lambda>s. s\<lparr>index := childCount (segments c ! par)\<rparr>) c)"

text \<open>\<open>ByteCode::addSection\<close>: the new section becomes the current one.\<close>

definition addSection :: "bool \<Rightarrow> ByteCode \<Rightarrow> nat \<times> ByteCode" where
  "addSection al c = (let i = length (sections c) in
     (i, c\<lparr>sectionId := Suc (sectionId c), sections := sections c @ [new_section (Suc (sectionId c)) al],
           currSection := Some i\<rparr>))"

text \<open>The loop of \<open>ByteCodeSegment::appendSection\<close> up the chain of parents.\<close>

partial_function (option) set_lastSection :: "nat \<Rightarrow> nat option \<Rightarrow> ByteCode \<Rightarrow> ByteCode option" where
  "set_lastSection sec seg c = (case seg of
      None \<Rightarrow> Some c
    | Some i \<Rightarrow> set_lastSection sec (parent (segments c ! i))
        (on_segment i (\<lambda>s. s\<lparr>lastSection := Some sec\<rparr>) c))"

declare set_lastSection.simps [code]

definition appendSection :: "nat \<Rightarrow> nat \<Rightarrow> ByteCode \<Rightarrow> ByteCode option" where
  "appendSection seg sec c =
     set_lastSection sec (Some seg)
       (on_segment seg (\<lambda>s. if seg_sections s = None then s\<lparr>seg_sections := Some sec\<rparr> else s)
         (on_section sec (\<lambda>s. s\<lparr>owner := Some seg\<rparr>) c))"

text \<open>The constructor of a segment adds its nine reserved sections; the first is aligned.\<close>

primrec add_reserved :: "nat \<Rightarrow> bool list \<Rightarrow> ByteCode \<Rightarrow> ByteCode option" where
  "add_reserved seg [] c = Some c"
| "add_reserved seg (al # als) c = (case addSection al c of (sec, c) \<Rightarrow> do {
     c \<leftarrow> appendSection seg sec c;
     add_reserved seg als c })"

definition new_ByteCodeSegment :: "nat option \<Rightarrow> ByteCode \<Rightarrow> (nat \<times> ByteCode) option" where
  "new_ByteCodeSegment par c = do {
     let seg = length (segments c);
     let c = c\<lparr>segments := segments c @ [\<lparr>parent = par, index = 0, children = [], seg_sections = None,
               lastSection = None, nameConsts = [], typeConsts = [], importRecs = []\<rparr>]\<rparr>;
     let c = (case par of None \<Rightarrow> c | Some p \<Rightarrow> addChild p seg c);
     c \<leftarrow> add_reserved seg (True # replicate (HIGHEST_RESERVED_SECTION_ID - 1) False) c;
     Some (seg, c) }"

subsection \<open>Constants and imports of a segment\<close>

text \<open>The searches return the index, or \<open>-1\<close>, which is None here.\<close>

definition const_index :: "u16 \<Rightarrow> u16 list \<Rightarrow> nat option" where
  "const_index k ks = List.find (\<lambda>i. ks ! i = k) [0..<length ks]"

definition nameConstIndex :: "u16 \<Rightarrow> ByteCodeSegment \<Rightarrow> nat option" where
  "nameConstIndex name seg = const_index name (nameConsts seg)"

definition addNameConst :: "u16 \<Rightarrow> ByteCodeSegment \<Rightarrow> nat \<times> ByteCodeSegment" where
  "addNameConst name seg = (case nameConstIndex name seg of
      Some i \<Rightarrow> (i, seg)
    | None \<Rightarrow> (length (nameConsts seg), seg\<lparr>nameConsts := nameConsts seg @ [name]\<rparr>))"

definition typeConstIndex :: "u16 \<Rightarrow> ByteCodeSegment \<Rightarrow> nat option" where
  "typeConstIndex type seg = const_index type (typeConsts seg)"

definition addTypeConst :: "u16 \<Rightarrow> ByteCodeSegment \<Rightarrow> nat \<times> ByteCodeSegment" where
  "addTypeConst type seg = (case typeConstIndex type seg of
      Some i \<Rightarrow> (i, seg)
    | None \<Rightarrow> (length (typeConsts seg), seg\<lparr>typeConsts := typeConsts seg @ [type]\<rparr>))"

definition importRec :: "u16 \<Rightarrow> ByteCodeSegment \<Rightarrow> ImportRecord option" where
  "importRec ni seg = List.find (\<lambda>r. nameIndex r = ni) (importRecs seg)"

definition addImportRec :: "u16 \<Rightarrow> u32 \<Rightarrow> ByteCodeSegment \<Rightarrow> ByteCodeSegment" where
  "addImportRec ni offset seg =
     (if importRec ni seg = None
      then seg\<lparr>importRecs := importRecs seg @ [\<lparr>reserved = 0, nameIndex = ni, importOffset = offset\<rparr>]\<rparr>
      else seg)"

subsection \<open>Selecting sections\<close>

definition selectSection :: "nat \<Rightarrow> ByteCode \<Rightarrow> ByteCode option" where
  "selectSection i c = do { seg \<leftarrow> currSegment c; Some (c\<lparr>currSection := getSection seg i c\<rparr>) }"

definition selectInitCodeSection :: "ByteCode \<Rightarrow> ByteCode option" where
  "selectInitCodeSection c = selectSection INITIALISATION_CODE_SECTION_ID c"

definition code_bytePos :: "ByteCode \<Rightarrow> nat option" where
  "code_bytePos c = do { i \<leftarrow> currSection c; Some (bytePos (sections c ! i)) }"

definition reserveBytes :: "nat \<Rightarrow> ByteCode \<Rightarrow> ByteCode option" where
  "reserveBytes n c = do { i \<leftarrow> currSection c; Some (on_section i (reserve n) c) }"

definition reserveBytes_in :: "nat \<Rightarrow> nat \<Rightarrow> ByteCode \<Rightarrow> ByteCode option" where
  "reserveBytes_in n i c = do {
     seg \<leftarrow> currSegment c;
     sec \<leftarrow> getSection seg i c;
     Some (on_section sec (reserve n) c) }"

definition padRack :: "nat \<Rightarrow> ByteCode \<Rightarrow> ByteCode option" where
  "padRack n c = do {
     seg \<leftarrow> currSegment c;
     sec \<leftarrow> getSection seg RACK_SECTION_ID c;
     Some (on_section sec (pad n) c) }"

definition rackBytePos :: "ByteCode \<Rightarrow> nat option" where
  "rackBytePos c = do {
     seg \<leftarrow> currSegment c;
     sec \<leftarrow> getSection seg RACK_SECTION_ID c;
     Some (bytePos (sections c ! sec)) }"

definition reserveRack :: "nat \<Rightarrow> ByteCode \<Rightarrow> ByteCode option" where
  "reserveRack n c = reserveBytes_in n RACK_SECTION_ID c"

text \<open>
  \<open>ByteCode::getSegment\<close> when the function has no segment yet: the new segment with its header,
  rack, child table and data initialised, and its slot in the child table of the parent. The
  reference stored in the data section is \<open>NULL_REF\<close>.
\<close>

definition make_segment :: "nat option \<Rightarrow> ByteCode \<Rightarrow> (nat \<times> ByteCode) option" where
  "make_segment par c = do {
     (seg, c) \<leftarrow> new_ByteCodeSegment par c;
     let c = c\<lparr>currSegment := Some seg\<rparr>;
     c \<leftarrow> reserveBytes_in 16 SEGMENT_HEADER_SECTION_ID c;
     c \<leftarrow> selectSection RACK_SECTION_ID c;
     c \<leftarrow> putBits32 0 c;
     c \<leftarrow> selectSection CHILD_SEGMENT_TABLE_SECTION_ID c;
     c \<leftarrow> putBits32 0 c;
     c \<leftarrow> selectSection DATA_SECTION_ID c;
     c \<leftarrow> putBits32 0 c;
     let c = c\<lparr>currSegment := par\<rparr>;
     c \<leftarrow> (case par of
         None \<Rightarrow> Some (c\<lparr>rootSegment := Some seg\<rparr>)
       | Some p \<Rightarrow> do {
           c \<leftarrow> selectSection CHILD_SEGMENT_TABLE_SECTION_ID c;
           c \<leftarrow> putBits32At (of_nat (childCount (segments c ! p))) 0 c;
           reserveBytes 4 c });
     Some (seg, c) }"

subsection \<open>Back-patches\<close>

definition add_patch :: "BackPatchElement \<Rightarrow> ByteCode \<Rightarrow> ByteCode" where
  "add_patch e c = c\<lparr>backPatchList := e # backPatchList c\<rparr>"

definition add_ins_patch :: "BackPatchElement \<Rightarrow> ByteCode \<Rightarrow> ByteCode" where
  "add_ins_patch e c = c\<lparr>insBackPatchList := e # insBackPatchList c\<rparr>"

text \<open>At the end of the operand the origin is known; otherwise the instruction keeps the element.\<close>

definition addBackPatch :: "nat \<Rightarrow> nat \<Rightarrow> nat \<Rightarrow> nat option \<Rightarrow> nat \<Rightarrow> nat option \<Rightarrow> bool \<Rightarrow> ByteCode \<Rightarrow> ByteCode" where
  "addBackPatch pos posSec org orgSec target targetSec endOfIns c =
     (let e = \<lparr>bp_pos = pos, posSection = posSec, bp_origin = org, originSection = orgSec,
        bp_target = Simple target targetSec\<rparr>
      in if endOfIns then add_ins_patch e c else add_patch e c)"

definition addLabelBackPatch :: "nat \<Rightarrow> nat \<Rightarrow> bool \<Rightarrow> bool \<Rightarrow> ByteCode \<Rightarrow> ByteCode option" where
  "addLabelBackPatch pos lab branchFlag endOfIns c = do {
     sec \<leftarrow> currSection c;
     let e = \<lparr>bp_pos = pos, posSection = sec, bp_origin = 0,
        originSection = (if codeSection c \<noteq> None then codeSection c else Some sec), bp_target = Label lab branchFlag\<rparr>;
     Some (if endOfIns then add_ins_patch e c
           else add_patch (e\<lparr>bp_origin := bytePos (sections c ! sec)\<rparr>) c) }"

definition addTargetBackPatch :: "nat \<Rightarrow> nat \<Rightarrow> nat \<Rightarrow> bool \<Rightarrow> ByteCode \<Rightarrow> ByteCode option" where
  "addTargetBackPatch pos target i endOfIns c = do {
     sec \<leftarrow> currSection c;
     seg \<leftarrow> currSegment c;
     let e = \<lparr>bp_pos = pos, posSection = sec, bp_origin = 0, originSection = Some sec,
        bp_target = Simple target (getSection seg i c)\<rparr>;
     Some (if endOfIns then add_ins_patch e c
           else add_patch (e\<lparr>bp_origin := bytePos (sections c ! sec)\<rparr>) c) }"

definition addSegmentBackPatch :: "nat \<Rightarrow> nat \<Rightarrow> bool \<Rightarrow> ByteCode \<Rightarrow> ByteCode option" where
  "addSegmentBackPatch pos seg endOfIns c = do {
     sec \<leftarrow> currSection c;
     let e = \<lparr>bp_pos = pos, posSection = sec, bp_origin = 0, originSection = Some sec, bp_target = Segment seg\<rparr>;
     Some (if endOfIns then add_ins_patch e c
           else add_patch (e\<lparr>bp_origin := bytePos (sections c ! sec)\<rparr>) c) }"

text \<open>The end of an instruction in \<open>genTarget\<close>: its elements get their origin and join the list.\<close>

primrec end_of_instruction :: "BackPatchElement list \<Rightarrow> ByteCode \<Rightarrow> ByteCode option" where
  "end_of_instruction [] c = Some (c\<lparr>insBackPatchList := []\<rparr>)"
| "end_of_instruction (e # es) c = do {
     s \<leftarrow> (case originSection e of Some s \<Rightarrow> Some s | None \<Rightarrow> currSection c);
     end_of_instruction es (add_patch (e\<lparr>bp_origin := bytePos (sections c ! s)\<rparr>) c) }"

text \<open>\<open>LabelInstruction\<close> binds a label to the current position.\<close>

definition bind_label :: "nat \<Rightarrow> ByteCode \<Rightarrow> ByteCode option" where
  "bind_label lab c = do {
     sec \<leftarrow> currSection c;
     Some (c\<lparr>labels := (labels c)(lab \<mapsto> (bytePos (sections c ! sec), sec))\<rparr>) }"

text \<open>Positions relative to the start of the code, as the linker has placed the sections.\<close>

definition origin_pos :: "ByteCode \<Rightarrow> BackPatchElement \<Rightarrow> nat" where
  "origin_pos c e = bp_origin e + (case originSection e of None \<Rightarrow> 0 | Some s \<Rightarrow> origin (sections c ! s))"

definition target_pos :: "ByteCode \<Rightarrow> BackPatchElement \<Rightarrow> nat option" where
  "target_pos c e = (case bp_target e of
      Simple pos sec \<Rightarrow> Some (pos + (case sec of None \<Rightarrow> 0 | Some s \<Rightarrow> origin (sections c ! s)))
    | Label lab _ \<Rightarrow> do { (pos, s) \<leftarrow> labels c lab; Some (pos + origin (sections c ! s)) }
    | Segment seg \<Rightarrow> do { s \<leftarrow> getSection seg SEGMENT_HEADER_SECTION_ID c; Some (origin (sections c ! s)) })"

definition branchCrossesSegments :: "ByteCode \<Rightarrow> BackPatchElement \<Rightarrow> bool" where
  "branchCrossesSegments c e = (case (bp_target e, originSection e) of
      (Label lab True, Some s) \<Rightarrow> (case labels c lab of
          Some (_, s') \<Rightarrow> owner (sections c ! s) \<noteq> None \<and> owner (sections c ! s') \<noteq> None
            \<and> owner (sections c ! s) \<noteq> owner (sections c ! s')
        | None \<Rightarrow> False)
    | _ \<Rightarrow> False)"

subsection \<open>Tables\<close>

primrec putBits16s :: "u16 list \<Rightarrow> ByteCode \<Rightarrow> ByteCode option" where
  "putBits16s [] c = Some c"
| "putBits16s (k # ks) c = do { c \<leftarrow> putBits16 k c; putBits16s ks c }"

definition putNameConsts :: "ByteCodeSegment \<Rightarrow> ByteCode \<Rightarrow> ByteCode option" where
  "putNameConsts seg c = do {
     c \<leftarrow> selectSection NAME_TABLE_SECTION_ID c;
     c \<leftarrow> putBits16 (of_nat (length (nameConsts seg))) c;
     putBits16s (nameConsts seg) c }"

definition putTypeConsts :: "ByteCodeSegment \<Rightarrow> ByteCode \<Rightarrow> ByteCode option" where
  "putTypeConsts seg c = do {
     c \<leftarrow> selectSection TYPE_TABLE_SECTION_ID c;
     c \<leftarrow> putBits16 (of_nat (length (typeConsts seg))) c;
     putBits16s (typeConsts seg) c }"

primrec putImportRecs :: "ImportRecord list \<Rightarrow> ByteCode \<Rightarrow> ByteCode option" where
  "putImportRecs [] c = Some c"
| "putImportRecs (r # rs) c = do {
     c \<leftarrow> putBits16 0 c;
     c \<leftarrow> putBits16 (nameIndex r) c;
     c \<leftarrow> putBits32 (importOffset r) c;
     putImportRecs rs c }"

definition putImports :: "ByteCodeSegment \<Rightarrow> ByteCode \<Rightarrow> ByteCode option" where
  "putImports seg c = do {
     c \<leftarrow> selectSection IMPORT_TABLE_SECTION_ID c;
     c \<leftarrow> putBits16 (of_nat (length (importRecs seg))) c;
     putImportRecs (importRecs seg) c }"

end
