(* ===== verification/Linker.thy ===== *)
theory Linker
  imports Assembler
begin

text \<open>
  The end of \<open>ByteCode::genTarget\<close> (API/ivory/compiler/byteCode.cpp): the tables and the calls of
  the initialisation codes, the origins of the sections, the segment headers, the back-patches
  and the copy into memory.
\<close>

subsection \<open>Linking\<close>

text \<open>
  \<open>terminateSegments\<close> over a list of siblings: the tables of a segment are written after those
  of its children, its initialisation code is called from that of the parent (PCB 168) and
  ends with a return (RTN 150).
\<close>

partial_function (option) terminateSegments ::
  "nat list \<Rightarrow> nat option \<Rightarrow> ByteCode \<Rightarrow> ByteCode option" where
  "terminateSegments segs par c = (case segs of
      [] \<Rightarrow> Some c
    | seg # rest \<Rightarrow> do {
        c \<leftarrow> terminateSegments (children (segments c ! seg)) (Some seg) c;
        let c = c\<lparr>currSegment := Some seg\<rparr>;
        c \<leftarrow> putNameConsts (segments c ! seg) c;
        c \<leftarrow> putTypeConsts (segments c ! seg) c;
        c \<leftarrow> putImports (segments c ! seg) c;
        c \<leftarrow> (case par of
            None \<Rightarrow> Some c
          | Some p \<Rightarrow> do {
              let c = c\<lparr>currSegment := Some p\<rparr>;
              c \<leftarrow> selectInitCodeSection c;
              c \<leftarrow> putByte 168 c;
              c \<leftarrow> putBits32 0 c;
              sec \<leftarrow> currSection c;
              pos \<leftarrow> code_bytePos c;
              let c = addBackPatch (pos - 4) sec pos (Some sec)
                0 (getSection seg INITIALISATION_CODE_SECTION_ID c) False c;
              Some (c\<lparr>currSegment := Some seg\<rparr>) });
        c \<leftarrow> selectInitCodeSection c;
        c \<leftarrow> putByte 150 c;
        terminateSegments rest par c })"

declare terminateSegments.simps [code]

text \<open>\<open>setSectionOrigins\<close>: the origins one after the other, and the total size.\<close>

definition align4 :: "bool \<Rightarrow> nat \<Rightarrow> nat" where
  "align4 al org = (if al \<and> org mod 4 \<noteq> 0 then org + (4 - org mod 4) else org)"

primrec set_origins :: "nat \<Rightarrow> ByteCodeSection list \<Rightarrow> ByteCodeSection list \<times> nat" where
  "set_origins org [] = ([], org)"
| "set_origins org (s # ss) = (let org = align4 (align s) org;
      (ss, sz) = set_origins (org + bytePos s) ss
    in (s\<lparr>origin := org\<rparr> # ss, sz))"

definition setSectionOrigins :: "ByteCode \<Rightarrow> ByteCode \<times> nat" where
  "setSectionOrigins c = (case set_origins 0 (sections c) of (ss, sz) \<Rightarrow> (c\<lparr>sections := ss\<rparr>, sz))"

text \<open>\<open>setSegmentLengths\<close> over a list of siblings: the header words and the entry in the child
  table of the parent.\<close>

partial_function (option) setSegmentLengths :: "nat list \<Rightarrow> ByteCode \<Rightarrow> ByteCode option" where
  "setSegmentLengths segs c = (case segs of
      [] \<Rightarrow> Some c
    | seg # rest \<Rightarrow> do {
        c \<leftarrow> setSegmentLengths (children (segments c ! seg)) c;
        let c = c\<lparr>currSegment := Some seg\<rparr>;
        c \<leftarrow> selectSection SEGMENT_HEADER_SECTION_ID c;
        first \<leftarrow> seg_sections (segments c ! seg);
        final \<leftarrow> lastSection (segments c ! seg);
        rack \<leftarrow> getSection seg RACK_SECTION_ID c;
        ini \<leftarrow> getSection seg INITIALISATION_CODE_SECTION_ID c;
        let start = (of_nat (origin (sections c ! first)) :: u32);
        c \<leftarrow> putBits32At (of_nat (origin (sections c ! final) + bytePos (sections c ! final)) - start) 0 c;
        c \<leftarrow> putBits32At (of_nat (bytePos (sections c ! rack))) 4 c;
        c \<leftarrow> putBits32At 0 8 c;
        c \<leftarrow> putBits32At (of_nat (origin (sections c ! ini)) - start) 12 c;
        let par = parent (segments c ! seg);
        let c = c\<lparr>currSegment := par\<rparr>;
        c \<leftarrow> (case par of
            None \<Rightarrow> Some c
          | Some p \<Rightarrow> do {
              c \<leftarrow> selectSection CHILD_SEGMENT_TABLE_SECTION_ID c;
              pfirst \<leftarrow> seg_sections (segments c ! p);
              putBits32At (start - of_nat (origin (sections c ! pfirst))) (4 + index (segments c ! seg) * 4) c });
        setSegmentLengths rest c })"

declare setSegmentLengths.simps [code]

text \<open>The back-patches: each writes the distance from its origin to its target.\<close>

definition apply_patch :: "BackPatchElement \<Rightarrow> ByteCode \<Rightarrow> ByteCode option" where
  "apply_patch e c = do {
     let c = (if branchCrossesSegments c e
              then c\<lparr>reports := ''ByteCode::genTarget: BRA_INS crosses byte code segments'' # reports c\<rparr> else c);
     target \<leftarrow> target_pos c e;
     putBits32At (of_nat target - of_nat (origin_pos c e)) (bp_pos e) (c\<lparr>currSection := Some (posSection e)\<rparr>) }"

primrec apply_patches :: "BackPatchElement list \<Rightarrow> ByteCode \<Rightarrow> ByteCode option" where
  "apply_patches [] c = Some c"
| "apply_patches (e # es) c = do { c \<leftarrow> apply_patch e c; apply_patches es c }"

text \<open>\<open>copySections\<close>: to the memory from \<open>p\<close> on, padding by the address itself.\<close>

definition padding :: "addr \<Rightarrow> byte list" where
  "padding p = replicate (unat (- p AND 3)) 0"

primrec copy_sections :: "ByteCodeSection list \<Rightarrow> addr \<Rightarrow> memory \<Rightarrow> (ByteCodeSection list \<times> memory) option" where
  "copy_sections [] p m = Some ([], m)"
| "copy_sections (s # ss) p m = do {
     let gap = (if align s then padding p else []);
     m \<leftarrow> write_n gap p m;
     let p = p + of_nat (length gap);
     m \<leftarrow> write_n (bytes s) p m;
     (ss, m) \<leftarrow> copy_sections ss (p + of_nat (bytePos s)) m;
     Some (s\<lparr>bytePtr := p\<rparr> # ss, m) }"

definition copySections :: "addr \<Rightarrow> ByteCode \<Rightarrow> memory \<Rightarrow> (ByteCode \<times> memory) option" where
  "copySections p c m = do {
     (ss, m) \<leftarrow> copy_sections (sections c) p m;
     Some (c\<lparr>sections := ss\<rparr>, m) }"

text \<open>The end of \<open>genTarget\<close>, after the instructions; \<open>alloc\<close> is the result of the allocation.\<close>

definition link :: "(nat \<Rightarrow> addr) \<Rightarrow> ByteCode \<Rightarrow> memory \<Rightarrow> (ByteCode \<times> memory) option" where
  "link alloc c m = do {
     let roots = (case rootSegment c of None \<Rightarrow> [] | Some root \<Rightarrow> [root]);
     c \<leftarrow> terminateSegments roots None c;
     let (c, sz) = setSectionOrigins c;
     c \<leftarrow> setSegmentLengths roots c;
     c \<leftarrow> apply_patches (backPatchList c) (c\<lparr>backPatchList := []\<rparr>);
     copySections (alloc sz) c m }"

subsection \<open>Layout\<close>

lemma align4_mod: "al \<Longrightarrow> align4 al n mod 4 = 0"
  unfolding align4_def by (auto, presburger)

lemma align4_ge: "n \<le> align4 al n" "align4 al n < n + 4" "align4 False n = n"
  by (auto simp: align4_def)

lemma set_origins_length: "set_origins org ss = (ss', sz) \<Longrightarrow> length ss' = length ss \<and> org \<le> sz"
proof (induction ss arbitrary: org ss' sz)
  case (Cons s ss)
  then obtain ss1 where "set_origins (align4 (align s) org + bytePos s) ss = (ss1, sz)" "length ss' = Suc (length ss1)"
    by (auto simp: Let_def split: prod.splits)
  with Cons.IH [OF this(1)] align4_ge(1) [of org "align s"] show ?case by simp
qed simp

text \<open>The padding by address and the padding by origin agree when the memory is aligned.\<close>

lemma uint_and_3: "uint ((word_of_int x :: u32) AND 3) = x mod 4"
proof -
  have "uint ((word_of_int x :: u32) AND 3) = uint (word_of_int x :: u32) AND 3" by (simp add: uint_and)
  also have "... = uint (word_of_int x :: u32) mod 4"
    using take_bit_eq_mask [of 2 "uint (word_of_int x :: u32)"] by (simp add: take_bit_eq_mod mask_eq_exp_minus_1)
  also have "... = x mod 4" by (simp add: unsigned_of_int take_bit_eq_mod mod_mod_cancel)
  finally show ?thesis .
qed

lemma mod4_facts:
  "x mod 4 = 0 \<Longrightarrow> (- (x + y)) mod 4 = (- y) mod 4" for x y :: int
  by presburger

lemma mod4_nat: "nat ((- int n) mod 4) = (if n mod 4 \<noteq> 0 then 4 - n mod 4 else 0)"
proof -
  have m: "int n mod 4 = int (n mod 4)" by (simp add: zmod_int)
  show ?thesis by (simp add: zmod_zminus1_eq_if m nat_diff_distrib)
qed

lemma padding_length:
  assumes "p AND 3 = 0"
  shows "length (if al then padding (p + of_nat n) else []) = align4 al n - n"
proof -
  have p: "uint p mod 4 = 0" using uint_and_3 [of "uint p"] assms by simp
  have "uint (- (p + of_nat n) AND 3) = (- (uint p + int n)) mod 4"
    using uint_and_3 [of "- (uint p + int n)"] by simp
  also have "... = (- int n) mod 4" by (rule mod4_facts [OF p])
  finally have u: "unat (- (p + of_nat n) AND 3) = (if n mod 4 \<noteq> 0 then 4 - n mod 4 else 0)"
    by (metis nat_uint_eq mod4_nat)
  then show ?thesis by (simp add: padding_def align4_def u)
qed

text \<open>The addresses from offset \<open>i\<close> to offset \<open>j\<close> of a block, by their offset.\<close>

lemma span_offsets: "j \<le> 2 ^ 32 \<Longrightarrow> a \<in> span (p + of_nat i) (j - i) \<longleftrightarrow> i \<le> unat (a - p) \<and> unat (a - p) < j"
  if "i \<le> j" for a p :: addr
proof -
  assume j: "j \<le> 2 ^ 32"
  have u: "unat (of_nat x :: addr) = x" if "x < 2 ^ 32" for x using that by (simp add: unat_of_nat)
  show ?thesis
  proof
    assume "a \<in> span (p + of_nat i) (j - i)"
    then obtain x where "x < j - i" "a - p = of_nat (i + x)" by (auto simp: span_def)
    with u [of "i + x"] j show "i \<le> unat (a - p) \<and> unat (a - p) < j" by simp
  next
    assume r: "i \<le> unat (a - p) \<and> unat (a - p) < j"
    have "a = p + of_nat (unat (a - p))" by simp
    also have "... = p + of_nat i + of_nat (unat (a - p) - i)" using r by (simp add: of_nat_diff)
    finally show "a \<in> span (p + of_nat i) (j - i)" using r by (auto simp: span_def intro!: exI [of _ "unat (a - p) - i"])
  qed
qed

lemma write_n_code:
  assumes "write_n bs a m = Some m'" "length bs \<le> 2 ^ 32"
  shows "code_at m' a bs"
  using read_after_write [OF assms] by (simp add: code_at_def)

lemma code_at_cong: "code_at m a bs \<Longrightarrow> (\<And>x. x \<in> span a (length bs) \<Longrightarrow> m' x = m x) \<Longrightarrow> code_at m' a bs"
  unfolding code_at_def by (subst read_n_cong [of _ _ m' m]) auto

text \<open>Where the sections end up: each one at the base plus its origin, whatever the sections are.\<close>

lemma copy_sections_placed:
  assumes "p AND 3 = 0" "set_origins n ss = (ss', sz)" "sz < 2 ^ 32" "span p sz \<subseteq> dom m"
  shows "\<exists>ss2 m'. copy_sections ss' (p + of_nat n) m = Some (ss2, m') \<and> dom m' = dom m
    \<and> (\<forall>a. a \<notin> span (p + of_nat n) (sz - n) \<longrightarrow> m' a = m a)
    \<and> length ss2 = length ss'
    \<and> (\<forall>i < length ss'. ss2 ! i = (ss' ! i)\<lparr>bytePtr := p + of_nat (origin (ss' ! i))\<rparr>
        \<and> n \<le> origin (ss' ! i) \<and> origin (ss' ! i) + bytePos (ss' ! i) \<le> sz
        \<and> code_at m' (p + of_nat (origin (ss' ! i))) (bytes (ss' ! i)))"
  using assms(2-4)
proof (induction ss arbitrary: n ss' sz m)
  case Nil
  then show ?case by auto
next
  case (Cons s ss)
  define k where "k = align4 (align s) n"
  define e where "e = k + bytePos s"
  obtain ss1 where ss1: "set_origins e ss = (ss1, sz)" "ss' = s\<lparr>origin := k\<rparr> # ss1"
    using Cons.prems(1) by (auto simp: Let_def k_def e_def split: prod.splits)
  have nk: "n \<le> k" unfolding k_def by (rule align4_ge)
  have esz: "e \<le> sz" using set_origins_length [OF ss1(1)] by simp
  define gap where "gap = (if align s then padding (p + of_nat n) else [])"
  have gl: "length gap = k - n" unfolding gap_def k_def by (rule padding_length [OF assms(1)])
  have pk: "p + of_nat n + of_nat (length gap) = p + of_nat k" using nk by (simp add: gl)
  have in_dom: "span (p + of_nat i) (j - i) \<subseteq> dom m'" if "i \<le> j" "j \<le> sz" "dom m' = dom m" for i j m'
    using span_offsets [of i j _ p] span_offsets [of 0 sz _ p] that Cons.prems(2,3) by fastforce
  have kn: "k \<le> sz" using esz by (simp add: e_def)
  obtain m1 where m1: "write_n gap (p + of_nat n) m = Some m1"
    using write_n_defined [of gap "p + of_nat n" m] in_dom [of n k m] nk kn by (auto simp: gl)
  have d1: "dom m1 = dom m" by (rule write_n_dom [OF m1])
  obtain m2 where m2: "write_n (bytes s) (p + of_nat k) m1 = Some m2"
    using write_n_defined [of "bytes s" "p + of_nat k" m1] in_dom [of k e m1] esz d1 by (auto simp: e_def)
  have d2: "dom m2 = dom m" using write_n_dom [OF m2] d1 by simp
  from Cons.IH [OF ss1(1), of m2] Cons.prems(2,3) d2
  obtain ss2 m3 where m3: "copy_sections ss1 (p + of_nat e) m2 = Some (ss2, m3)" "dom m3 = dom m2"
    "\<forall>a. a \<notin> span (p + of_nat e) (sz - e) \<longrightarrow> m3 a = m2 a" "length ss2 = length ss1"
    "\<forall>i < length ss1. ss2 ! i = (ss1 ! i)\<lparr>bytePtr := p + of_nat (origin (ss1 ! i))\<rparr>
        \<and> e \<le> origin (ss1 ! i) \<and> origin (ss1 ! i) + bytePos (ss1 ! i) \<le> sz
        \<and> code_at m3 (p + of_nat (origin (ss1 ! i))) (bytes (ss1 ! i))"
    by auto
  have c: "copy_sections ss' (p + of_nat n) m = Some (s\<lparr>origin := k, bytePtr := p + of_nat k\<rparr> # ss2, m3)"
    using m1 m2 m3(1) pk by (simp add: ss1(2) flip: gap_def) (simp add: e_def add.assoc)
  have "code_at m2 (p + of_nat k) (bytes s)"
    using write_n_code [OF m2] esz Cons.prems(2) by (simp add: e_def)
  then have code: "code_at m3 (p + of_nat k) (bytes s)"
  proof (rule code_at_cong)
    fix x assume "x \<in> span (p + of_nat k) (length (bytes s))"
    then have "x \<notin> span (p + of_nat e) (sz - e)"
      using span_offsets [of k e x p] span_offsets [of e sz x p] esz Cons.prems(2) by (auto simp: e_def)
    then show "m3 x = m2 x" using m3(3) by blast
  qed
  have out: "m3 x = m x" if "x \<notin> span (p + of_nat n) (sz - n)" for x
  proof -
    have "x \<notin> span (p + of_nat n) (length gap)" "x \<notin> span (p + of_nat k) (length (bytes s))"
      "x \<notin> span (p + of_nat e) (sz - e)"
      using that span_offsets [of n sz x p] span_offsets [of n k x p] span_offsets [of k e x p]
        span_offsets [of e sz x p] esz nk kn Cons.prems(2) by (auto simp: e_def gl)
    then show ?thesis
      using m3(3) write_n_outside [OF m2] write_n_outside [OF m1] by simp
  qed
  have all: "(s\<lparr>origin := k, bytePtr := p + of_nat k\<rparr> # ss2) ! i
        = (ss' ! i)\<lparr>bytePtr := p + of_nat (origin (ss' ! i))\<rparr>
        \<and> n \<le> origin (ss' ! i) \<and> origin (ss' ! i) + bytePos (ss' ! i) \<le> sz
        \<and> code_at m3 (p + of_nat (origin (ss' ! i))) (bytes (ss' ! i))" if "i < length ss'" for i
  proof (cases i)
    case 0
    then show ?thesis using code nk esz by (simp add: ss1(2) e_def)
  next
    case (Suc j)
    then have "j < length ss1" using that ss1(2) by simp
    moreover have "n \<le> e" using nk by (simp add: e_def)
    ultimately show ?thesis using m3(5) Suc by (auto simp: ss1(2))
  qed
  show ?case
    using c d2 m3(2,4) out all ss1(2) by (intro exI [of _ "s\<lparr>origin := k, bytePtr := p + of_nat k\<rparr> # ss2"] exI [of _ m3]) simp
qed

subsection \<open>What patching leaves alone\<close>

definition skel :: "ByteCodeSection \<Rightarrow> ByteCodeSection" where
  "skel s = s\<lparr>bytes := replicate (bytePos s) 0\<rparr>"

definition same_layout :: "ByteCode \<Rightarrow> ByteCode \<Rightarrow> bool" where
  "same_layout c c' \<longleftrightarrow> segments c' = segments c \<and> labels c' = labels c \<and> backPatchList c' = backPatchList c
     \<and> List.map skel (sections c') = List.map skel (sections c)"

lemma same_layout_refl [simp, intro!]: "same_layout c c"
  by (simp add: same_layout_def)

lemma same_layout_trans [trans]: "same_layout a b \<Longrightarrow> same_layout b c \<Longrightarrow> same_layout a c"
  by (simp add: same_layout_def)

lemma same_layout_fields [simp]:
  "same_layout c (c'\<lparr>currSection := x\<rparr>) = same_layout c c'"
  "same_layout c (c'\<lparr>currSegment := y\<rparr>) = same_layout c c'"
  "same_layout c (c'\<lparr>reports := z\<rparr>) = same_layout c c'"
  "same_layout (c\<lparr>currSection := x\<rparr>) c' = same_layout c c'"
  "same_layout (c\<lparr>currSegment := y\<rparr>) c' = same_layout c c'"
  "same_layout (c\<lparr>reports := z\<rparr>) c' = same_layout c c'"
  by (simp_all add: same_layout_def)

lemma skel_update: "skel (f s) = skel s \<Longrightarrow> s = ss ! i \<Longrightarrow> List.map skel (ss[i := f s]) = List.map skel ss"
  by (metis list_update_id map_update)

lemma same_layout_on_section:
  "(\<And>s. skel (f s) = skel s) \<Longrightarrow> same_layout c (on_section i f c)"
  by (simp add: same_layout_def on_section_def skel_update)

lemma skel_putByteAt [simp]: "skel (sec_putByteAt v pos s) = skel s"
  by (simp add: skel_def sec_putByteAt_def)

lemma putByteAt_layout: "putByteAt v pos c = Some c' \<Longrightarrow> same_layout c c'"
  by (auto simp: putByteAt_def bind_simps intro: same_layout_on_section)

lemma putBits32At_layout: "putBits32At v pos c = Some c' \<Longrightarrow> same_layout c c'"
  by (auto simp: putBits32At_def bind_simps dest!: putByteAt_layout intro: same_layout_trans)

lemma selectSection_layout: "selectSection i c = Some c' \<Longrightarrow> same_layout c c'"
  by (auto simp: selectSection_def bind_simps)

lemma skel_nth:
  assumes "List.map skel ss' = List.map skel ss" "i < length ss"
  shows "skel (ss' ! i) = skel (ss ! i)"
  using assms by (metis length_map nth_map)

lemma skel_eqD: "skel s' = skel s \<Longrightarrow> sec_id s' = sec_id s \<and> align s' = align s \<and> origin s' = origin s
    \<and> owner s' = owner s \<and> bytePos s' = bytePos s"
  unfolding skel_def by (drule arg_cong [where f = "\<lambda>s. (sec_id s, align s, origin s, owner s, length (bytes s))"]) simp

lemma same_layout_section:
  assumes "same_layout c c'"
  shows "length (sections c') = length (sections c)"
    "i < length (sections c) \<Longrightarrow> sec_id (sections c' ! i) = sec_id (sections c ! i)"
    "i < length (sections c) \<Longrightarrow> origin (sections c' ! i) = origin (sections c ! i)"
    "i < length (sections c) \<Longrightarrow> bytePos (sections c' ! i) = bytePos (sections c ! i)"
    "i < length (sections c) \<Longrightarrow> align (sections c' ! i) = align (sections c ! i)"
    "i < length (sections c) \<Longrightarrow> owner (sections c' ! i) = owner (sections c ! i)"
  using assms skel_nth [of "sections c'" "sections c" i] map_eq_imp_length_eq [of skel "sections c'" skel "sections c"]
  by (auto simp: same_layout_def dest: skel_eqD)

lemma find_cong: "(\<And>x. x \<in> set xs \<Longrightarrow> P x = Q x) \<Longrightarrow> List.find P xs = List.find Q xs"
  by (induction xs) auto

text \<open>The first section of every segment exists.\<close>

definition segments_ok :: "ByteCode \<Rightarrow> bool" where
  "segments_ok c \<longleftrightarrow> (\<forall>seg \<in> set (segments c). pred_option (\<lambda>i. i < length (sections c)) (seg_sections seg))"

lemma getSection_layout:
  assumes "same_layout c c'" "segments_ok c" "seg < length (segments c)"
  shows "getSection seg i c' = getSection seg i c"
proof -
  have s: "segments c' = segments c" using assms(1) by (simp add: same_layout_def)
  show ?thesis
  proof (cases "seg_sections (segments c ! seg)")
    case (Some first)
    then have f: "first < length (sections c)" using assms(2,3) nth_mem by (fastforce simp: segments_ok_def)
    show ?thesis
      unfolding getSection_def s Some option.case same_layout_section(1) [OF assms(1)]
      by (rule find_cong) (use f same_layout_section(2) [OF assms(1)] in auto)
  qed (simp add: getSection_def s)
qed

lemma setSegmentLengths_layout:
  assumes "setSegmentLengths segs c = Some c'"
  shows "same_layout c c'"
proof (rule setSegmentLengths.raw_induct [of "\<lambda>_. same_layout", OF _ assms], goal_cases)
  case (1 f segs c c')
  show ?case
  proof (cases segs)
    case Nil
    then show ?thesis using 1(2) by simp
  next
    case (Cons seg rest)
    with 1(2) show ?thesis
      by (auto simp: Let_def bind_simps split: option.splits
          dest!: 1(1) putBits32At_layout selectSection_layout) (simp_all add: same_layout_def)
  qed
qed

lemma apply_patch_layout: "apply_patch e c = Some c' \<Longrightarrow> same_layout c c'"
  by (auto simp: apply_patch_def Let_def bind_simps dest!: putBits32At_layout split: if_splits)

text \<open>Positions do not depend on the bytes.\<close>

definition patch_ok :: "ByteCode \<Rightarrow> BackPatchElement \<Rightarrow> bool" where
  "patch_ok c e \<longleftrightarrow> posSection e < length (sections c)
     \<and> bp_pos e + 4 \<le> bytePos (sections c ! posSection e)
     \<and> pred_option (\<lambda>s. s < length (sections c)) (originSection e)
     \<and> (case bp_target e of
          Simple pos sec \<Rightarrow> pred_option (\<lambda>s. s < length (sections c)) sec
        | Label lab _ \<Rightarrow> pred_option (\<lambda>(pos, s). s < length (sections c)) (labels c lab)
        | Segment seg \<Rightarrow> seg < length (segments c)
            \<and> pred_option (\<lambda>s. s < length (sections c)) (getSection seg SEGMENT_HEADER_SECTION_ID c))"

lemma patch_positions:
  assumes "same_layout c c'" "patch_ok c e" "segments_ok c"
  shows "origin_pos c' e = origin_pos c e" "target_pos c' e = target_pos c e"
proof -
  note l = same_layout_section [OF assms(1)]
  show "origin_pos c' e = origin_pos c e"
    using assms(2) l(3) by (auto simp: origin_pos_def patch_ok_def split: option.splits)
  show "target_pos c' e = target_pos c e"
  proof (cases "bp_target e")
    case (Simple pos sec)
    then show ?thesis using assms(2) l(3) by (auto simp: target_pos_def patch_ok_def split: option.splits)
  next
    case (Label lab f)
    moreover have "labels c' = labels c" using assms(1) by (simp add: same_layout_def)
    ultimately show ?thesis
      using assms(2) l(3) by (cases "labels c lab") (auto simp: target_pos_def patch_ok_def)
  next
    case (Segment seg)
    then show ?thesis
      using assms(2) l(3) getSection_layout [OF assms(1,3)]
      by (cases "getSection seg SEGMENT_HEADER_SECTION_ID c") (auto simp: target_pos_def patch_ok_def)
  qed
qed

lemma patch_ok_layout:
  assumes "same_layout c c'" "segments_ok c"
  shows "patch_ok c' e = patch_ok c e" "segments_ok c'"
proof -
  have "segments c' = segments c" "labels c' = labels c" using assms(1) by (simp_all add: same_layout_def)
  with getSection_layout [OF assms] same_layout_section [OF assms(1)]
  show "patch_ok c' e = patch_ok c e"
    by (auto simp: patch_ok_def split: binding.splits)
  show "segments_ok c'"
    using assms same_layout_section(1) [OF assms(1)] by (simp add: segments_ok_def same_layout_def)
qed

subsection \<open>What patching writes\<close>

definition patch_bytes :: "nat \<Rightarrow> u32 \<Rightarrow> byte list \<Rightarrow> byte list" where
  "patch_bytes pos v bs = bs[pos := byte_of v 0, pos + 1 := byte_of v 1, pos + 2 := byte_of v 2, pos + 3 := byte_of v 3]"

lemma on_section_comp [simp]: "on_section i g (on_section i f c) = on_section i (\<lambda>s. g (f s)) c"
  by (cases "i < length (sections c)") (simp_all add: on_section_def list_update_beyond)

lemma on_section_fields [simp]:
  "currSection (on_section i f c) = currSection c" "currSegment (on_section i f c) = currSegment c"
  "segments (on_section i f c) = segments c" "labels (on_section i f c) = labels c"
  "backPatchList (on_section i f c) = backPatchList c" "length (sections (on_section i f c)) = length (sections c)"
  by (simp_all add: on_section_def)

lemma putBits32At_section:
  assumes "putBits32At v pos c = Some c'" "currSection c = Some i"
  shows "c' = on_section i (\<lambda>s. s\<lparr>bytes := patch_bytes pos v (bytes s)\<rparr>) c"
  using assms
  by (simp add: putBits32At_def putByteAt_def sec_putByteAt_def patch_bytes_def bind_simps low_byte byte_of_def
      numeral_eq_Suc)

definition apart :: "BackPatchElement \<Rightarrow> BackPatchElement \<Rightarrow> bool" where
  "apart e e' \<longleftrightarrow> posSection e \<noteq> posSection e' \<or> bp_pos e + 4 \<le> bp_pos e' \<or> bp_pos e' + 4 \<le> bp_pos e"

definition patch_value :: "ByteCode \<Rightarrow> BackPatchElement \<Rightarrow> u32 option" where
  "patch_value c e = map_option (\<lambda>t. of_nat t - of_nat (origin_pos c e)) (target_pos c e)"

definition patched :: "ByteCode \<Rightarrow> BackPatchElement \<Rightarrow> u32 \<Rightarrow> bool" where
  "patched c e v \<longleftrightarrow> take 4 (drop (bp_pos e) (bytes (sections c ! posSection e))) = le_bytes 4 (ucast v)"

lemma patch_bytes_nth: "pos + 4 \<le> length bs \<Longrightarrow> j < length bs \<Longrightarrow>
    patch_bytes pos v bs ! j = (if pos \<le> j \<and> j < pos + 4 then byte_of v (j - pos) else bs ! j)"
proof -
  assume a: "pos + 4 \<le> length bs" "j < length bs"
  have "pos \<le> j \<and> j < pos + 4 \<Longrightarrow> j \<in> {pos, pos + 1, pos + 2, pos + 3}" by auto
  with a show ?thesis by (auto simp: patch_bytes_def nth_list_update)
qed

lemma byte_of_ucast: "k < 4 \<Longrightarrow> byte_of (ucast (v :: u32) :: u64) k = byte_of v k"
  by (intro bit_word_eqI) (auto simp: bit_simps dest: bit_imp_le_length)

lemma report_positions:
  "target_pos (c\<lparr>reports := r\<rparr>) e = target_pos c e" "origin_pos (c\<lparr>reports := r\<rparr>) e = origin_pos c e"
  by (cases "bp_target e"; simp add: target_pos_def getSection_def split: option.split)
    (simp add: origin_pos_def split: option.split)

lemma apply_patch_spec:
  assumes "apply_patch e c = Some c'" "patch_ok c e"
  shows "\<exists>v. patch_value c e = Some v \<and> patched c' e v
    \<and> (\<forall>i < length (sections c). \<forall>j < bytePos (sections c ! i).
         \<not> (posSection e = i \<and> bp_pos e \<le> j \<and> j < bp_pos e + 4) \<longrightarrow>
         bytes (sections c' ! i) ! j = bytes (sections c ! i) ! j)"
proof -
  define cr where "cr = (if branchCrossesSegments c e
    then c\<lparr>reports := ''ByteCode::genTarget: BRA_INS crosses byte code segments'' # reports c\<rparr> else c)"
  have cr: "target_pos cr e = target_pos c e" "origin_pos cr e = origin_pos c e" "sections cr = sections c"
    by (simp_all add: cr_def report_positions)
  define c1 where "c1 = cr\<lparr>currSection := Some (posSection e)\<rparr>"
  have c1: "sections c1 = sections c" "currSection c1 = Some (posSection e)"
    by (simp_all add: c1_def cr(3))
  from assms(1) obtain t where t: "target_pos c e = Some t"
    and p: "putBits32At (of_nat t - of_nat (origin_pos c e)) (bp_pos e) c1 = Some c'"
    unfolding apply_patch_def Let_def cr_def [symmetric] c1_def [symmetric] by (auto simp: bind_simps cr(1,2))
  let ?v = "of_nat t - of_nat (origin_pos c e) :: u32"
  let ?i = "posSection e"
  have i: "?i < length (sections c)" and n: "bp_pos e + 4 \<le> bytePos (sections c ! ?i)"
    using assms(2) by (auto simp: patch_ok_def)
  from putBits32At_section [OF p c1(2)] i
  have s': "sections c' = (sections c)[?i := (sections c ! ?i)\<lparr>bytes := patch_bytes (bp_pos e) ?v (bytes (sections c ! ?i))\<rparr>]"
    by (simp add: on_section_def c1(1))
  have "patched c' e ?v"
    unfolding patched_def using i n
    by (intro nth_equalityI) (auto simp: s' le_bytes_def patch_bytes_nth byte_of_ucast, simp add: patch_bytes_def)
  moreover have "patch_value c e = Some ?v" by (simp add: patch_value_def t)
  moreover have "bytes (sections c' ! i') ! j = bytes (sections c ! i') ! j"
    if "i' < length (sections c)" "j < bytePos (sections c ! i')" "\<not> (?i = i' \<and> bp_pos e \<le> j \<and> j < bp_pos e + 4)" for i' j
    using that i n by (cases "i' = ?i") (auto simp: s' patch_bytes_nth)
  ultimately show ?thesis by blast
qed

lemma patched_untouched:
  assumes "patched c e v" "bp_pos e + 4 \<le> bytePos (sections c ! posSection e)"
    and "bytePos (sections c' ! posSection e) = bytePos (sections c ! posSection e)"
    and "\<And>j. bp_pos e \<le> j \<Longrightarrow> j < bp_pos e + 4 \<Longrightarrow>
      bytes (sections c' ! posSection e) ! j = bytes (sections c ! posSection e) ! j"
  shows "patched c' e v"
proof -
  have "take 4 (drop (bp_pos e) (bytes (sections c' ! posSection e)))
      = take 4 (drop (bp_pos e) (bytes (sections c ! posSection e)))"
    using assms(2-4) by (intro nth_equalityI) auto
  with assms(1) show ?thesis by (simp add: patched_def)
qed

lemma apply_patches_spec:
  assumes "apply_patches es c = Some c'" "sorted_wrt apart es" "\<forall>e \<in> set es. patch_ok c e" "segments_ok c"
  shows "same_layout c c'
    \<and> (\<forall>e \<in> set es. \<exists>v. patch_value c e = Some v \<and> patched c' e v)
    \<and> (\<forall>i < length (sections c). \<forall>j < bytePos (sections c ! i).
         (\<forall>e \<in> set es. \<not> (posSection e = i \<and> bp_pos e \<le> j \<and> j < bp_pos e + 4)) \<longrightarrow>
         bytes (sections c' ! i) ! j = bytes (sections c ! i) ! j)"
  using assms
proof (induction es arbitrary: c)
  case Nil
  then show ?case by simp
next
  case (Cons e es)
  then obtain c1 where c1: "apply_patch e c = Some c1" "apply_patches es c1 = Some c'" by (auto simp: bind_simps)
  have l1: "same_layout c c1" by (rule apply_patch_layout [OF c1(1)])
  have ok: "patch_ok c e" using Cons.prems(3) by simp
  have ok1: "\<forall>e \<in> set es. patch_ok c1 e" "segments_ok c1"
    using Cons.prems(3,4) patch_ok_layout [OF l1 Cons.prems(4)] by simp_all
  obtain v where v: "patch_value c e = Some v" "patched c1 e v"
    and same1: "\<And>i j. i < length (sections c) \<Longrightarrow> j < bytePos (sections c ! i) \<Longrightarrow>
      \<not> (posSection e = i \<and> bp_pos e \<le> j \<and> j < bp_pos e + 4) \<Longrightarrow>
      bytes (sections c1 ! i) ! j = bytes (sections c ! i) ! j"
    using apply_patch_spec [OF c1(1) ok] by blast
  have srt: "sorted_wrt apart es" using Cons.prems(2) by simp
  note IH0 = Cons.IH [OF c1(2) srt ok1]
  have IH: "same_layout c1 c'" "\<forall>e \<in> set es. \<exists>v. patch_value c1 e = Some v \<and> patched c' e v"
    "\<And>i j. i < length (sections c1) \<Longrightarrow> j < bytePos (sections c1 ! i) \<Longrightarrow>
         \<forall>e \<in> set es. \<not> (posSection e = i \<and> bp_pos e \<le> j \<and> j < bp_pos e + 4) \<Longrightarrow>
         bytes (sections c' ! i) ! j = bytes (sections c1 ! i) ! j"
    by (rule conjunct1 [OF IH0], rule conjunct1 [OF conjunct2 [OF IH0]]) (use IH0 in blast)
  note s1 = same_layout_section [OF l1] and s2 = same_layout_section [OF IH(1)]
  have pos: "posSection e < length (sections c1)" "bp_pos e + 4 \<le> bytePos (sections c1 ! posSection e)"
    using ok s1(1,4) by (simp_all add: patch_ok_def)
  have "patched c' e v"
    by (rule patched_untouched [OF v(2) pos(2) s2(4) [OF pos(1)]], rule IH(3) [OF pos(1)])
      (use pos Cons.prems(2) in \<open>auto simp: apart_def\<close>)
  moreover have "patch_value c1 e' = patch_value c e'" if "e' \<in> set es" for e'
    using patch_positions [OF l1 _ Cons.prems(4), of e'] Cons.prems(3) that by (simp add: patch_value_def)
  ultimately have "\<forall>e \<in> set (e # es). \<exists>v. patch_value c e = Some v \<and> patched c' e v"
    using v(1) IH(2) by auto
  moreover have "same_layout c c'" using l1 IH(1) by (rule same_layout_trans)
  moreover have "bytes (sections c' ! i) ! j = bytes (sections c ! i) ! j"
    if "i < length (sections c)" "j < bytePos (sections c ! i)"
      "\<forall>e \<in> set (e # es). \<not> (posSection e = i \<and> bp_pos e \<le> j \<and> j < bp_pos e + 4)" for i j
    using IH(3) [of i j] same1 [of i j] s1(1,4) that by simp
  ultimately show ?case by blast
qed

lemma set_origins_skel:
  "set_origins n ss = (ss', sz) \<Longrightarrow> List.map skel ss3 = List.map skel ss' \<Longrightarrow> set_origins n ss3 = (ss3, sz)"
proof (induction ss arbitrary: n ss' ss3)
  case (Cons s ss)
  then obtain ss1 where ss1: "set_origins (align4 (align s) n + bytePos s) ss = (ss1, sz)"
    "ss' = s\<lparr>origin := align4 (align s) n\<rparr> # ss1"
    by (auto simp: Let_def split: prod.splits)
  from Cons.prems(2) obtain s3 ss4 where s3: "ss3 = s3 # ss4" "skel s3 = skel (s\<lparr>origin := align4 (align s) n\<rparr>)"
    "List.map skel ss4 = List.map skel ss1"
    by (auto simp: ss1(2))
  have "align s3 = align s" "bytePos s3 = bytePos s" "origin s3 = align4 (align s) n"
    using skel_eqD [OF s3(2)] by simp_all
  moreover from this have "s3\<lparr>origin := align4 (align s) n\<rparr> = s3" by simp
  ultimately show ?case using Cons.IH [OF ss1(1) s3(3)] by (simp add: s3(1))
qed auto

lemma take_drop_code:
  assumes "code_at m a bs" "pos + n \<le> length bs"
  shows "code_at m (a + of_nat pos) (take n (drop pos bs))"
proof -
  have "bs = take pos bs @ take n (drop pos bs) @ drop (pos + n) bs"
    by (metis append_take_drop_id drop_drop add.commute)
  with assms(1) have "code_at m a (take pos bs @ take n (drop pos bs) @ drop (pos + n) bs)" by simp
  then show ?thesis using assms(2) by simp
qed

lemma extInt4_code: "code_at m a (le_bytes 4 (ucast (v :: u32))) \<Longrightarrow> extInt4 m a = Some (v, a + 4)"
proof -
  assume "code_at m a (le_bytes 4 (ucast v))"
  then have "load_n 4 m a = Some (take_bit 32 (ucast v))" by (auto dest: load_code)
  moreover have "ucast (take_bit 32 (ucast v :: u64)) = v" by (intro bit_word_eqI) (simp add: bit_simps)
  ultimately show ?thesis by (simp add: extInt4_def extBits32_load)
qed

lemma origins_layout: "setSectionOrigins c = (c1, sz) \<Longrightarrow> segments c1 = segments c \<and> labels c1 = labels c
    \<and> backPatchList c1 = backPatchList c \<and> length (sections c1) = length (sections c)
    \<and> (\<forall>i < length (sections c). sec_id (sections c1 ! i) = sec_id (sections c ! i)
        \<and> bytePos (sections c1 ! i) = bytePos (sections c ! i))"
proof -
  have "set_origins n ss = (ss', sz) \<Longrightarrow> length ss' = length ss \<and>
      (\<forall>i < length ss. sec_id (ss' ! i) = sec_id (ss ! i) \<and> bytes (ss' ! i) = bytes (ss ! i))" for n ss ss'
  proof (induction ss arbitrary: n ss')
    case (Cons s ss)
    then obtain ss1 where "set_origins (align4 (align s) n + bytePos s) ss = (ss1, sz)"
      "ss' = s\<lparr>origin := align4 (align s) n\<rparr> # ss1"
      by (auto simp: Let_def split: prod.splits)
    with Cons.IH [OF this(1)] show ?case by (auto simp: less_Suc_eq_0_disj)
  qed auto
  then show "setSectionOrigins c = (c1, sz) \<Longrightarrow> ?thesis"
    by (auto simp: setSectionOrigins_def split: prod.splits)
qed

lemma patch_ok_origins:
  assumes "setSectionOrigins c = (c1, sz)" "segments_ok c"
  shows "segments_ok c1" "patch_ok c1 e = patch_ok c e"
proof -
  note o = origins_layout [OF assms(1)]
  show "segments_ok c1" using assms(2) o by (simp add: segments_ok_def)
  have "getSection seg i c1 = getSection seg i c" if "seg < length (segments c)" for seg i
  proof (cases "seg_sections (segments c ! seg)")
    case (Some first)
    then have "first < length (sections c)" using assms(2) that nth_mem by (fastforce simp: segments_ok_def)
    then show ?thesis using o Some by (auto simp: getSection_def intro!: find_cong)
  qed (use o in \<open>simp add: getSection_def\<close>)
  then show "patch_ok c1 e = patch_ok c e" using o by (auto simp: patch_ok_def split: binding.splits)
qed

lemma link_resolves:
  assumes "setSectionOrigins c = (c1, sz)" "setSegmentLengths segs c1 = Some c2"
    and "apply_patches (backPatchList c2) (c2\<lparr>backPatchList := []\<rparr>) = Some c3"
    and "sorted_wrt apart (backPatchList c)" "\<forall>e \<in> set (backPatchList c). patch_ok c e" "segments_ok c"
    and "p AND 3 = 0" "sz < 2 ^ 32" "span p sz \<subseteq> dom m"
  shows "\<exists>c4 m'. copySections p c3 m = Some (c4, m') \<and> (\<forall>a. a \<notin> span p sz \<longrightarrow> m' a = m a)
    \<and> (\<forall>i < length (sections c). bytePtr (sections c4 ! i) = p + of_nat (origin (sections c1 ! i))
        \<and> code_at m' (bytePtr (sections c4 ! i)) (bytes (sections c3 ! i)))
    \<and> (\<forall>e \<in> set (backPatchList c). \<exists>v t pos. pos = bytePtr (sections c4 ! posSection e) + of_nat (bp_pos e)
        \<and> extInt4 m' pos = Some (v, pos + 4) \<and> target_pos c1 e = Some t
        \<and> (p + of_nat (origin_pos c1 e)) + v = p + of_nat t)"
proof -
  note o = origins_layout [OF assms(1)] and po = patch_ok_origins [OF assms(1,6)]
  have l2: "same_layout c1 c2" by (rule setSegmentLengths_layout [OF assms(2)])
  let ?c2 = "c2\<lparr>backPatchList := []\<rparr>"
  have bp: "backPatchList c2 = backPatchList c" using l2 o by (simp add: same_layout_def)
  have ok2: "segments_ok c2" "\<forall>e \<in> set (backPatchList c). patch_ok c2 e"
    using patch_ok_layout [OF l2 po(1)] po(2) assms(5) by simp_all
  have drop: "segments_ok ?c2 = segments_ok c2" "patch_ok ?c2 e = patch_ok c2 e"
    "patch_value ?c2 e = patch_value c2 e" for e
    by (simp_all add: segments_ok_def patch_ok_def getSection_def patch_value_def target_pos_def origin_pos_def
        split: binding.splits option.splits)
  have l3: "same_layout ?c2 c3" and pt: "\<forall>e \<in> set (backPatchList c). \<exists>v. patch_value c2 e = Some v \<and> patched c3 e v"
    using apply_patches_spec [OF assms(3)] assms(4) ok2 by (simp_all add: bp drop)
  have skels: "List.map skel (sections c3) = List.map skel (sections c1)"
    using l2 l3 by (simp add: same_layout_def)
  obtain ss where so: "set_origins 0 (sections c) = (ss, sz)" "sections c1 = ss"
    using assms(1) by (auto simp: setSectionOrigins_def split: prod.splits)
  have so3: "set_origins 0 (sections c3) = (sections c3, sz)"
    using set_origins_skel [OF so(1), of "sections c3"] skels so(2) by simp
  obtain ss4 m' where cp: "copy_sections (sections c3) p m = Some (ss4, m')"
    and out: "\<forall>a. a \<notin> span p sz \<longrightarrow> m' a = m a" and len: "length ss4 = length (sections c3)"
    and at: "\<forall>i < length (sections c3). ss4 ! i = (sections c3 ! i)\<lparr>bytePtr := p + of_nat (origin (sections c3 ! i))\<rparr>
        \<and> code_at m' (p + of_nat (origin (sections c3 ! i))) (bytes (sections c3 ! i))"
    using copy_sections_placed [OF assms(7) so3 assms(8,9)] by auto
  have n: "length (sections c3) = length (sections c)"
    using map_eq_imp_length_eq [OF skels] o by simp
  have orig: "origin (sections c3 ! i) = origin (sections c1 ! i)" if "i < length (sections c)" for i
    using skel_eqD [OF skel_nth [OF skels]] that o by simp
  have "\<exists>v t pos. pos = bytePtr (ss4 ! posSection e) + of_nat (bp_pos e)
      \<and> extInt4 m' pos = Some (v, pos + 4) \<and> target_pos c1 e = Some t
      \<and> (p + of_nat (origin_pos c1 e)) + v = p + of_nat t" if e: "e \<in> set (backPatchList c)" for e
  proof -
    from pt e obtain v where v: "patch_value c2 e = Some v" "patched c3 e v" by blast
    have ok: "patch_ok c1 e" using po(2) assms(5) e by simp
    then have i: "posSection e < length (sections c3)"
      and b: "bp_pos e + 4 \<le> bytePos (sections c3 ! posSection e)"
      using skel_eqD [OF skel_nth [OF skels]] o n by (auto simp: patch_ok_def)
    have "code_at m' (bytePtr (ss4 ! posSection e) + of_nat (bp_pos e)) (le_bytes 4 (ucast v))"
      using take_drop_code [of m' _ "bytes (sections c3 ! posSection e)" "bp_pos e" 4] at i b v(2)
      by (simp add: patched_def)
    moreover from patch_positions [OF l2 ok po(1)] v(1) obtain t where "target_pos c1 e = Some t"
      "v = of_nat t - of_nat (origin_pos c1 e)"
      by (auto simp: patch_value_def)
    ultimately show ?thesis by (auto dest!: extInt4_code)
  qed
  then show ?thesis
    using cp out at n orig
    by (intro exI [of _ "c3\<lparr>sections := ss4\<rparr>"] exI [of _ m']) (simp add: copySections_def)
qed

lemma patch_ready:
  assumes "setSectionOrigins c = (c1, sz)" "setSegmentLengths segs c1 = Some c2"
    and "\<forall>e \<in> set (backPatchList c). patch_ok c e" "segments_ok c"
  shows "same_layout c1 c2" "backPatchList c2 = backPatchList c" "segments_ok (c2\<lparr>backPatchList := []\<rparr>)"
    "\<forall>e \<in> set (backPatchList c). patch_ok (c2\<lparr>backPatchList := []\<rparr>) e"
    "patch_value (c2\<lparr>backPatchList := []\<rparr>) e = patch_value c2 e"
proof -
  note o = origins_layout [OF assms(1)] and po = patch_ok_origins [OF assms(1,4)]
  show l2: "same_layout c1 c2" by (rule setSegmentLengths_layout [OF assms(2)])
  show "backPatchList c2 = backPatchList c" using l2 o by (simp add: same_layout_def)
  have drop: "segments_ok (c2\<lparr>backPatchList := []\<rparr>) = segments_ok c2" "patch_ok (c2\<lparr>backPatchList := []\<rparr>) e = patch_ok c2 e"
    "patch_value (c2\<lparr>backPatchList := []\<rparr>) e = patch_value c2 e" for e
    by (simp_all add: segments_ok_def patch_ok_def getSection_def patch_value_def target_pos_def origin_pos_def
        split: binding.splits option.splits)
  show "segments_ok (c2\<lparr>backPatchList := []\<rparr>)" "\<forall>e \<in> set (backPatchList c). patch_ok (c2\<lparr>backPatchList := []\<rparr>) e"
    "patch_value (c2\<lparr>backPatchList := []\<rparr>) e = patch_value c2 e"
    using patch_ok_layout [OF l2 po(1)] po(2) assms(3) by (simp_all add: drop)
qed

lemma link_untouched:
  assumes "setSectionOrigins c = (c1, sz)" "setSegmentLengths segs c1 = Some c2"
    and "apply_patches (backPatchList c2) (c2\<lparr>backPatchList := []\<rparr>) = Some c3"
    and "sorted_wrt apart (backPatchList c)" "\<forall>e \<in> set (backPatchList c). patch_ok c e" "segments_ok c"
    and "i < length (sections c)"
  shows "bytePos (sections c3 ! i) = bytePos (sections c ! i)"
    "j < bytePos (sections c ! i) \<Longrightarrow>
      \<forall>e \<in> set (backPatchList c). \<not> (posSection e = i \<and> bp_pos e \<le> j \<and> j < bp_pos e + 4) \<Longrightarrow>
      bytes (sections c3 ! i) ! j = bytes (sections c2 ! i) ! j"
proof -
  note r = patch_ready [OF assms(1,2,5,6)]
  have n1: "length (sections c1) = length (sections c)" "bytePos (sections c1 ! i) = bytePos (sections c ! i)"
    using origins_layout [OF assms(1)] assms(7) by auto
  have l3: "same_layout (c2\<lparr>backPatchList := []\<rparr>) c3" and
    un: "\<forall>i < length (sections c2). \<forall>j < bytePos (sections c2 ! i).
         (\<forall>e \<in> set (backPatchList c). \<not> (posSection e = i \<and> bp_pos e \<le> j \<and> j < bp_pos e + 4)) \<longrightarrow>
         bytes (sections c3 ! i) ! j = bytes (sections c2 ! i) ! j"
    using apply_patches_spec [OF assms(3) [unfolded r(2)] assms(4) r(4,3)] by simp_all
  have n2: "length (sections c2) = length (sections c)" "bytePos (sections c2 ! i) = bytePos (sections c ! i)"
    using same_layout_section(1,4) [OF r(1)] n1 assms(7) by auto
  show "bytePos (sections c3 ! i) = bytePos (sections c ! i)"
    using same_layout_section(4) [OF l3] n2 assms(7) by simp
  show "j < bytePos (sections c ! i) \<Longrightarrow>
      \<forall>e \<in> set (backPatchList c). \<not> (posSection e = i \<and> bp_pos e \<le> j \<and> j < bp_pos e + 4) \<Longrightarrow>
      bytes (sections c3 ! i) ! j = bytes (sections c2 ! i) ! j"
    using un n2 assms(7) by auto
qed

text \<open>C6: linking resolves every back-patch. With the code copied to an aligned block of memory,
  each section lies at the block's address plus its origin, nothing outside the block changes, and
  the offset fetched at a patched position, added to the address of the patch's origin, is the
  address of its target.\<close>

theorem back_patches_resolved:
  assumes "setSectionOrigins c = (c1, sz)" "setSegmentLengths segs c1 = Some c2"
    and "apply_patches (backPatchList c2) (c2\<lparr>backPatchList := []\<rparr>) = Some c3"
    and "sorted_wrt apart (backPatchList c)" "\<forall>e \<in> set (backPatchList c). patch_ok c e" "segments_ok c"
    and "p AND 3 = 0" "sz < 2 ^ 32" "span p sz \<subseteq> dom m"
  shows "\<exists>c4 m'. copySections p c3 m = Some (c4, m') \<and> (\<forall>a. a \<notin> span p sz \<longrightarrow> m' a = m a)
    \<and> (\<forall>i < length (sections c). bytePtr (sections c4 ! i) = p + of_nat (origin (sections c1 ! i))
        \<and> code_at m' (bytePtr (sections c4 ! i)) (bytes (sections c3 ! i)))
    \<and> (\<forall>e \<in> set (backPatchList c). \<exists>v t pos. pos = bytePtr (sections c4 ! posSection e) + of_nat (bp_pos e)
        \<and> extInt4 m' pos = Some (v, pos + 4) \<and> target_pos c1 e = Some t
        \<and> (p + of_nat (origin_pos c1 e)) + v = p + of_nat t)"
  using link_resolves [OF assms] .

text \<open>A code section, behind two words of data, that branches to the second of them.\<close>

definition branch_demo :: ByteCode where
  "branch_demo = \<lparr>rootSegment = None, currSegment = None, segments = [], sectionId = 2,
     sections = [(new_section 1 True)\<lparr>bytes := replicate 6 1\<rparr>, (new_section 2 True)\<lparr>bytes := [147, 0, 0, 0, 0]\<rparr>],
     currSection = Some 1, codeSection = Some 1,
     backPatchList = [\<lparr>bp_pos = 1, posSection = 1, bp_origin = 5, originSection = Some 1, bp_target = Simple 4 (Some 0)\<rparr>],
     insBackPatchList = [], labels = (\<lambda>_. None), reports = []\<rparr>"

lemma back_patches_resolved_witness:
  "\<exists>c4 m'. copySections 0x100 (the (apply_patches (backPatchList branch_demo)
       ((the (setSegmentLengths [] (fst (setSectionOrigins branch_demo))))\<lparr>backPatchList := []\<rparr>)))
       (flash 0x100 (replicate 13 0)) = Some (c4, m')
     \<and> bytePtr (sections c4 ! 1) = 0x108 \<and> code_at m' 0x108 [147, 247, 255, 255, 255]"
proof -
  let ?c = branch_demo
  let ?c1 = "fst (setSectionOrigins ?c)"
  let ?c2 = "the (setSegmentLengths [] ?c1)"
  let ?c3 = "the (apply_patches (backPatchList ?c) (?c2\<lparr>backPatchList := []\<rparr>))"
  have some: "x = Some (the x)" if "\<not> Option.is_none x" for x :: "'a option"
    using that by (cases x) simp_all
  have "snd (setSectionOrigins ?c) = 13" by code_simp
  then have o: "setSectionOrigins ?c = (?c1, 13)" by (metis prod.collapse)
  have l: "setSegmentLengths [] ?c1 = Some ?c2" by (rule some) code_simp
  have b: "backPatchList ?c2 = backPatchList ?c" by code_simp
  have p: "apply_patches (backPatchList ?c2) (?c2\<lparr>backPatchList := []\<rparr>) = Some ?c3" unfolding b by (rule some) code_simp
  have a: "sorted_wrt apart (backPatchList ?c)" by code_simp
  have k: "\<forall>e \<in> set (backPatchList ?c). patch_ok ?c e" by (code_simp, simp)
  have s: "segments_ok ?c" by code_simp
  have "read_n 13 (flash 0x100 (replicate 13 0)) 0x100 = Some (replicate 13 0)" by code_simp
  then have d: "span 0x100 13 \<subseteq> dom (flash 0x100 (replicate 13 0))" by (rule read_n_span)
  have n: "length (sections ?c) = 2" "origin (sections ?c1 ! 1) = 8"
    "bytes (sections ?c3 ! 1) = [147, 247, 255, 255, 255]" by code_simp+
  have "(0x100 :: addr) AND 3 = 0" "(13::nat) < 2 ^ 32" by simp_all
  from back_patches_resolved [OF o l p a k s this d] obtain c4 m' where
    "copySections 0x100 ?c3 (flash 0x100 (replicate 13 0)) = Some (c4, m')"
    "\<forall>i < length (sections ?c). bytePtr (sections c4 ! i) = 0x100 + of_nat (origin (sections ?c1 ! i))
        \<and> code_at m' (bytePtr (sections c4 ! i)) (bytes (sections ?c3 ! i))" by blast
  moreover from this(2) [rule_format, of 1]
  have h: "bytePtr (sections c4 ! 1) = 0x108
    \<and> code_at m' (bytePtr (sections c4 ! 1)) [147, 247, 255, 255, 255]" by (auto simp: n [unfolded One_nat_def])
  moreover have "code_at m' 0x108 [147, 247, 255, 255, 255]" using conjunct2 [OF h] unfolding conjunct1 [OF h] .
  ultimately show ?thesis by blast
qed

end
