(* ===== verification/Layout.thy ===== *)
theory Layout
  imports Machine
begin

text \<open>
  Data representations (header/ivory/repr.h, API/ivory/common/repr): the size and the alignment of
  a representation, the layout of a structure, the comparison of representations, and the list of
  structure representations that code generation shares (API/ivory/compiler/iCode.cpp).

  A \<open>Repr\<close> is a tag with a pointer to what the tag needs. The target of a pointer representation
  may be the representation itself; no operation here follows it, so the model keeps the identity
  of the \<open>PtrRepr\<close> only. A \<open>size_t\<close> is a natural number below \<open>2 ^ 32\<close>: the sums that can wrap around are
  taken modulo \<open>2 ^ 32\<close>, and the laws of the layout say for which structures they do not.
  \<open>error\<close> reports the unknown representation and returns; the value is the one returned then.
\<close>

subsection \<open>Representations\<close>

datatype (plugins only: code size) repr_tag = REPR_UNKNOWN | REPR_STACK_MARKER | REPR_CELL_PTR | REPR_CELL_INFO_PTR
  | REPR_ENV_PTR | REPR_LABEL | REPR_I_ADDRESS | REPR_LABEL_PAIR | REPR_TYPE | REPR_VOID | REPR_EXPR
  | REPR_NAME | REPR_INT | REPR_BYTE | REPR_BITS | REPR_FLOAT | REPR_DOUBLE | REPR_STRING | REPR_REF
  | REPR_CHAR | REPR_TAG | REPR_UTC | REPR_DIR | REPR_DIR_ENTRY | REPR_PLAIN | REPR_SERIAL_CONTEXT
  | REPR_FILE_HANDLE

datatype Repr = Basic repr_tag | PtrRepr nat | Struct "Repr list" | Union "Repr list" | Array nat Repr

text \<open>\<open>sizeof(void*)\<close> and \<open>sizeof(FileHandle)\<close> are 4 on the target.\<close>

primrec basic_size :: "repr_tag \<Rightarrow> nat" where
  "basic_size REPR_UNKNOWN = 0"
| "basic_size REPR_STACK_MARKER = 0"
| "basic_size REPR_CELL_PTR = sizeof TPtr"
| "basic_size REPR_CELL_INFO_PTR = sizeof TPtr"
| "basic_size REPR_ENV_PTR = sizeof TPtr"
| "basic_size REPR_LABEL = sizeof TLabel"
| "basic_size REPR_I_ADDRESS = 0"
| "basic_size REPR_LABEL_PAIR = sizeof TLabelPair"
| "basic_size REPR_TYPE = sizeof TType"
| "basic_size REPR_VOID = 0"
| "basic_size REPR_EXPR = sizeof TExpr"
| "basic_size REPR_NAME = sizeof TName"
| "basic_size REPR_INT = sizeof TInt"
| "basic_size REPR_BYTE = sizeof TByte"
| "basic_size REPR_BITS = sizeof TBits"
| "basic_size REPR_FLOAT = sizeof TFloat"
| "basic_size REPR_DOUBLE = sizeof TDouble"
| "basic_size REPR_STRING = sizeof TPtr"
| "basic_size REPR_REF = sizeof TRef"
| "basic_size REPR_CHAR = sizeof TChar"
| "basic_size REPR_TAG = sizeof TTag"
| "basic_size REPR_UTC = sizeof TInt"
| "basic_size REPR_DIR = sizeof TPtr"
| "basic_size REPR_DIR_ENTRY = sizeof TPtr"
| "basic_size REPR_PLAIN = 0"
| "basic_size REPR_SERIAL_CONTEXT = sizeof TPtr"
| "basic_size REPR_FILE_HANDLE = sizeof TPtr"

text \<open>\<open>alignOfRepr\<close> has no case for a pointer to cell info, so it is unknown there.\<close>

definition basic_align :: "repr_tag \<Rightarrow> nat" where
  "basic_align t = (if t = REPR_CELL_INFO_PTR then 0 else basic_size t)"

subsection \<open>The layout of a structure\<close>

record StructLayout =
  st_size :: nat
  sizeV :: "nat list"
  offsetV :: "nat list"
  maxCompSize :: nat
  maxAlign :: nat

text \<open>The wrap-around of a \<open>size_t\<close>; it is computed on words.\<close>

definition wrap32 :: "nat \<Rightarrow> nat" where
  "wrap32 n = n mod 2 ^ 32"

lemma wrap32_code [code]: "wrap32 n = unat (of_nat n :: u32)"
  by (simp add: wrap32_def unat_of_nat)

lemma wrap32_small: "n < 2 ^ 32 \<Longrightarrow> wrap32 n = n"
  by (simp add: wrap32_def)

lemma wrap32_zero [simp]: "wrap32 0 = 0"
  by (simp add: wrap32_def)

definition align_offset :: "nat \<Rightarrow> nat \<Rightarrow> nat" where
  "align_offset a offset =
     (if a = 1 then offset
      else if a = 2 then (wrap32 (offset + 1) div 2) * 2
      else if a = 4 then (wrap32 (offset + 3) div 4) * 4
      else if a = 8 then (wrap32 (offset + 7) div 8) * 8
      else offset)"

text \<open>The loop over the components, each with its size and alignment: the offsets, the end of the
  last component and the largest size.\<close>

primrec assign_comps :: "(nat \<times> nat) list \<Rightarrow> nat \<Rightarrow> nat \<Rightarrow> nat list \<times> nat \<times> nat" where
  "assign_comps [] offset maxSize = ([], offset, maxSize)"
| "assign_comps (d # ds) offset maxSize =
     (let (compSize, alignSize) = d; offset = align_offset alignSize offset;
          (offs, fin, maxSize) = assign_comps ds (wrap32 (offset + compSize)) (max maxSize compSize)
      in (offset # offs, fin, maxSize))"

definition assignComponentSizesAndOffsets :: "(nat \<times> nat) list \<Rightarrow> StructLayout" where
  "assignComponentSizesAndOffsets ds =
     (let (offs, offset, maxSize) = assign_comps ds 0 0 in
      \<lparr>st_size = (if maxSize > 0 then (wrap32 (offset + (maxSize - 1)) div maxSize) * maxSize else offset),
       sizeV = List.map fst ds, offsetV = offs, maxCompSize = maxSize, maxAlign = maxSize\<rparr>)"

fun sizeOfRepr :: "Repr \<Rightarrow> nat" and alignOfRepr :: "Repr \<Rightarrow> nat" where
  "sizeOfRepr (Basic t) = basic_size t"
| "sizeOfRepr (PtrRepr _) = sizeof TPtr"
| "sizeOfRepr (Struct rs) =
     st_size (assignComponentSizesAndOffsets (List.map (\<lambda>r. (sizeOfRepr r, alignOfRepr r)) rs))"
| "sizeOfRepr (Union rs) = fold max (List.map (\<lambda>r. sizeOfRepr r) rs) 0"
| "sizeOfRepr (Array _ _) = 0"
| "alignOfRepr (Basic t) = basic_align t"
| "alignOfRepr (PtrRepr _) = sizeof TPtr"
| "alignOfRepr (Struct rs) =
     maxAlign (assignComponentSizesAndOffsets (List.map (\<lambda>r. (sizeOfRepr r, alignOfRepr r)) rs))"
| "alignOfRepr (Union rs) = fold max (List.map (\<lambda>r. alignOfRepr r) rs) 0"
| "alignOfRepr (Array _ _) = 0"

text \<open>The layout a \<open>StructRepr\<close> gets in its constructor.\<close>

definition layout :: "Repr list \<Rightarrow> StructLayout" where
  "layout rs = assignComponentSizesAndOffsets (List.map (\<lambda>r. (sizeOfRepr r, alignOfRepr r)) rs)"

definition struct_offset :: "Repr list \<Rightarrow> nat \<Rightarrow> nat" where
  "struct_offset rs i = offsetV (layout rs) ! i"

subsection \<open>Comparison\<close>

text \<open>Pointer representations compare equal whatever they point to.\<close>

fun repr_eq :: "Repr \<Rightarrow> Repr \<Rightarrow> bool" and reprs_eq :: "Repr list \<Rightarrow> Repr list \<Rightarrow> bool" where
  "repr_eq (Basic s) (Basic t) \<longleftrightarrow> s = t"
| "repr_eq (PtrRepr _) (PtrRepr _) \<longleftrightarrow> True"
| "repr_eq (Struct rs) (Struct ss) \<longleftrightarrow> reprs_eq rs ss"
| "repr_eq (Union rs) (Union ss) \<longleftrightarrow> reprs_eq rs ss"
| "repr_eq (Array m r) (Array n s) \<longleftrightarrow> m = n \<and> repr_eq r s"
| "repr_eq _ _ \<longleftrightarrow> False"
| "reprs_eq [] [] \<longleftrightarrow> True"
| "reprs_eq (r # rs) (s # ss) \<longleftrightarrow> repr_eq r s \<and> reprs_eq rs ss"
| "reprs_eq _ _ \<longleftrightarrow> False"

text \<open>\<open>StructRepr::matches\<close> and \<open>UnionRepr::matches\<close>: the lengths, then the components.\<close>

definition matches :: "Repr list \<Rightarrow> Repr list \<Rightarrow> bool" where
  "matches rs ss \<longleftrightarrow> length rs = length ss \<and> reprs_eq rs ss"

subsection \<open>Marking\<close>

definition basic_markable :: "repr_tag \<Rightarrow> bool" where
  "basic_markable t \<longleftrightarrow> t \<in> {REPR_CELL_PTR, REPR_EXPR, REPR_STRING}"

fun markableForGC :: "Repr \<Rightarrow> bool" where
  "markableForGC (Basic t) \<longleftrightarrow> basic_markable t"
| "markableForGC (PtrRepr _) \<longleftrightarrow> True"
| "markableForGC (Struct rs) \<longleftrightarrow> list_ex markableForGC rs"
| "markableForGC (Array _ r) \<longleftrightarrow> markableForGC r"
| "markableForGC (Union rs) \<longleftrightarrow> list_ex markableForGC rs"

subsection \<open>Shared structure representations\<close>

text \<open>\<open>ICode::addStructRepr\<close>: the first structure of the list that matches, or a new one at the
  end. The result is the index of the structure in the list.\<close>

primrec find_struct :: "Repr list \<Rightarrow> Repr list \<Rightarrow> nat option" where
  "find_struct rs [] = None"
| "find_struct rs (e # es) =
     (case e of Struct ss \<Rightarrow> if matches rs ss then Some 0 else map_option Suc (find_struct rs es)
      | _ \<Rightarrow> map_option Suc (find_struct rs es))"

definition addStructRepr :: "Repr list \<Rightarrow> Repr list \<Rightarrow> nat \<times> Repr list" where
  "addStructRepr rs reprList =
     (case find_struct rs reprList of
        Some i \<Rightarrow> (i, reprList)
      | None \<Rightarrow> (length reprList, reprList @ [Struct rs]))"

text \<open>\<open>ICode::typeReprInfo\<close> appends the representation it was given for a type signature to the same list; the
  search for one that is there already is commented out.\<close>

definition typeReprInfo :: "Repr \<Rightarrow> Repr list \<Rightarrow> Repr list" where
  "typeReprInfo repr reprList = reprList @ [repr]"

subsection \<open>Properties of the layout\<close>

text \<open>The layout without wrap-around: where the components end, and the structures for which that is below
  the limit of a \<open>size_t\<close>, with the padding to the largest component.\<close>

definition align_up :: "nat \<Rightarrow> nat \<Rightarrow> nat" where
  "align_up a offset = (if a \<in> {2, 4, 8} then ((offset + (a - 1)) div a) * a else offset)"

primrec end_of :: "(nat \<times> nat) list \<Rightarrow> nat \<Rightarrow> nat" where
  "end_of [] offset = offset"
| "end_of (d # ds) offset = end_of ds (align_up (snd d) offset + fst d)"

definition no_wrap :: "(nat \<times> nat) list \<Rightarrow> bool" where
  "no_wrap ds \<longleftrightarrow> end_of ds 0 + (fold max (List.map fst ds) 0 - 1) < 2 ^ 32"

lemma no_wrap_code [code]:
  "no_wrap ds \<longleftrightarrow> (let n = end_of ds 0 + (fold max (List.map fst ds) 0 - 1) in wrap32 n = n)"
  by (auto simp: no_wrap_def wrap32_def Let_def mod_eq_self_iff_div_eq_0)

lemma align_up_ge: "offset \<le> align_up a offset"
  unfolding align_up_def by (auto; presburger)

lemma align_up_dvd: "a \<in> {1, 2, 4, 8} \<Longrightarrow> a dvd align_up a offset"
  by (auto simp: align_up_def)

lemma end_of_ge: "offset \<le> end_of ds offset"
  by (induction ds arbitrary: offset) (auto intro: order_trans [OF align_up_ge] order_trans [OF le_add1])

lemma align_offset_up:
  assumes "align_up a offset < 2 ^ 32"
  shows "align_offset a offset = align_up a offset"
proof -
  have w: "offset + (a - 1) < 2 ^ 32" if "a \<in> {2, 4, 8}"
  proof -
    have "(offset + (a - 1)) div a * a < 2 ^ 32" using assms that by (simp add: align_up_def)
    then show ?thesis using that by auto
  qed
  then show ?thesis by (auto simp: align_offset_def align_up_def wrap32_small)
qed

lemma fold_max_ge: "(x :: nat) \<le> fold max xs x"
  by (induction xs arbitrary: x) (auto intro: order_trans [OF max.cobounded2])

lemma fold_max_mem: "y \<in> set xs \<Longrightarrow> (y :: nat) \<le> fold max xs x"
  by (induction xs arbitrary: x) (auto intro: order_trans [OF _ fold_max_ge])

lemma fold_max_in: "fold max xs (x :: nat) \<in> insert x (set xs)"
  by (induction xs arbitrary: x) (auto simp: max_def split: if_splits)

lemma assign_comps_max: "assign_comps ds offset mx = (offs, fin, mx') \<Longrightarrow> length offs = length ds \<and> mx' = fold max (List.map fst ds) mx"
  by (induction ds arbitrary: offset mx offs) (fastforce simp: Let_def max.commute split: prod.splits)+

lemma assign_comps_spec:
  "assign_comps ds offset mx = (offs, fin, mx') \<Longrightarrow> end_of ds offset < 2 ^ 32 \<Longrightarrow>
     offset \<le> fin \<and> fin = end_of ds offset
     \<and> (\<forall>i < length ds. offset \<le> offs ! i \<and> offs ! i + fst (ds ! i) \<le> fin
         \<and> (snd (ds ! i) \<in> {1, 2, 4, 8} \<longrightarrow> snd (ds ! i) dvd offs ! i))
     \<and> (\<forall>i j. i < j \<longrightarrow> j < length ds \<longrightarrow> offs ! i + fst (ds ! i) \<le> offs ! j)"
proof (induction ds arbitrary: offset mx offs)
  case (Cons d ds)
  obtain sz al where d: "d = (sz, al)" by (cases d)
  let ?o = "align_up al offset"
  have e: "end_of ds (?o + sz) < 2 ^ 32" using Cons.prems(2) d by simp
  then have lt: "?o + sz < 2 ^ 32" using end_of_ge [of "?o + sz" ds] by linarith
  then have o: "align_offset al offset = ?o" by (intro align_offset_up) linarith
  obtain os f m where r: "assign_comps ds (?o + sz) (max mx sz) = (os, f, m)" by (metis prod_cases3)
  with Cons.prems(1) d lt have eq: "offs = ?o # os" "fin = f" "mx' = m" by (auto simp: Let_def o wrap32_small)
  note IH = Cons.IH [OF r [folded eq(2,3)] e]
  then have le: "offset \<le> ?o" "?o + sz \<le> fin" using align_up_ge [of offset al] by simp_all
  have at: "offset \<le> offs ! i \<and> offs ! i + fst ((d # ds) ! i) \<le> fin
      \<and> (snd ((d # ds) ! i) \<in> {1, 2, 4, 8} \<longrightarrow> snd ((d # ds) ! i) dvd offs ! i)" if "i < length (d # ds)" for i
    using that IH le align_up_dvd [of al offset] eq d
    by (cases i) (auto intro: order_trans [OF le(1)] dest: add_leD1)
  have apart: "offs ! i + fst ((d # ds) ! i) \<le> offs ! j" if "i < j" "j < length (d # ds)" for i j
    using that IH eq d by (cases i; cases j) auto
  have "offset \<le> fin" "fin = end_of (d # ds) offset" using le IH d by simp_all
  with at apart show ?case by blast
qed simp

definition dims :: "Repr list \<Rightarrow> (nat \<times> nat) list" where
  "dims rs = List.map (\<lambda>r. (sizeOfRepr r, alignOfRepr r)) rs"

lemma layout_spec:
  "length (offsetV (layout rs)) = length rs"
  "no_wrap (dims rs) \<Longrightarrow> i < length rs \<Longrightarrow> alignOfRepr (rs ! i) \<in> {1, 2, 4, 8} \<Longrightarrow> alignOfRepr (rs ! i) dvd struct_offset rs i"
  "no_wrap (dims rs) \<Longrightarrow> i < length rs \<Longrightarrow> struct_offset rs i + sizeOfRepr (rs ! i) \<le> sizeOfRepr (Struct rs)"
  "no_wrap (dims rs) \<Longrightarrow> i < j \<Longrightarrow> j < length rs \<Longrightarrow> struct_offset rs i + sizeOfRepr (rs ! i) \<le> struct_offset rs j"
  "maxCompSize (layout rs) = fold max (List.map sizeOfRepr rs) 0"
  "alignOfRepr (Struct rs) = maxCompSize (layout rs)"
  "0 < maxCompSize (layout rs) \<Longrightarrow> maxCompSize (layout rs) dvd sizeOfRepr (Struct rs)"
proof -
  obtain offs fin mx where a: "assign_comps (dims rs) 0 0 = (offs, fin, mx)" by (metis prod_cases3)
  have l: "layout rs = \<lparr>st_size = (if mx > 0 then (wrap32 (fin + (mx - 1)) div mx) * mx else fin),
      sizeV = List.map fst (dims rs), offsetV = offs, maxCompSize = mx, maxAlign = mx\<rparr>"
    using a by (simp add: layout_def dims_def assignComponentSizesAndOffsets_def)
  have sz: "sizeOfRepr (Struct rs) = st_size (layout rs)" "alignOfRepr (Struct rs) = maxAlign (layout rs)"
    by (simp_all add: layout_def)
  have sl: "length offs = length rs" "mx = fold max (List.map fst (dims rs)) 0"
    using assign_comps_max [OF a] by (simp_all add: dims_def)
  have up: "fin \<le> st_size (layout rs)" if "fin + (mx - 1) < 2 ^ 32"
  proof (cases "mx > 0")
    case True
    have "fin + (mx - 1) < ((fin + (mx - 1)) div mx + 1) * mx"
      using True by (metis Suc_eq_plus1 dividend_less_times_div less_add_eq_less mult.commute mult_Suc_right add.commute)
    then have "fin \<le> ((fin + (mx - 1)) div mx) * mx" using True by (simp add: algebra_simps)
    then show ?thesis using True that by (simp add: l wrap32_small)
  qed (simp add: l)
  have s: "fin + (mx - 1) < 2 ^ 32" "\<forall>i < length rs. offs ! i + sizeOfRepr (rs ! i) \<le> fin
        \<and> (alignOfRepr (rs ! i) \<in> {1, 2, 4, 8} \<longrightarrow> alignOfRepr (rs ! i) dvd offs ! i)"
      "\<forall>i j. i < j \<longrightarrow> j < length rs \<longrightarrow> offs ! i + sizeOfRepr (rs ! i) \<le> offs ! j" if w: "no_wrap (dims rs)"
  proof -
    have e: "end_of (dims rs) 0 < 2 ^ 32" using w by (simp add: no_wrap_def)
    show "fin + (mx - 1) < 2 ^ 32" using w assign_comps_spec [OF a e] sl(2) by (simp add: no_wrap_def)
    show "\<forall>i < length rs. offs ! i + sizeOfRepr (rs ! i) \<le> fin
        \<and> (alignOfRepr (rs ! i) \<in> {1, 2, 4, 8} \<longrightarrow> alignOfRepr (rs ! i) dvd offs ! i)"
      "\<forall>i j. i < j \<longrightarrow> j < length rs \<longrightarrow> offs ! i + sizeOfRepr (rs ! i) \<le> offs ! j"
      using assign_comps_spec [OF a e] by (auto simp: dims_def)
  qed
  show "length (offsetV (layout rs)) = length rs" using sl(1) l by simp
  show "no_wrap (dims rs) \<Longrightarrow> i < length rs \<Longrightarrow> alignOfRepr (rs ! i) \<in> {1, 2, 4, 8} \<Longrightarrow> alignOfRepr (rs ! i) dvd struct_offset rs i"
    using s(2) l by (auto simp add: struct_offset_def)
  show "no_wrap (dims rs) \<Longrightarrow> i < length rs \<Longrightarrow> struct_offset rs i + sizeOfRepr (rs ! i) \<le> sizeOfRepr (Struct rs)"
    using s(1,2) up l unfolding sz struct_offset_def by fastforce
  show "no_wrap (dims rs) \<Longrightarrow> i < j \<Longrightarrow> j < length rs \<Longrightarrow> struct_offset rs i + sizeOfRepr (rs ! i) \<le> struct_offset rs j"
    using s(3) l by (simp add: struct_offset_def)
  show "maxCompSize (layout rs) = fold max (List.map sizeOfRepr rs) 0"
    using sl(2) l by (simp add: dims_def comp_def)
  show "alignOfRepr (Struct rs) = maxCompSize (layout rs)" using l unfolding sz by simp
  show "0 < maxCompSize (layout rs) \<Longrightarrow> maxCompSize (layout rs) dvd sizeOfRepr (Struct rs)"
    using l unfolding sz by simp
qed

subsection \<open>The scalars of a representation\<close>

text \<open>The scalar components with their offsets and sizes; the members of a union are all at its
  start.\<close>

fun scalars :: "Repr \<Rightarrow> (nat \<times> nat) list" and scalars_at :: "nat list \<Rightarrow> Repr list \<Rightarrow> (nat \<times> nat) list" where
  "scalars (Basic t) = [(0, basic_size t)]"
| "scalars (PtrRepr _) = [(0, sizeof TPtr)]"
| "scalars (Struct rs) = scalars_at (offsetV (layout rs)) rs"
| "scalars (Union rs) = scalars_at (replicate (length rs) 0) rs"
| "scalars (Array _ _) = []"
| "scalars_at (offset # offs) (r # rs) = List.map (\<lambda>(d, n). (offset + d, n)) (scalars r) @ scalars_at offs rs"
| "scalars_at _ _ = []"

lemma scalars_at_mem:
  "length offs = length rs \<Longrightarrow> x \<in> set (scalars_at offs rs) \<longleftrightarrow>
     (\<exists>i < length rs. \<exists>d n. (d, n) \<in> set (scalars (rs ! i)) \<and> x = (offs ! i + d, n))"
  by (induction offs rs rule: list_induct2) (auto simp: Ex_less_Suc2)

text \<open>The loop of the structure layout knows the alignments of all components, and no structure is too long.\<close>

abbreviation word_sizes :: "nat set" where "word_sizes \<equiv> {0, 1, 2, 4, 8}"

fun regular :: "Repr \<Rightarrow> bool" where
  "regular (Basic t) \<longleftrightarrow> t \<noteq> REPR_CELL_INFO_PTR"
| "regular (PtrRepr _) \<longleftrightarrow> True"
| "regular (Struct rs) \<longleftrightarrow> list_all (\<lambda>r. regular r \<and> alignOfRepr r \<in> word_sizes) rs \<and> no_wrap (dims rs)"
| "regular (Union rs) \<longleftrightarrow> list_all regular rs"
| "regular (Array _ _) \<longleftrightarrow> True"

lemma word_sizes_dvd: "n \<in> word_sizes \<Longrightarrow> a \<in> word_sizes \<Longrightarrow> 0 < n \<Longrightarrow> n \<le> a \<Longrightarrow> n dvd a"
  by auto

lemma basic_size_word: "basic_size t \<in> word_sizes"
  by (cases t) simp_all

text \<open>A scalar within its representation, at a multiple of its size.\<close>

definition placed :: "Repr \<Rightarrow> nat \<Rightarrow> nat \<Rightarrow> bool" where
  "placed r d n \<longleftrightarrow> d + n \<le> sizeOfRepr r \<and> n \<le> alignOfRepr r \<and> n \<in> word_sizes \<and> (0 < n \<longrightarrow> n dvd d)"

lemma regular_scalars:
  "regular r \<Longrightarrow> (d, n) \<in> set (scalars r) \<Longrightarrow> placed r d n"
proof (induction r arbitrary: d n)
  case (Basic t)
  then show ?case using basic_size_word [of t] by (auto simp: basic_align_def placed_def)
next
  case (Struct rs)
  have "placed (Struct rs) (struct_offset rs i + d) n"
    if i: "i < length rs" "(d, n) \<in> set (scalars (rs ! i))" for i d n
  proof -
    have c: "alignOfRepr (rs ! i) \<in> word_sizes" "placed (rs ! i) d n" and w: "no_wrap (dims rs)"
      using Struct.IH [of "rs ! i"] Struct.prems i by (simp_all add: list_all_iff)
    have "sizeOfRepr (rs ! i) \<le> maxCompSize (layout rs)"
      unfolding layout_spec(5) by (rule fold_max_mem) (use i in simp)
    moreover have "n dvd struct_offset rs i" if "0 < n"
      using c that word_sizes_dvd [OF _ c(1) that] layout_spec(2) [OF w i(1)]
      by (auto simp: placed_def intro: dvd_trans)
    ultimately show ?thesis
      using c layout_spec(3) [OF w i(1)] unfolding placed_def layout_spec(6) by auto
  qed
  then show ?case
    using Struct.prems(2) unfolding scalars.simps scalars_at_mem [OF layout_spec(1)] by (auto simp: struct_offset_def)
next
  case (Union rs)
  have c: "(d, n) \<in> set (scalars (rs ! i)) \<Longrightarrow> placed (rs ! i) d n" if "i < length rs" for i d n
    using Union.IH [of "rs ! i"] Union.prems(1) that by (simp add: list_all_iff)
  have "placed (Union rs) d n" if i: "i < length rs" "(d, n) \<in> set (scalars (rs ! i))" for i d n
  proof -
    have "sizeOfRepr (rs ! i) \<le> sizeOfRepr (Union rs)" "alignOfRepr (rs ! i) \<le> alignOfRepr (Union rs)"
      using i by (auto intro!: fold_max_mem)
    then show ?thesis using c [OF i(1)] i(2) unfolding placed_def by (meson order_trans)
  qed
  then show ?case
    using Union.prems(2) unfolding scalars.simps scalars_at_mem [OF length_replicate] by auto
qed (auto simp: placed_def)


lemma assign_comps_empty:
  "\<forall>d \<in> set ds. fst d = 0 \<Longrightarrow> \<exists>offs. assign_comps ds 0 0 = (offs, 0, 0)"
  by (induction ds) (auto simp: align_offset_def wrap32_def Let_def split: prod.splits)

lemma struct_size_multiple: "maxCompSize (layout rs) dvd sizeOfRepr (Struct rs)"
proof (cases "maxCompSize (layout rs) = 0")
  case True
  have "\<forall>r \<in> set rs. sizeOfRepr r = 0"
    using fold_max_mem [of _ "List.map sizeOfRepr rs" 0] True unfolding layout_spec(5) by fastforce
  then obtain offs where "assign_comps (List.map (\<lambda>r. (sizeOfRepr r, alignOfRepr r)) rs) 0 0 = (offs, 0, 0)"
    using assign_comps_empty [of "List.map (\<lambda>r. (sizeOfRepr r, alignOfRepr r)) rs"] by auto
  then show ?thesis by (simp add: assignComponentSizesAndOffsets_def)
qed (use layout_spec(7) in simp)

text \<open>C24: a structure whose layout stays below 4 GB has its components in order without overlap and within its
  size, which is a multiple of its largest component, and a component whose alignment is 1, 2, 4 or 8 lies at
  a multiple of it.\<close>

theorem struct_layout:
  assumes "no_wrap (dims rs)"
  shows "(\<forall>i j. i < j \<longrightarrow> j < length rs \<longrightarrow> struct_offset rs i + sizeOfRepr (rs ! i) \<le> struct_offset rs j)
   \<and> (\<forall>i < length rs. struct_offset rs i + sizeOfRepr (rs ! i) \<le> sizeOfRepr (Struct rs)
       \<and> (alignOfRepr (rs ! i) \<in> {1, 2, 4, 8} \<longrightarrow> alignOfRepr (rs ! i) dvd struct_offset rs i))
   \<and> maxCompSize (layout rs) dvd sizeOfRepr (Struct rs)"
  using layout_spec(2-4) [OF assms] struct_size_multiple by blast

lemma struct_layout_witness:
  "struct_offset [Basic REPR_CHAR, Basic REPR_DOUBLE, Basic REPR_TAG] 1 + 8
     \<le> struct_offset [Basic REPR_CHAR, Basic REPR_DOUBLE, Basic REPR_TAG] 2
   \<and> 8 dvd struct_offset [Basic REPR_CHAR, Basic REPR_DOUBLE, Basic REPR_TAG] 1
   \<and> sizeOfRepr (Struct [Basic REPR_CHAR, Basic REPR_DOUBLE, Basic REPR_TAG]) = 24"
proof -
  let ?rs = "[Basic REPR_CHAR, Basic REPR_DOUBLE, Basic REPR_TAG]"
  have "no_wrap (dims ?rs)" by code_simp
  note t = struct_layout [OF this]
  have "struct_offset ?rs 1 + sizeOfRepr (?rs ! 1) \<le> struct_offset ?rs 2"
    using conjunct1 [OF t, rule_format, of 1 2] by simp
  moreover have "alignOfRepr (?rs ! 1) dvd struct_offset ?rs 1"
    using conjunct1 [OF conjunct2 [OF t], rule_format, of 1] by (simp add: basic_align_def)
  moreover have "sizeOfRepr (Struct ?rs) = 24" by code_simp
  ultimately show ?thesis by (simp add: basic_align_def)
qed

text \<open>C23: where the components of all structures have the alignment 0, 1, 2, 4 or 8, none is a pointer to cell
  info, and no structure reaches 4 GB, every scalar of a representation, however deep, lies within it at a
  multiple of its own size.\<close>

theorem scalars_aligned:
  assumes "regular r" "(d, n) \<in> set (scalars r)" "0 < n"
  shows "n dvd d \<and> d + n \<le> sizeOfRepr r"
  using regular_scalars [OF assms(1,2)] assms(3) by (auto simp: placed_def)

lemma scalars_aligned_witness:
  "(8 :: nat) dvd 16 \<and> 16 + 8 \<le> sizeOfRepr (Struct [Basic REPR_CHAR, Struct [Basic REPR_TAG, Basic REPR_DOUBLE], PtrRepr 0])"
proof (rule scalars_aligned)
  show "regular (Struct [Basic REPR_CHAR, Struct [Basic REPR_TAG, Basic REPR_DOUBLE], PtrRepr 0])" by code_simp
  show "(16, 8) \<in> set (scalars (Struct [Basic REPR_CHAR, Struct [Basic REPR_TAG, Basic REPR_DOUBLE], PtrRepr 0]))"
    by code_simp
qed simp

lemma second_offset:
  assumes "alignOfRepr r \<notin> {2, 4, 8}" "sizeOfRepr c < 2 ^ 32"
  shows "struct_offset [c, r] 1 = sizeOfRepr c"
  using assms by (simp add: struct_offset_def layout_def assignComponentSizesAndOffsets_def align_offset_def Let_def wrap32_small)

lemma second_scalars:
  assumes "alignOfRepr r \<notin> {2, 4, 8}" "sizeOfRepr c < 2 ^ 32" "(d, n) \<in> set (scalars r)"
  shows "(sizeOfRepr c + d, n) \<in> set (scalars (Struct [c, r]))"
  unfolding scalars.simps scalars_at_mem [OF layout_spec(1)]
  by (rule exI [of _ 1]) (use assms second_offset [OF assms(1,2)] in \<open>auto simp: struct_offset_def\<close>)

text \<open>C40: a structure is aligned like its largest component, and an alignment that is not 2, 4 or 8 is ignored:
  such a structure follows directly on whatever component is in front of it, with all its scalars, however
  they should be aligned; and so does a pointer to cell info, whose alignment is unknown.\<close>

theorem nested_struct_misaligned:
  assumes "fold max (List.map sizeOfRepr rs) 0 \<notin> {2, 4, 8}" "(d, n) \<in> set (scalars (Struct rs))" "sizeOfRepr c < 2 ^ 32"
  shows "(sizeOfRepr c + d, n) \<in> set (scalars (Struct [c, Struct rs]))
    \<and> (sizeOfRepr c, 4) \<in> set (scalars (Struct [c, Basic REPR_CELL_INFO_PTR]))"
proof
  show "(sizeOfRepr c + d, n) \<in> set (scalars (Struct [c, Struct rs]))"
    by (rule second_scalars) (use assms in \<open>simp_all add: layout_spec(5) layout_spec(6) del: alignOfRepr.simps\<close>)
  show "(sizeOfRepr c, 4) \<in> set (scalars (Struct [c, Basic REPR_CELL_INFO_PTR]))"
    using second_scalars [of "Basic REPR_CELL_INFO_PTR" c 0 4] assms(3) by (simp add: basic_align_def)
qed

lemma nested_struct_misaligned_witness:
  "(1, 4) \<in> set (scalars (Struct [Basic REPR_CHAR,
      Struct [Struct [Basic REPR_INT, Basic REPR_INT, Basic REPR_INT], Basic REPR_INT]]))
   \<and> (1, 4) \<in> set (scalars (Struct [Basic REPR_CHAR, Basic REPR_CELL_INFO_PTR]))"
proof -
  let ?rs = "[Struct [Basic REPR_INT, Basic REPR_INT, Basic REPR_INT], Basic REPR_INT]"
  have "fold max (List.map sizeOfRepr ?rs) 0 \<notin> {2, 4, 8}" "(0, 4) \<in> set (scalars (Struct ?rs))" by code_simp+
  from nested_struct_misaligned [OF this, of "Basic REPR_CHAR"] show ?thesis by simp
qed

subsection \<open>Sharing\<close>

lemma reprs_eq_iff: "reprs_eq rs ss \<longleftrightarrow> list_all2 repr_eq rs ss"
proof (induction rs arbitrary: ss)
  case (Cons r rs) then show ?case by (cases ss) simp_all
next
  case Nil then show ?case by (cases ss) simp_all
qed

lemma repr_eq_refl: "repr_eq r r"
  by (induction r) (auto simp: reprs_eq_iff list.rel_refl_strong)

lemma repr_eq_simps [simp]:
  "repr_eq (Struct rs) s \<longleftrightarrow> (\<exists>ss. s = Struct ss \<and> list_all2 repr_eq rs ss)"
  "repr_eq (Union rs) s \<longleftrightarrow> (\<exists>ss. s = Union ss \<and> list_all2 repr_eq rs ss)"
  "repr_eq (Basic t) s \<longleftrightarrow> s = Basic t" "repr_eq (PtrRepr p) s \<longleftrightarrow> (\<exists>q. s = PtrRepr q)"
  "repr_eq (Array n r) s \<longleftrightarrow> (\<exists>r'. s = Array n r' \<and> repr_eq r r')"
  by (cases s; auto simp: reprs_eq_iff)+

lemma repr_eq_sym: "repr_eq r s \<Longrightarrow> repr_eq s r"
proof (induction r arbitrary: s)
  case (Struct rs) then show ?case by (auto simp: list_all2_conv_all_nth)
next
  case (Union rs) then show ?case by (auto simp: list_all2_conv_all_nth)
qed auto

lemma repr_eq_trans: "repr_eq r s \<Longrightarrow> repr_eq s t \<Longrightarrow> repr_eq r t"
proof (induction r arbitrary: s t)
  case (Struct rs) then show ?case by (auto simp: list_all2_conv_all_nth) (metis nth_mem)
next
  case (Union rs) then show ?case by (auto simp: list_all2_conv_all_nth) (metis nth_mem)
qed auto

definition same_shape :: "Repr \<Rightarrow> Repr \<Rightarrow> bool" where
  "same_shape r s \<longleftrightarrow> sizeOfRepr r = sizeOfRepr s \<and> alignOfRepr r = alignOfRepr s \<and> scalars r = scalars s
     \<and> (markableForGC r \<longleftrightarrow> markableForGC s)"

lemma same_components:
  assumes "list_all2 same_shape rs ss"
  shows "layout rs = layout ss" "scalars_at offs rs = scalars_at offs ss"
    "List.map sizeOfRepr rs = List.map sizeOfRepr ss" "List.map alignOfRepr rs = List.map alignOfRepr ss"
    "list_ex markableForGC rs = list_ex markableForGC ss"
proof -
  have d: "List.map (\<lambda>r. (sizeOfRepr r, alignOfRepr r)) rs = List.map (\<lambda>r. (sizeOfRepr r, alignOfRepr r)) ss"
    and m: "List.map sizeOfRepr rs = List.map sizeOfRepr ss" "List.map alignOfRepr rs = List.map alignOfRepr ss"
    and e: "list_ex markableForGC rs = list_ex markableForGC ss"
    using assms by (induction rs ss rule: list_all2_induct) (auto simp: same_shape_def)
  show "layout rs = layout ss" unfolding layout_def d ..
  show "scalars_at offs rs = scalars_at offs ss"
    using assms
  proof (induction rs ss arbitrary: offs rule: list_all2_induct)
    case (Cons r rs s ss) then show ?case by (cases offs) (auto simp: same_shape_def)
  qed simp
  show "List.map sizeOfRepr rs = List.map sizeOfRepr ss" "List.map alignOfRepr rs = List.map alignOfRepr ss"
    "list_ex markableForGC rs = list_ex markableForGC ss" by (fact m e)+
qed

lemma repr_eq_same: "repr_eq r s \<Longrightarrow> same_shape r s"
proof (induction r arbitrary: s)
  case (Struct rs)
  then obtain ss where s: "s = Struct ss" "list_all2 same_shape rs ss"
    by (auto intro: list.rel_mono_strong)
  from same_components [OF s(2)] s(1) show ?case by (simp add: same_shape_def layout_def)
next
  case (Union rs)
  then obtain ss where s: "s = Union ss" "list_all2 same_shape rs ss"
    by (auto intro: list.rel_mono_strong)
  from same_components [OF s(2)] s list_all2_lengthD [OF s(2)] show ?case by (simp add: same_shape_def)
next
  case (PtrRepr p) then show ?case by (auto simp: same_shape_def)
next
  case (Array n r) then show ?case by (auto simp: same_shape_def)
qed (simp add: same_shape_def)

lemma matches_iff: "matches rs ss \<longleftrightarrow> list_all2 repr_eq rs ss"
  by (auto simp: matches_def reprs_eq_iff dest: list_all2_lengthD)

lemma matches_layout: "matches rs ss \<Longrightarrow> layout rs = layout ss"
  unfolding matches_iff by (rule same_components) (auto intro: list.rel_mono_strong repr_eq_same)

text \<open>C25: comparison of representations is an equivalence, and representations that compare equal
  have the same size, alignment, scalars at the same offsets, and marking.\<close>

theorem repr_comparison:
  "repr_eq r r \<and> (repr_eq r s \<longrightarrow> repr_eq s r) \<and> (repr_eq r s \<longrightarrow> repr_eq s t \<longrightarrow> repr_eq r t)
   \<and> (repr_eq r s \<longrightarrow> sizeOfRepr r = sizeOfRepr s \<and> alignOfRepr r = alignOfRepr s \<and> scalars r = scalars s
       \<and> (markableForGC r \<longleftrightarrow> markableForGC s))"
  using repr_eq_refl repr_eq_sym repr_eq_trans repr_eq_same unfolding same_shape_def by blast

lemma repr_comparison_witness:
  "sizeOfRepr (Struct [PtrRepr 0, Basic REPR_TAG]) = sizeOfRepr (Struct [PtrRepr 1, Basic REPR_TAG])"
  using repr_comparison [of "Struct [PtrRepr 0, Basic REPR_TAG]" "Struct [PtrRepr 1, Basic REPR_TAG]"]
  by (metis list.rel_inject(2) list.rel_inject(1) list_all2_Nil repr_eq.simps(2) repr_eq_refl repr_eq_simps(1))

lemma find_struct_spec:
  "find_struct rs es = Some i \<Longrightarrow> i < length es \<and> (\<exists>ss. es ! i = Struct ss \<and> matches rs ss)
     \<and> (\<forall>es'. find_struct rs (es @ es') = Some i)"
  "find_struct rs es = None \<Longrightarrow> \<forall>e \<in> set es. \<not> repr_eq (Struct rs) e"
  "find_struct rs es = None \<Longrightarrow> find_struct rs (es @ es') = map_option (\<lambda>i. i + length es) (find_struct rs es')"
proof (induction es arbitrary: i)
  case (Cons e es)
  {
    case 1 then show ?case using Cons.IH(1) by (auto split: Repr.splits if_splits)
  next
    case 2 then show ?case using Cons.IH(2) by (auto simp: matches_iff split: Repr.splits if_splits)
  next
    case 3 then show ?case using Cons.IH(3) by (auto simp: option.map_comp comp_def split: Repr.splits if_splits)
  }
qed (auto simp: option.map_ident)

lemma find_struct_first: "find_struct rs es = Some i \<Longrightarrow> \<forall>k < i. \<not> repr_eq (Struct rs) (es ! k)"
proof (induction es arbitrary: i)
  case (Cons e es)
  show ?case
  proof (intro allI impI)
    fix k assume k: "k < i"
    with Cons.prems obtain j where j: "i = Suc j" "find_struct rs es = Some j" "\<not> repr_eq (Struct rs) e"
      by (auto simp: matches_iff split: Repr.splits if_splits)
    then show "\<not> repr_eq (Struct rs) ((e # es) ! k)" using Cons.IH [OF j(2)] k by (cases k) auto
  qed
qed simp

text \<open>C26: whatever the list of representations holds, adding a structure extends it only when no entry compares
  equal, and returns the first entry that does, whose layout is the one asked for; adding it again finds the
  same entry, also after any further representations of types have been appended.\<close>

theorem struct_reprs_shared:
  assumes "addStructRepr rs es = (i, es')"
  shows "es' = (if \<exists>e \<in> set es. repr_eq (Struct rs) e then es else es @ [Struct rs])
    \<and> i < length es' \<and> (\<exists>ss. es' ! i = Struct ss \<and> layout ss = layout rs) \<and> (\<forall>j < i. \<not> repr_eq (Struct rs) (es' ! j))
    \<and> addStructRepr rs (fold typeReprInfo reprs es') = (i, fold typeReprInfo reprs es')"
proof -
  have ap: "fold typeReprInfo reprs xs = xs @ reprs" for xs
    by (induction reprs arbitrary: xs) (simp_all add: typeReprInfo_def)
  show ?thesis
  proof (cases "find_struct rs es")
    case None
    then have e: "es' = es @ [Struct rs]" "i = length es" using assms by (auto simp: addStructRepr_def)
    have "matches rs rs" by (simp add: matches_iff list_all2_refl repr_eq_refl)
    then have "find_struct rs (es' @ reprs) = Some i" using find_struct_spec(3) [OF None] e by simp
    moreover have n: "\<forall>e \<in> set es. \<not> repr_eq (Struct rs) e" using find_struct_spec(2) [OF None] .
    moreover have "\<not> repr_eq (Struct rs) (es' ! j)" if "j < i" for j
      using that n nth_mem [of j es] unfolding e nth_append by (simp del: repr_eq_simps)
    ultimately show ?thesis using e ap by (auto simp: addStructRepr_def)
  next
    case (Some j)
    then have e: "es' = es" "i = j" using assms by (auto simp: addStructRepr_def)
    from find_struct_spec(1) [OF Some] obtain ss where ss: "j < length es" "es ! j = Struct ss" "matches rs ss"
      "find_struct rs (es @ reprs) = Some j" by blast
    have "repr_eq (Struct rs) (es ! j)" using ss(2,3) by (simp add: matches_iff)
    then have "\<exists>e \<in> set es. repr_eq (Struct rs) e" using ss(1) by (meson nth_mem)
    moreover have "\<forall>k < j. \<not> repr_eq (Struct rs) (es ! k)" using find_struct_first [OF Some] .
    ultimately show ?thesis using e ss ap matches_layout [OF ss(3)] by (auto simp: addStructRepr_def)
  qed
qed

lemma struct_reprs_shared_witness:
  "addStructRepr [PtrRepr 1] [Struct [PtrRepr 0]] = (0, [Struct [PtrRepr 0]])
   \<and> layout [PtrRepr 0] = layout [PtrRepr 1]"
proof -
  have a: "addStructRepr [PtrRepr 1] [Struct [PtrRepr 0]] = (0, [Struct [PtrRepr 0]])" by code_simp
  from struct_reprs_shared [OF this, of "[]"] show ?thesis using a by simp
qed

text \<open>The appended representations are not shared: the list that is kept as unique holds what was asked for twice
  two times.\<close>

lemma type_reprs_repeated: "typeReprInfo r (typeReprInfo r es) = es @ [r, r]"
  by (simp add: typeReprInfo_def)

end
