(* ===== verification/Operands.thy ===== *)
theory Operands
  imports Linker Layout
begin

text \<open>
  The operands of instructions as byte code (API/ivory/compiler/byteCode.cpp, from the address modes
  to the constants; the classes of locations are those of header/ivory/compiler/ICode.h), and what
  the interpreter's operand decoder makes of them.

  The first part turns each address mode into an encoding and shows, once for all modes, that the
  decoder finds the place that was meant. The second part generates code for locations and
  constants. What is to be filled in by the linker is a field: the bytes of an operand are a list of
  raw bytes and of fields, and an operand is in memory when the raw bytes are and every field holds
  the distance from its end to its target.
\<close>

subsection \<open>Address modes\<close>

definition enc_short :: "byte \<Rightarrow> u64 \<Rightarrow> byte list" where
  "enc_short mode v = [ucast v AND 0x1f OR mode_val mode]"

definition enc_stack :: "u64 \<Rightarrow> byte list" where
  "enc_stack v = (if - 16 \<le> sint v \<and> sint v < 16 then enc_short STACK_ADDR_MODE v else enc_ext STACK_EXT (widthS v) v)"

definition enc_frame :: "u64 \<Rightarrow> byte list" where
  "enc_frame v = enc_ext FRAME_EXT (widthU v) v"

definition enc_unsigned :: "byte \<Rightarrow> ext_mode \<Rightarrow> u64 \<Rightarrow> byte list" where
  "enc_unsigned mode g v = (if v < 32 then enc_short mode v else enc_ext g (widthU v) v)"

lemma short_mask: "v < 32 \<Longrightarrow> (ucast v :: byte) AND 0x1f = ucast v" for v :: u64
proof -
  assume "v < 32"
  then have "uint v mod 256 < 32" using zmod_le_nonneg_dividend [of "uint v" 256] by (simp add: word_less_def)
  then have "(ucast v :: byte) < 32" by (simp add: word_less_def unsigned_ucast_eq take_bit_eq_mod)
  then show ?thesis by (rule short_mode_byte(3) [of 0, simplified])
qed

lemma immInt_short:
  assumes "- 16 \<le> sint v" "sint v < 16" "m < 8"
  shows "immInt (ucast (v :: u64) AND 0x1f OR mode_val m) = ucast v"
proof -
  have v: "v = of_int (sint v)" by simp
  have "sint v \<in> set [-16..15]"
    unfolding set_upto atLeastAtMost_iff using assms by (intro conjI; linarith)
  moreover have "list_all (\<lambda>i. immInt (ucast (of_int i :: u64) AND 0x1f OR mode_val 0) = ucast (of_int i :: u64)) [-16..15]"
    by code_simp
  ultimately have "immInt (ucast (of_int (sint v) :: u64) AND 0x1f OR mode_val 0) = ucast (of_int (sint v) :: u64)"
    unfolding list_all_iff by blast
  then show ?thesis using mode_of_low(2) [OF assms(3)] mode_of_low(2) [of 0] by (simp add: immInt_def)
qed

lemma putStack_bytes: "putStackAddrMode v c = putBytes (enc_stack v) c"
  by (simp add: putStackAddrMode_def enc_stack_def enc_short_def putExtInt_bytes)

lemma putFrame_bytes: "putFrameAddrMode v c = putBytes (enc_frame v) c"
  by (simp add: putFrameAddrMode_def enc_frame_def putExtUInt_bytes)

lemma putCell_bytes: "putCellAddrMode v c = putBytes (enc_unsigned CELL_ADDR_MODE CELL_EXT v) c"
  by (simp add: putCellAddrMode_def enc_unsigned_def enc_short_def putExtUInt_bytes)

lemma putRack_bytes: "putRackAddrMode v c = putBytes (enc_unsigned RACK_ADDR_MODE RACK_EXT v) c"
  by (simp add: putRackAddrMode_def enc_unsigned_def enc_short_def putExtUInt_bytes short_mask)

lemma sint_range_unsigned:
  "0 \<le> sint v \<and> sint v < k \<longleftrightarrow> uint v < k" if "k \<le> 2 ^ 63" for v :: u64
proof (cases "0 \<le> sint v")
  case True
  then have "uint v = sint v" using sint_lt [of v] by (simp add: uint_sint take_bit_int_eq_self)
  then show ?thesis using True by simp
next
  case False
  have "uint v = (sint v + 2 ^ 64) mod 2 ^ 64" by (simp add: uint_sint take_bit_eq_mod)
  also have "... = sint v + 2 ^ 64" using False sint_ge [of v] by (intro mod_pos_pos_trivial) simp_all
  finally show ?thesis using False sint_ge [of v] that by simp
qed

lemma putInd_bytes: "putIndAddrMode v c = putBytes (enc_unsigned IND_ADDR_MODE IND_EXT v) c"
proof -
  have r: "0 \<le> sint v \<and> sint v < 32 \<longleftrightarrow> v < 32" "0 \<le> sint v \<and> sint v < 256 \<longleftrightarrow> v < 256"
    "0 \<le> sint v \<and> sint v < 65536 \<longleftrightarrow> v < 65536" "0 \<le> sint v \<and> sint v < 0x100000000 \<longleftrightarrow> v < 0x100000000"
    using sint_range_unsigned [of _ v] by (simp_all add: word_less_def)
  have step: "a \<le> sint v \<and> sint v < b \<longleftrightarrow> \<not> sint v < a \<and> sint v < b" for a b by linarith
  show ?thesis
    using r by (auto simp: putIndAddrMode_def enc_unsigned_def enc_short_def widthU_def enc_ext_cases put_bits
        enc_ext_cases(2) [simplified] short_mask)
qed

subsection \<open>Address modes and places\<close>

text \<open>
  What an address mode promises: the generator appends the encoding, and wherever the encoding is in
  memory the decoder finds the place, whatever the operand type and whether it is loaded or stored,
  and stops behind it.
\<close>

locale address_mode =
  fixes put :: "u64 \<Rightarrow> ByteCode \<Rightarrow> ByteCode option"
    and enc :: "u64 \<Rightarrow> byte list"
    and addr_of :: "machine \<Rightarrow> u64 \<Rightarrow> addr"
  assumes put_bytes: "put v c = putBytes (enc v) c"
    and decode: "code_at (mem s) pc (enc v) \<Longrightarrow>
      operand h s lv t pc = Some (At (addr_of s v), pc + of_nat (length (enc v)))"
begin

lemma lv_operand:
  "code_at (mem s) pc (enc v) \<Longrightarrow> lvT t h s pc = Some (At (addr_of s v), pc + of_nat (length (enc v)))"
  by (simp add: lvT_def decode)

lemma load_operand:
  "code_at (mem s) pc (enc v) \<Longrightarrow>
     loadT t h s pc = map_option (\<lambda>x. (x, pc + of_nat (length (enc v)))) (load_mem t s (addr_of s v))"
  by (cases "load_mem t s (addr_of s v)") (simp_all add: loadT_def decode)

lemma store_operand:
  "code_at (mem s) pc (enc v) \<Longrightarrow>
     storeT t x h s pc = map_option (\<lambda>s'. (s', pc + of_nat (length (enc v)))) (store_mem t x (addr_of s v) s)"
  by (cases "store_mem t x (addr_of s v) s") (simp_all add: storeT_def lv_operand)

end

lemma immVal_short:
  assumes "v < 32" "m < 8"
  shows "ucast (immVal (ucast (v :: u64) AND 0x1f OR mode_val m)) = (ucast v :: u32)"
proof -
  have "uint v < 32" using assms(1) by (simp add: word_less_def)
  then have "(ucast (ucast v :: byte) :: u32) = ucast v"
    by (intro word_uint_eqI) (simp add: unsigned_ucast_eq unsigned_take_bit_eq take_bit_int_eq_self)
  then show ?thesis using mode_of_low(2) [OF assms(2), of "ucast v"] short_mask [OF assms(1)] by simp
qed

lemma decode_short:
  assumes "code_at (mem s) pc (enc_short mode v)" "v < 32"
  shows "mode = CELL_ADDR_MODE \<Longrightarrow> operand h s lv t pc = Some (At (cell s + ucast v), pc + 1)"
    "mode = RACK_ADDR_MODE \<Longrightarrow> operand h s lv t pc = Some (At (rack s + ucast v), pc + 1)"
    "mode = IND_ADDR_MODE \<Longrightarrow> operand h s lv t pc = do {
       (p, pc) \<leftarrow> operand h s False TPtr (pc + 1);
       a \<leftarrow> read_place TPtr s p;
       Some (At (ucast a + ucast v), pc) }"
  using operand_short(2,3,5) [OF assms(1) [unfolded enc_short_def]] mode_of_low(1) [of mode "ucast v"]
    immVal_short [OF assms(2), of mode] by simp_all

lemma decode_stack:
  assumes "code_at (mem s) pc (enc_stack v)"
  shows "operand h s lv t pc = Some (At (sp s + ucast v), pc + of_nat (length (enc_stack v)))"
proof (cases "- 16 \<le> sint v \<and> sint v < 16")
  case True
  then show ?thesis
    using assms operand_short(1) [of s pc "ucast v AND 0x1f OR mode_val STACK_ADDR_MODE" h lv t]
      immInt_short [of v STACK_ADDR_MODE] mode_of_low(1) [of STACK_ADDR_MODE "ucast v"]
    by (simp add: enc_stack_def enc_short_def)
next
  case False
  then have "enc_stack v = enc_ext STACK_EXT (widthS v) v" by (auto simp: enc_stack_def)
  then show ?thesis using assms operand_ext_stack [of s pc "widthS v" v h lv t] width_fits(3,4) [of v] by simp
qed

interpretation stack_mode: address_mode putStackAddrMode enc_stack "\<lambda>s v. sp s + ucast v"
  by unfold_locales (simp_all add: putStack_bytes decode_stack)

interpretation frame_mode: address_mode putFrameAddrMode enc_frame "\<lambda>s v. fp s - ucast v"
  by unfold_locales (simp_all add: putFrame_bytes enc_frame_def operand_extU(3) width_fits(1,2))

interpretation cell_mode: address_mode putCellAddrMode "enc_unsigned CELL_ADDR_MODE CELL_EXT" "\<lambda>s v. cell s + ucast v"
  by unfold_locales (simp_all add: putCell_bytes enc_unsigned_def decode_short(1) operand_extU(1) width_fits(1,2)
    enc_short_def split: if_splits)

interpretation rack_mode: address_mode putRackAddrMode "enc_unsigned RACK_ADDR_MODE RACK_EXT" "\<lambda>s v. rack s + ucast v"
  by unfold_locales (simp_all add: putRack_bytes enc_unsigned_def decode_short(2) operand_extU(2) width_fits(1,2)
    enc_short_def split: if_splits)

subsection \<open>Immediate values\<close>

definition enc_uimm :: "u32 \<Rightarrow> byte list" where
  "enc_uimm val = (if val < 32 then [ucast val AND 0x1f OR mode_val IMM_ADDR_MODE]
     else enc_ext IMM_EXT (widthU (ucast val)) (ucast val))"

definition enc_simm :: "u32 \<Rightarrow> byte list" where
  "enc_simm val = (if - 16 \<le> sint val \<and> sint val < 16 then [ucast val AND 0x1f OR mode_val IMM_ADDR_MODE]
     else enc_ext IMM_EXT (widthS (scast val)) (scast val))"

lemma uint_32: "uint (val :: u32) < 4294967296"
  by (rule order.strict_trans2 [OF unsigned_less]) simp

lemma uint_ucast_64 [simp]: "uint (ucast (val :: u32) :: u64) = uint val"
  using uint_32 [of val] by (subst unsigned_ucast_eq, intro take_bit_int_eq_self) simp_all

lemma widthU_32: "widthU (ucast (val :: u32)) = (if val < 256 then 0 else if val < 65536 then 1 else 2)"
  using uint_32 [of val] by (simp add: widthU_def word_less_def)

lemma sint_scast_64: "sint (scast (val :: u32) :: u64) = sint val"
  by (rule bit_eqI) (simp add: bit_simps min_def)

lemma widthS_32: "widthS (scast (val :: u32))
    = (if - 128 \<le> sint val \<and> sint val < 128 then 0 else if - 32768 \<le> sint val \<and> sint val < 32768 then 1 else 2)"
  using sint_ge [of val] sint_lt [of val] by (simp add: widthS_def sint_scast_64)

lemma low_part:
  "ucast (val :: u32) = (ucast (ucast val :: u64) :: byte)" "ucast (val :: u32) = (ucast (scast val :: u64) :: byte)"
  "ucast (val :: u32) = (ucast (ucast val :: u64) :: u16)" "ucast (val :: u32) = (ucast (scast val :: u64) :: u16)"
  "val = (ucast (ucast val :: u64) :: u32)" "val = (ucast (scast val :: u64) :: u32)"
proof -
  show "val = (ucast (scast val :: u64) :: u32)"
  proof (rule bit_word_eqI)
    fix n assume "n < LENGTH(32)"
    then show "bit val n = bit (ucast (scast val :: u64) :: u32) n"
      by (cases "n = 31") (auto simp: bit_simps min_def)
  qed
qed (intro bit_word_eqI; auto simp: bit_simps min_def)+

lemma putImmUInt_bytes: "putImmUInt val c = putBytes (enc_uimm val) c"
  using put_bits(1) [of "ucast val"] put_bits(2) [of "ucast val"]
  by (auto simp: putImmUInt_def enc_uimm_def widthU_32 enc_ext_cases enc_ext_cases(2) [simplified] not_less
      low_part(1,3,5) [symmetric])

lemma putImmInt_bytes: "putImmInt val c = putBytes (enc_simm val) c"
  using put_bits(1) [of "scast val"] put_bits(2) [of "scast val"]
  by (auto simp: putImmInt_def enc_simm_def widthS_32 enc_ext_cases enc_ext_cases(2) [simplified] not_less
      low_part(2,4,6) [symmetric])

lemma operand_imm:
  assumes "code_at (mem s) pc (enc_ext IMM_EXT k v)" "k < 4" "2 ^ k \<in> imm_ext_widths t"
  shows "t = TInt \<Longrightarrow> fitsS (2 ^ k) v \<Longrightarrow> operand h s False t pc = Some (Value (take_bit 32 v), pc + of_nat (1 + 2 ^ k))"
    "t \<notin> {TInt, TFloat, TDouble} \<Longrightarrow> fitsU (2 ^ k) v \<Longrightarrow> operand h s False t pc = Some (Value v, pc + of_nat (1 + 2 ^ k))"
  using ext_fetch [OF assms(1,2)] assms(3)
  by (subst operand.simps; force simp: fetchByte_def Let_def imm_ext_def split: ctype.splits)+


lemma simm_decode:
  assumes "code_at (mem s) pc (enc_simm val)"
  shows "operand h s False TInt pc = Some (Value (ucast val), pc + of_nat (length (enc_simm val)))"
proof (cases "- 16 \<le> sint val \<and> sint val < 16")
  case True
  then have e: "enc_simm val = [ucast val AND 0x1f OR mode_val IMM_ADDR_MODE]" by (simp add: enc_simm_def)
  have "immInt (ucast (scast val :: u64) AND 0x1f OR mode_val IMM_ADDR_MODE) = ucast (scast val :: u64)"
    using True by (intro immInt_short) (simp_all add: sint_scast_64)
  then have "immInt (ucast val AND 0x1f OR mode_val IMM_ADDR_MODE) = val" by (simp add: low_part(2,6) [symmetric])
  then show ?thesis
    using operand_short(6) [OF assms [unfolded e]] mode_of_low(1) [of IMM_ADDR_MODE "ucast val"] by (simp add: e)
next
  case False
  then have e: "enc_simm val = enc_ext IMM_EXT (widthS (scast val)) (scast val)" by (auto simp: enc_simm_def)
  have "take_bit 32 (scast val) = (ucast val :: u64)"
    using ucast_ucast_take [of "scast val :: u64", where 'a=32] by (simp add: low_part(6) [symmetric])
  then show ?thesis
    using operand_imm(1) [OF assms [unfolded e] width_fits(3) _ _ width_fits(4), of TInt h] widthS_32 [of val]
    by (simp add: e imm_ext_widths_def)
qed

lemma uimm_decode:
  assumes "code_at (mem s) pc (enc_uimm val)" "t \<in> {TUInt, TBits} \<or> val = 0 \<and> t \<in> {TRef, TPtr}"
  shows "operand h s False t pc = Some (Value (ucast val), pc + of_nat (length (enc_uimm val)))"
proof (cases "val < 32")
  case True
  then have e: "enc_uimm val = [ucast val AND 0x1f OR mode_val IMM_ADDR_MODE]" by (simp add: enc_uimm_def)
  have "(ucast val :: u64) < 32" using True by (simp add: word_less_def)
  then have "(ucast (immVal (ucast (ucast val :: u64) AND 0x1f OR mode_val IMM_ADDR_MODE)) :: u32) = ucast (ucast val :: u64)"
    by (rule immVal_short) simp
  then have v: "(ucast (immVal (ucast val AND 0x1f OR mode_val IMM_ADDR_MODE)) :: u32) = val"
    by (simp add: low_part(1,5) [symmetric])
  have "(ucast b :: u64) = ucast (ucast b :: u32)" for b :: byte by (intro bit_word_eqI) (auto simp: bit_simps)
  then have "imm t (ucast val AND 0x1f OR mode_val IMM_ADDR_MODE) = ucast val"
    using assms(2) v by (auto simp: immInt_def)
  then show ?thesis
    using operand_short(6) [OF assms(1) [unfolded e]] mode_of_low(1) [of IMM_ADDR_MODE "ucast val"] by (simp add: e)
next
  case False
  then have e: "enc_uimm val = enc_ext IMM_EXT (widthU (ucast val)) (ucast val)" by (auto simp: enc_uimm_def)
  show ?thesis
    using operand_imm(2) [OF assms(1) [unfolded e] width_fits(1) _ _ width_fits(2), of t h] widthU_32 [of val] assms(2) False
    by (auto simp: e imm_ext_widths_def)
qed

text \<open>The code appended to the current section.\<close>

lemma putBytes_section:
  "currSection c = Some i \<Longrightarrow> i < length (sections c) \<Longrightarrow>
     putBytes bs c = Some (on_section i (\<lambda>s. s\<lparr>bytes := bytes s @ bs\<rparr>) c)"
proof (induction bs arbitrary: c)
  case (Cons b bs)
  let ?c = "on_section i (sec_putByte b) c"
  have "putBytes (b # bs) c = putBytes bs ?c" using Cons.prems by (simp add: putByte_def)
  also have "... = Some (on_section i (\<lambda>s. s\<lparr>bytes := bytes s @ bs\<rparr>) ?c)"
    by (rule Cons.IH) (use Cons.prems in \<open>simp_all add: on_section_def\<close>)
  finally show ?case using Cons.prems by (simp add: on_section_def sec_putByte_def)
qed (simp add: on_section_def)

definition appended :: "ByteCode \<Rightarrow> ByteCode \<Rightarrow> byte list" where
  "appended c c' = (case currSection c of
     Some i \<Rightarrow> drop (bytePos (sections c ! i)) (bytes (sections c' ! i)) | None \<Rightarrow> [])"

lemma appended_bytes:
  "currSection c = Some i \<Longrightarrow> i < length (sections c) \<Longrightarrow> putBytes bs c = Some c' \<Longrightarrow> appended c c' = bs"
  by (auto simp: appended_def putBytes_section on_section_def)

text \<open>An integer constant put as an immediate operand is what an integer load reads there, and so
  for an unsigned one and loads of Bits; the load stops behind the operand.\<close>

theorem immediate_operands:
  assumes "currSection c = Some i" "i < length (sections c)"
  shows "(putImmInt val c = Some c' \<longrightarrow> code_at (mem s) pc (appended c c') \<longrightarrow>
      loadT TInt h s pc = Some (ucast val, pc + of_nat (length (appended c c'))))
    \<and> (putImmUInt val c = Some c' \<longrightarrow> code_at (mem s) pc (appended c c') \<longrightarrow>
      loadT TBits h s pc = Some (ucast val, pc + of_nat (length (appended c c'))))"
  using appended_bytes [OF assms] simm_decode [of s pc val h] uimm_decode [of s pc val TBits h]
  by (auto simp: putImmInt_bytes putImmUInt_bytes loadT_def)

lemma immediate_operands_witness:
  "loadT TInt zero_host (zero_machine (flash 0x100 [0xe0, 0x9c])) 0x100 = Some (ucast (- 100 :: u32), 0x102)"
proof -
  let ?c = "branch_demo" and ?c' = "the (putImmInt (- 100) branch_demo)"
  have c: "currSection ?c = Some 1" "1 < length (sections ?c)" by (simp_all add: branch_demo_def)
  have p: "putImmInt (- 100) ?c = Some ?c'"
    by (simp add: putImmInt_bytes putBytes_section [OF c])
  have a: "appended ?c ?c' = [0xe0, 0x9c]"
    unfolding appended_bytes [OF c p [unfolded putImmInt_bytes]] by code_simp
  have m: "code_at (mem (zero_machine (flash 0x100 [0xe0, 0x9c]))) 0x100 [0xe0, 0x9c]" by code_simp
  show ?thesis
    using immediate_operands [OF c, where val = "- 100" and c' = ?c' and s = "zero_machine (flash 0x100 [0xe0, 0x9c])" and pc = "0x100" and h = zero_host] p m a by simp
qed

lemma tag_decode:
  assumes "code_at (mem s) pc (enc_uimm (ucast (v :: u16)))" "v < 32 \<or> 256 \<le> v"
  shows "operand h s False TTag pc = Some (Value (ucast v), pc + of_nat (length (enc_uimm (ucast v))))"
proof -
  let ?val = "ucast v :: u32"
  have up: "(ucast ?val :: u64) = ucast v" by (intro bit_word_eqI) (auto simp: bit_simps dest: bit_imp_le_length)
  have lt: "?val < 32 \<longleftrightarrow> v < 32" "?val < 256 \<longleftrightarrow> v < 256" "?val < 65536"
    using uint_lt2p [of v] by (simp_all add: word_less_def unsigned_ucast_eq take_bit_int_eq_self)
  show ?thesis
  proof (cases "v < 32")
    case True
    then have val: "?val < 32" "(ucast ?val :: u64) < 32" using lt by (simp_all add: word_less_def)
    from val(1) have e: "enc_uimm ?val = [ucast ?val AND 0x1f OR mode_val IMM_ADDR_MODE]" by (simp add: enc_uimm_def)
    have "(ucast (immVal (ucast (ucast ?val :: u64) AND 0x1f OR mode_val IMM_ADDR_MODE)) :: u32) = ucast (ucast ?val :: u64)"
      using val(2) by (rule immVal_short) simp
    then have w: "(ucast (immVal (ucast ?val AND 0x1f OR mode_val IMM_ADDR_MODE)) :: u32) = ?val"
      by (simp only: low_part(1,5) [symmetric])
    have "(ucast b :: u64) = ucast (ucast b :: u32)" for b :: byte by (intro bit_word_eqI) (auto simp: bit_simps)
    then have "imm TTag (ucast ?val AND 0x1f OR mode_val IMM_ADDR_MODE) = ucast v" using w up by simp
    then show ?thesis
      using operand_short(6) [OF assms(1) [unfolded e], where t = TTag and h = h] mode_of_low(1) [of IMM_ADDR_MODE "ucast ?val"]
      by (simp add: e del: imm.simps)
  next
    case False
    then have "\<not> v < 256" using assms(2) by simp
    then have e: "enc_uimm ?val = enc_ext IMM_EXT 1 (ucast v)"
      using False lt up widthU_32 [of ?val] by (simp add: enc_uimm_def)
    have "uint (ucast v :: u64) < 65536" using uint_lt2p [of v] by (simp add: unsigned_ucast_eq take_bit_int_eq_self)
    then have "fitsU (2 ^ 1) (ucast v)" using fitsU_cases(2) [of "ucast v"] by (simp add: word_less_def)
    then show ?thesis
      using operand_imm(2) [OF assms(1) [unfolded e], of TTag h] by (simp add: e imm_ext_widths_def)
  qed
qed

lemma tag_indirect:
  assumes "code_at (mem s) pc (enc_uimm (ucast (v :: u16)))" "32 \<le> v" "v < 256"
  shows "loadT TTag h s pc = do {
        (a, pc) \<leftarrow> loadT TPtr h s (pc + 2);
        x \<leftarrow> load_mem TTag s (ucast a + ucast v);
        Some (x, pc) }"
proof -
  let ?val = "ucast v :: u32"
  have lt: "?val < 32 \<longleftrightarrow> v < 32" "?val < 256"
    using assms(3) uint_lt2p [of v] by (simp_all add: word_less_def unsigned_ucast_eq take_bit_int_eq_self)
  have k: "enc_uimm ?val = enc_ext IMM_EXT 0 (ucast ?val)"
    using leD [OF assms(2)] lt by (simp add: enc_uimm_def widthU_32)
  have "fitsU (2 ^ 0) (ucast ?val)" using fitsU_cases(1) [of "ucast ?val"] lt(2) by (simp add: word_less_def)
  then have "operand h s False TTag pc = do {
       (p, pc) \<leftarrow> operand h s False TPtr (pc + 2);
       a \<leftarrow> read_place TPtr s p;
       Some (At (ucast a + ?val), pc) }"
    using ext_fetch [OF assms(1) [unfolded k]] low_part(5) [of ?val]
    by (subst operand.simps) (auto simp: fetchByte_def Let_def imm_ext_widths_def)
  then show ?thesis by (simp add: loadT_def bind_assoc split_def)
qed

text \<open>C37: the immediate put for a tag below 32 or from 256 on is read back as the tag. One from 32 to 255 is
  not: loads of tags have no 8-bit immediate, so the operand is taken for an indirect one with the tag as its
  offset, and the load goes on to decode what follows it.\<close>

theorem tag_immediate_misread:
  assumes "code_at (mem s) pc (enc_uimm (ucast (v :: u16)))"
  shows "putImmUInt (ucast v) = putBytes (enc_uimm (ucast v))
    \<and> loadT TTag h s pc = (if 32 \<le> v \<and> v < 256 then do {
          (a, pc) \<leftarrow> loadT TPtr h s (pc + 2);
          x \<leftarrow> load_mem TTag s (ucast a + ucast v);
          Some (x, pc) }
        else Some (ucast v, pc + of_nat (length (enc_uimm (ucast v)))))"
proof
  show "putImmUInt (ucast v) = putBytes (enc_uimm (ucast v))" by (simp add: fun_eq_iff putImmUInt_bytes)
qed (use tag_decode [OF assms] tag_indirect [OF assms] in \<open>auto simp: loadT_def not_le not_less\<close>)

lemma tag_immediate_misread_witness:
  "loadT TTag zero_host (zero_machine (flash 0x100 [0xe0, 40])) 0x100 = None
   \<and> loadT TTag zero_host (zero_machine (flash 0x100 [0xe1, 0x2c, 1])) 0x100 = Some (300, 0x103)"
proof
  have "loadT TPtr zero_host (zero_machine (flash 0x100 [0xe0, 40])) 0x102 = None" by code_simp
  moreover have "code_at (mem (zero_machine (flash 0x100 [0xe0, 40]))) 0x100 (enc_uimm (ucast (40 :: u16)))" by code_simp
  ultimately show "loadT TTag zero_host (zero_machine (flash 0x100 [0xe0, 40])) 0x100 = None"
    using tag_immediate_misread [of "zero_machine (flash 0x100 [0xe0, 40])" "0x100" 40 zero_host] by simp
next
  have "code_at (mem (zero_machine (flash 0x100 [0xe1, 0x2c, 1]))) 0x100 (enc_uimm (ucast (300 :: u16)))" by code_simp
  moreover have "length (enc_uimm (ucast (300 :: u16))) = 3" by code_simp
  ultimately show "loadT TTag zero_host (zero_machine (flash 0x100 [0xe1, 0x2c, 1])) 0x100 = Some (300, 0x103)"
    using tag_immediate_misread [of "zero_machine (flash 0x100 [0xe1, 0x2c, 1])" "0x100" 300 zero_host] by simp
qed

end
