(* ===== verification/Locations.thy ===== *)
theory Locations
  imports Operands
begin

text \<open>
  Byte code for locations and constants (\<open>Loc::genByteCode\<close>, \<open>Const::genByteCode\<close> and the operands
  built on them in API/ivory/compiler/byteCode.cpp).

  The state is the assembler's with what locations add to it: the stack pointer the generator tracks,
  the statically allocated locations, which get their place in the rack on first use, and the globals
  the module exports. The listing that is printed beside the code is not modelled. The locations of
  the two classes with an index are one constructor for a constant and one for a location.

  The last sections show that the operand of a location, linked and in memory, is decoded to the
  place the location stands for.
\<close>

subsection \<open>Constants and locations\<close>

datatype Const = NameConst u16 | TypeConst u16 | BitsConst u32 | IntConst u32 | DoubleConst u64
  | CharConst byte | StringConst "byte list" | TagConst u16 | CodeEnv | ConsEnv | NullRef | NullPtr | NullEnv

datatype Loc = Register u32 | SpecialLoc | StaticLoc nat | StackLoc bool u32 u32
  | CompLoc Loc "Repr list" nat | CellCompLoc Loc "Repr list" nat | IndLoc Loc
  | IndexedByConst Repr Loc Const | IndexedByLoc Repr Loc Loc

record StaticSlot =
  slot_repr :: Repr
  imported :: bool
  exported :: bool
  slot_name :: u16
  allocated :: bool
  rackPos :: nat

record CodeGen =
  code :: ByteCode
  stackPtr :: u32
  slots :: "StaticSlot list"
  globals :: "(u16 \<times> nat) list"

definition emit :: "(ByteCode \<Rightarrow> ByteCode option) \<Rightarrow> CodeGen \<Rightarrow> CodeGen option" where
  "emit f st = map_option (\<lambda>c. st\<lparr>code := c\<rparr>) (f (code st))"

text \<open>The offset of a target in a section, filled in by the linker: first alone, then behind the mode
  of an operand in memory.\<close>

definition put_field :: "nat \<Rightarrow> nat \<Rightarrow> ByteCode \<Rightarrow> ByteCode option" where
  "put_field i target c = do {
     pos \<leftarrow> code_bytePos c;
     c \<leftarrow> putBits32 0 c;
     addTargetBackPatch pos target i False c }"

definition put_target :: "nat \<Rightarrow> nat \<Rightarrow> ByteCode \<Rightarrow> ByteCode option" where
  "put_target i target c = do {
     c \<leftarrow> putByte (ext_mode_val MEM_EXT 2) c;
     put_field i target c }"

subsection \<open>Constants\<close>

text \<open>The tables of names and types are words behind a count of 16 bits.\<close>

definition name_const :: "u16 \<Rightarrow> ByteCode \<Rightarrow> (nat \<times> ByteCode) option" where
  "name_const name c = do {
     seg \<leftarrow> currSegment c;
     let (k, s) = addNameConst name (segments c ! seg);
     Some (k, on_segment seg (\<lambda>_. s) c) }"

definition type_const :: "u16 \<Rightarrow> ByteCode \<Rightarrow> (nat \<times> ByteCode) option" where
  "type_const ty c = do {
     seg \<leftarrow> currSegment c;
     let (k, s) = addTypeConst ty (segments c ! seg);
     Some (k, on_segment seg (\<lambda>_. s) c) }"

text \<open>\<open>ConstT<Double>\<close> swaps the bytes of the little-endian representation.\<close>

definition double_bytes :: "u64 \<Rightarrow> byte list" where
  "double_bytes d = rev (le_bytes 8 d)"

text \<open>A string goes to the data section; its operand has no mode.\<close>

primrec const_genByteCode :: "Const \<Rightarrow> ByteCode \<Rightarrow> ByteCode option" where
  "const_genByteCode (NameConst name) c = do {
     (k, c) \<leftarrow> name_const name c;
     put_target NAME_TABLE_SECTION_ID (2 + k * 2) c }"
| "const_genByteCode (TypeConst ty) c = do {
     (k, c) \<leftarrow> type_const ty c;
     put_target TYPE_TABLE_SECTION_ID (2 + k * 2) c }"
| "const_genByteCode (BitsConst v) c = putImmUInt v c"
| "const_genByteCode (IntConst v) c = putImmInt v c"
| "const_genByteCode (DoubleConst d) c = do {
     c \<leftarrow> putByte (ext_mode_val IMM_EXT 3) c;
     putBytes (double_bytes d) c }"
| "const_genByteCode (CharConst v) c = do {
     c \<leftarrow> putByte (ext_mode_val IMM_EXT 0) c;
     putByte v c }"
| "const_genByteCode (StringConst str) c = do {
     let section = currSection c;
     c \<leftarrow> selectSection DATA_SECTION_ID c;
     dataPos \<leftarrow> code_bytePos c;
     c \<leftarrow> putBytes (str @ [0]) c;
     put_field DATA_SECTION_ID dataPos (c\<lparr>currSection := section\<rparr>) }"
| "const_genByteCode (TagConst v) c = putImmUInt (ucast v) c"
| "const_genByteCode CodeEnv c = put_target RACK_SECTION_ID 0 c"
| "const_genByteCode ConsEnv c = putRegAddrMode 1 c"
| "const_genByteCode NullRef c = putImmUInt 0 c"
| "const_genByteCode NullPtr c = putImmUInt 0 c"
| "const_genByteCode NullEnv c = putImmUInt 0 c"

text \<open>The same constants as data; those without a method of their own put nothing.\<close>

primrec const_genByteCodeData :: "Const \<Rightarrow> ByteCode \<Rightarrow> ByteCode option" where
  "const_genByteCodeData (NameConst name) c = do {
     (k, c) \<leftarrow> name_const name c;
     put_field NAME_TABLE_SECTION_ID (2 + k * 2) c }"
| "const_genByteCodeData (TypeConst ty) c = do {
     (k, c) \<leftarrow> type_const ty c;
     put_field TYPE_TABLE_SECTION_ID (2 + k * 2) c }"
| "const_genByteCodeData (BitsConst v) c = putBits32 v c"
| "const_genByteCodeData (IntConst v) c = putBits32 v c"
| "const_genByteCodeData (DoubleConst d) c = putBytes (double_bytes d) c"
| "const_genByteCodeData (CharConst v) c = putByte v c"
| "const_genByteCodeData (StringConst str) c = putBytes (str @ [0]) c"
| "const_genByteCodeData (TagConst v) c = putBits16 v c"
| "const_genByteCodeData CodeEnv c = Some c"
| "const_genByteCodeData ConsEnv c = Some c"
| "const_genByteCodeData NullRef c = Some c"
| "const_genByteCodeData NullPtr c = Some c"
| "const_genByteCodeData NullEnv c = Some c"

subsection \<open>Locations\<close>

text \<open>\<open>StaticLoc\<close> on first use: a slot that is imported already in this segment is shared, otherwise
  the rack grows by an aligned slot, which an imported name records and an exported one publishes.\<close>

definition imported_slot :: "u16 \<Rightarrow> ByteCodeSegment \<Rightarrow> ImportRecord option" where
  "imported_slot name seg = (case nameConstIndex name seg of
      Some k \<Rightarrow> importRec (of_nat k) seg | None \<Rightarrow> None)"

definition rack_slot :: "nat \<Rightarrow> ByteCode \<Rightarrow> (nat \<times> ByteCode) option" where
  "rack_slot n c = do {
     c \<leftarrow> padRack n c;
     pos \<leftarrow> rackBytePos c;
     c \<leftarrow> reserveRack n c;
     Some (pos, c) }"

definition allocate_slot :: "StaticSlot \<Rightarrow> ByteCode \<Rightarrow> (nat \<times> ByteCode) option" where
  "allocate_slot sl c = do {
     seg \<leftarrow> currSegment c;
     let impRec = imported_slot (slot_name sl) (segments c ! seg);
     (pos, c) \<leftarrow> (case impRec of
        Some r \<Rightarrow> Some (unat (importOffset r), c)
      | None \<Rightarrow> rack_slot (sizeOfRepr (slot_repr sl)) c);
     if imported sl \<and> impRec = None then do {
       (k, c) \<leftarrow> name_const (slot_name sl) c;
       Some (pos, on_segment seg (addImportRec (of_nat k) (of_nat pos)) c) }
     else Some (pos, c) }"

text \<open>The first position exported under a name stays.\<close>

definition addGlobal :: "u16 \<Rightarrow> nat \<Rightarrow> (u16 \<times> nat) list \<Rightarrow> (u16 \<times> nat) list" where
  "addGlobal name pos gs = (if list_ex (\<lambda>g. fst g = name) gs then gs else gs @ [(name, pos)])"

definition static_rackPos :: "nat \<Rightarrow> CodeGen \<Rightarrow> (nat \<times> CodeGen) option" where
  "static_rackPos i st =
     (if i < length (slots st) then
        (let sl = slots st ! i in
         if allocated sl then Some (rackPos sl, st)
         else do {
           (pos, c) \<leftarrow> allocate_slot sl (code st);
           Some (pos, st\<lparr>code := c, slots := (slots st)[i := sl\<lparr>allocated := True, rackPos := pos\<rparr>],
             globals := (if exported sl then addGlobal (slot_name sl) pos (globals st) else globals st)\<rparr>) })
      else None)"

text \<open>A signed sum that does not fit is undefined.\<close>

definition int32 :: "int \<Rightarrow> int option" where
  "int32 i = (if - (2 ^ 31) \<le> i \<and> i < 2 ^ 31 then Some i else None)"

text \<open>The components are numbered from 1; a component of a cell lies behind its tag.\<close>

definition comp_offset :: "Repr list \<Rightarrow> nat \<Rightarrow> u32" where
  "comp_offset rs k = of_nat (struct_offset rs (k - 1))"

definition cell_offset :: "Repr list \<Rightarrow> nat \<Rightarrow> u32" where
  "cell_offset rs k = comp_offset rs k + of_nat (sizeof TExpr)"

abbreviation (input) REG_cell :: u32 where "REG_cell \<equiv> 6"

primrec loc_genByteCode :: "Loc \<Rightarrow> u32 \<Rightarrow> CodeGen \<Rightarrow> CodeGen option" where
  "loc_genByteCode (Register i) offset st = emit (putRegAddrMode i) st"
| "loc_genByteCode SpecialLoc offset st = emit (put_target RACK_SECTION_ID 0) st"
| "loc_genByteCode (StaticLoc i) offset st = do {
     (pos, st) \<leftarrow> static_rackPos i st;
     emit (put_target RACK_SECTION_ID pos) st }"
| "loc_genByteCode (StackLoc fp_rel off sz) offset st =
     (if \<not> fp_rel then do {
        fin \<leftarrow> int32 (sint off + sint sz);
        stackOffset \<leftarrow> int32 (sint (stackPtr st) - fin);
        v \<leftarrow> int32 (stackOffset + sint offset);
        emit (putStackAddrMode (of_int v)) st }
      else emit (putFrameAddrMode (ucast ((off + sz) - offset))) st)"
| "loc_genByteCode (CompLoc l rs k) offset st = loc_genByteCode l (offset + comp_offset rs k) st"
| "loc_genByteCode (CellCompLoc l rs k) offset st =
     (let byteOffset = cell_offset rs k in
      if l = Register REG_cell then emit (putCellAddrMode (ucast (offset + byteOffset))) st
      else do {
        st \<leftarrow> emit (putIndAddrMode (ucast (offset + byteOffset))) st;
        loc_genByteCode l 0 st })"
| "loc_genByteCode (IndLoc l) offset st = do {
     st \<leftarrow> emit (putIndAddrMode (scast offset)) st;
     loc_genByteCode l 0 st }"
| "loc_genByteCode (IndexedByConst r l k) offset st = do {
     st \<leftarrow> emit (putIndexedAddrMode (scast offset)) st;
     st \<leftarrow> emit (putVLU (of_nat (sizeOfRepr r))) st;
     st \<leftarrow> loc_genByteCode l 0 st;
     emit (const_genByteCode k) st }"
| "loc_genByteCode (IndexedByLoc r l k) offset st = do {
     st \<leftarrow> emit (putIndexedAddrMode (scast offset)) st;
     st \<leftarrow> emit (putVLU (of_nat (sizeOfRepr r))) st;
     st \<leftarrow> loc_genByteCode l 0 st;
     loc_genByteCode k 0 st }"

subsection \<open>What an operand appends\<close>

datatype item = Raw "byte list" | Field nat nat

primrec item_bytes :: "item list \<Rightarrow> byte list" where
  "item_bytes [] = []"
| "item_bytes (it # its) = (case it of Raw bs \<Rightarrow> bs | Field _ _ \<Rightarrow> [0, 0, 0, 0]) @ item_bytes its"

text \<open>The back-patches of the fields, the last one first, with the sections looked up by their number.\<close>

primrec item_patches :: "(nat \<Rightarrow> nat option) \<Rightarrow> nat \<Rightarrow> nat \<Rightarrow> item list \<Rightarrow> BackPatchElement list" where
  "item_patches look sec pos [] = []"
| "item_patches look sec pos (it # its) = (case it of
      Raw bs \<Rightarrow> item_patches look sec (pos + length bs) its
    | Field i t \<Rightarrow> item_patches look sec (pos + 4) its @
        [\<lparr>bp_pos = pos, posSection = sec, bp_origin = pos + 4, originSection = Some sec, bp_target = Simple t (look i)\<rparr>])"

lemma item_bytes_append [simp]: "item_bytes (xs @ ys) = item_bytes xs @ item_bytes ys"
  by (induction xs) simp_all

lemma item_patches_append [simp]:
  "item_patches look sec pos (xs @ ys)
     = item_patches look sec (pos + length (item_bytes xs)) ys @ item_patches look sec pos xs"
  by (induction xs arbitrary: pos) (auto simp: ac_simps eval_nat_numeral split: item.split)

text \<open>What emission leaves alone: everything but the ends of the sections, of the constant tables and of
  the list of back-patches.\<close>

definition extends :: "'a list \<Rightarrow> 'a list \<Rightarrow> bool" where
  "extends xs ys \<longleftrightarrow> (\<exists>zs. ys = xs @ zs)"

lemma extends_refl [simp, intro!]: "extends xs xs" "extends xs (xs @ ys)"
  by (auto simp: extends_def)

lemma extends_trans [trans]: "extends xs ys \<Longrightarrow> extends ys zs \<Longrightarrow> extends xs zs"
  by (auto simp: extends_def)

definition section_grown :: "ByteCodeSection \<Rightarrow> ByteCodeSection \<Rightarrow> bool" where
  "section_grown s s' \<longleftrightarrow> sec_id s' = sec_id s \<and> align s' = align s \<and> owner s' = owner s \<and> extends (bytes s) (bytes s')"

definition segment_grown :: "ByteCodeSegment \<Rightarrow> ByteCodeSegment \<Rightarrow> bool" where
  "segment_grown s s' \<longleftrightarrow> seg_sections s' = seg_sections s \<and> extends (nameConsts s) (nameConsts s')
     \<and> extends (typeConsts s) (typeConsts s')"

definition grown :: "ByteCode \<Rightarrow> ByteCode \<Rightarrow> bool" where
  "grown c c' \<longleftrightarrow> currSection c' = currSection c \<and> currSegment c' = currSegment c
     \<and> codeSection c' = codeSection c \<and> insBackPatchList c' = insBackPatchList c \<and> labels c' = labels c
     \<and> list_all2 section_grown (sections c) (sections c') \<and> list_all2 segment_grown (segments c) (segments c')"

lemma section_grown_refl [simp]: "section_grown s s" and segment_grown_refl [simp]: "segment_grown g g"
  by (simp_all add: section_grown_def segment_grown_def)

lemma grown_refl [simp, intro!]: "grown c c"
  by (simp add: grown_def list_all2_refl)

lemma grown_trans [trans]:
  assumes "grown a b" "grown b c"
  shows "grown a c"
proof -
  have s: "section_grown x z" if "section_grown x y" "section_grown y z" for x y z
    using that extends_trans [of "bytes x" "bytes y" "bytes z"] by (simp add: section_grown_def)
  have g: "segment_grown x z" if "segment_grown x y" "segment_grown y z" for x y z
    using that extends_trans [of "nameConsts x" "nameConsts y" "nameConsts z"]
      extends_trans [of "typeConsts x" "typeConsts y" "typeConsts z"] by (simp add: segment_grown_def)
  have l: "list_all2 section_grown (sections a) (sections b)" "list_all2 section_grown (sections b) (sections c)"
    "list_all2 segment_grown (segments a) (segments b)" "list_all2 segment_grown (segments b) (segments c)"
    using assms by (simp_all add: grown_def)
  from list_all2_trans [OF s l(1,2)] list_all2_trans [OF g l(3,4)]
  show ?thesis using assms by (simp add: grown_def)
qed

lemma grown_getSection:
  assumes "grown c c'" "segments_ok c" "seg < length (segments c)"
  shows "getSection seg i c' = getSection seg i c"
proof -
  have l: "length (sections c') = length (sections c)" "length (segments c') = length (segments c)"
    using assms(1) by (auto simp: grown_def dest: list_all2_lengthD)
  have n: "sec_id (sections c' ! j) = sec_id (sections c ! j)" if "j < length (sections c)" for j
    using assms(1) that by (auto simp: grown_def section_grown_def dest: list_all2_nthD)
  have g: "seg_sections (segments c' ! seg) = seg_sections (segments c ! seg)"
    using assms(1,3) by (auto simp: grown_def segment_grown_def dest: list_all2_nthD)
  show ?thesis
  proof (cases "seg_sections (segments c ! seg)")
    case (Some first)
    then have f: "first < length (sections c)" using assms(2,3) nth_mem by (fastforce simp: segments_ok_def)
    show ?thesis
      unfolding getSection_def g Some option.case l
      by (rule find_cong) (use f n in auto)
  qed (simp add: getSection_def g)
qed

text \<open>The generator is in a code section: neither the rack nor the data.\<close>

definition in_code :: "ByteCode \<Rightarrow> nat \<Rightarrow> nat \<Rightarrow> bool" where
  "in_code c sec seg \<longleftrightarrow> currSection c = Some sec \<and> currSegment c = Some seg \<and> sec < length (sections c)
     \<and> seg < length (segments c) \<and> segments_ok c \<and> getSection seg RACK_SECTION_ID c \<noteq> Some sec
     \<and> getSection seg DATA_SECTION_ID c \<noteq> Some sec"

lemma in_code_grown:
  assumes "in_code c sec seg" "grown c c'"
  shows "in_code c' sec seg"
proof -
  have l: "length (sections c') = length (sections c)" "length (segments c') = length (segments c)"
    using assms(2) by (auto simp: grown_def dest: list_all2_lengthD)
  have "segments_ok c'"
    unfolding segments_ok_def
  proof
    fix s assume "s \<in> set (segments c')"
    then obtain k where k: "k < length (segments c)" "s = segments c' ! k" by (auto simp: in_set_conv_nth l)
    then have "seg_sections s = seg_sections (segments c ! k)"
      using assms(2) by (auto simp: grown_def segment_grown_def dest: list_all2_nthD)
    moreover have "segments c ! k \<in> set (segments c)" using k by simp
    ultimately show "pred_option (\<lambda>i. i < length (sections c')) (seg_sections s)"
      using assms(1) l by (auto simp: in_code_def segments_ok_def)
  qed
  then show ?thesis
    using assms l grown_getSection [OF assms(2), of seg] by (auto simp: in_code_def grown_def)
qed

definition emitted :: "item list \<Rightarrow> ByteCode \<Rightarrow> ByteCode \<Rightarrow> bool" where
  "emitted its c c' \<longleftrightarrow> grown c c' \<and> (\<forall>sec seg. in_code c sec seg \<longrightarrow>
     bytes (sections c' ! sec) = bytes (sections c ! sec) @ item_bytes its
     \<and> backPatchList c' = item_patches (\<lambda>i. getSection seg i c) sec (bytePos (sections c ! sec)) its @ backPatchList c)"

lemma emitted_append:
  assumes "emitted xs a b" "emitted ys b c"
  shows "emitted (xs @ ys) a c"
proof -
  have "grown a c" using assms grown_trans unfolding emitted_def by blast
  moreover have "bytes (sections c ! sec) = bytes (sections a ! sec) @ item_bytes (xs @ ys)
      \<and> backPatchList c = item_patches (\<lambda>i. getSection seg i a) sec (bytePos (sections a ! sec)) (xs @ ys) @ backPatchList a"
    if i: "in_code a sec seg" for sec seg
  proof -
    have g: "grown a b" using assms(1) by (simp add: emitted_def)
    have "getSection seg j b = getSection seg j a" for j
      using grown_getSection [OF g] i by (simp add: in_code_def)
    then show ?thesis
      using assms i in_code_grown [OF i g] by (auto simp: emitted_def)
  qed
  ultimately show ?thesis by (simp add: emitted_def)
qed

lemma putBytes_on_section:
  "putBytes bs c = (if bs = [] then Some c
     else map_option (\<lambda>i. on_section i (\<lambda>s. s\<lparr>bytes := bytes s @ bs\<rparr>) c) (currSection c))"
proof (induction bs arbitrary: c)
  case (Cons b bs)
  then show ?case by (cases "currSection c") (auto simp: putByte_def sec_putByte_def [abs_def])
qed simp

lemma grown_on_section:
  "(\<And>s. section_grown s (f s)) \<Longrightarrow> grown c (on_section i f c)"
  by (cases "i < length (sections c)")
    (auto simp: grown_def on_section_def list_all2_conv_all_nth nth_list_update list_update_beyond)

lemma grown_on_segment:
  "i < length (segments c) \<longrightarrow> segment_grown (segments c ! i) (f (segments c ! i)) \<Longrightarrow> grown c (on_segment i f c)"
  by (cases "i < length (segments c)")
    (auto simp: grown_def on_segment_def list_all2_conv_all_nth nth_list_update list_update_beyond)

lemma section_grown_append [simp]: "section_grown s (s\<lparr>bytes := bytes s @ bs\<rparr>)"
  by (simp add: section_grown_def)

lemma emitted_none: "grown c c' \<Longrightarrow> backPatchList c' = backPatchList c \<Longrightarrow>
    (\<And>sec seg. in_code c sec seg \<Longrightarrow> bytes (sections c' ! sec) = bytes (sections c ! sec)) \<Longrightarrow> emitted [] c c'"
  by (simp add: emitted_def)

lemma emitted_putBytes:
  assumes "putBytes bs c = Some c'"
  shows "emitted [Raw bs] c c'"
proof (cases "bs = []")
  case True
  then show ?thesis using assms by (simp add: emitted_def)
next
  case False
  then obtain i where "currSection c = Some i" "c' = on_section i (\<lambda>s. s\<lparr>bytes := bytes s @ bs\<rparr>) c"
    using assms by (auto simp: putBytes_on_section)
  then show ?thesis by (auto simp: emitted_def in_code_def grown_on_section, simp add: on_section_def)
qed

lemma emitted_put_field:
  assumes "put_field i t c = Some c'"
  shows "emitted [Field i t] c c'"
proof -
  from assms obtain pos c1 where c1: "code_bytePos c = Some pos" "putBits32 0 c = Some c1"
    and c': "addTargetBackPatch pos t i False c1 = Some c'" by (auto simp: put_field_def bind_simps)
  then have p: "putBytes [0, 0, 0, 0] c = Some c1" by (simp add: put_words le_bytes_cases)
  then have e: "emitted [Raw [0, 0, 0, 0]] c c1" by (rule emitted_putBytes)
  have g: "grown c c1" using e by (simp add: emitted_def)
  have bp: "backPatchList c1 = backPatchList c" using p by (auto simp: putBytes_on_section)
  from c' obtain sec seg where s: "currSection c1 = Some sec" "currSegment c1 = Some seg" and
    c'_eq: "c' = add_patch \<lparr>bp_pos = pos, posSection = sec, bp_origin = bytePos (sections c1 ! sec), originSection = Some sec,
      bp_target = Simple t (getSection seg i c1)\<rparr> c1"
    by (auto simp: addTargetBackPatch_def bind_simps Let_def)
  have "grown c c'" using g by (simp add: grown_def c'_eq add_patch_def)
  moreover have "bytes (sections c' ! sec') = bytes (sections c ! sec') @ item_bytes [Field i t] \<and>
      backPatchList c' = item_patches (\<lambda>i. getSection seg' i c) sec' (bytePos (sections c ! sec')) [Field i t] @ backPatchList c"
    if i: "in_code c sec' seg'" for sec' seg'
  proof -
    have eq: "sec' = sec" "seg' = seg" "pos = bytePos (sections c ! sec)"
      using i s g c1(1) by (auto simp: in_code_def grown_def code_bytePos_def)
    have "getSection seg i c1 = getSection seg i c" for i
      using grown_getSection [OF g] i eq by (simp add: in_code_def)
    moreover have "bytes (sections c1 ! sec) = bytes (sections c ! sec) @ [0, 0, 0, 0]"
      using e i eq by (auto simp: emitted_def)
    ultimately show ?thesis using bp by (simp add: c'_eq add_patch_def eq)
  qed
  ultimately show ?thesis by (simp add: emitted_def)
qed

definition target_items :: "nat \<Rightarrow> nat \<Rightarrow> item list" where
  "target_items i t = [Raw [ext_mode_val MEM_EXT 2], Field i t]"

lemma emitted_put_target:
  assumes "put_target i t c = Some c'"
  shows "emitted (target_items i t) c c'"
proof -
  from assms obtain c1 where "putBytes [ext_mode_val MEM_EXT 2] c = Some c1" "put_field i t c1 = Some c'"
    by (auto simp: put_target_def bind_simps)
  from emitted_append [OF emitted_putBytes [OF this(1)] emitted_put_field [OF this(2)]]
  show ?thesis by (simp add: target_items_def)
qed

lemma const_index_append: "const_index k ks = Some i \<Longrightarrow> const_index k (ks @ zs) = Some i"
proof -
  have "List.find (\<lambda>i. (ks @ zs) ! i = k) [0..<length ks] = List.find (\<lambda>i. ks ! i = k) [0..<length ks]"
    by (rule find_cong) (simp add: nth_append)
  moreover have "List.find P (xs @ ys) = (case List.find P xs of Some x \<Rightarrow> Some x | None \<Rightarrow> List.find P ys)" for P xs and ys :: "nat list"
    by (induction xs) simp_all
  ultimately show "const_index k ks = Some i \<Longrightarrow> const_index k (ks @ zs) = Some i"
    by (simp add: const_index_def upt_add_eq_append [of 0])
qed

lemma const_index_new: "const_index k ks = None \<Longrightarrow> const_index k (ks @ [k]) = Some (length ks)"
proof -
  assume n: "const_index k ks = None"
  have "List.find (\<lambda>i. (ks @ [k]) ! i = k) [0..<length ks] = List.find (\<lambda>i. ks ! i = k) [0..<length ks]"
    by (rule find_cong) (simp add: nth_append)
  moreover have "List.find P (xs @ ys) = (case List.find P xs of Some x \<Rightarrow> Some x | None \<Rightarrow> List.find P ys)" for P xs and ys :: "nat list"
    by (induction xs) simp_all
  ultimately show ?thesis using n by (simp add: const_index_def)
qed

definition name_index :: "u16 \<Rightarrow> ByteCode \<Rightarrow> nat option" where
  "name_index name c = do { seg \<leftarrow> currSegment c; nameConstIndex name (segments c ! seg) }"

definition type_index :: "u16 \<Rightarrow> ByteCode \<Rightarrow> nat option" where
  "type_index ty c = do { seg \<leftarrow> currSegment c; typeConstIndex ty (segments c ! seg) }"

lemma index_grown:
  assumes "grown c c'" "in_code c sec seg"
  shows "name_index name c = Some k \<Longrightarrow> name_index name c' = Some k"
    "type_index ty c = Some k \<Longrightarrow> type_index ty c' = Some k"
proof -
  have "segment_grown (segments c ! seg) (segments c' ! seg)" "currSegment c' = Some seg" "currSegment c = Some seg"
    using assms by (auto simp: grown_def in_code_def dest: list_all2_nthD)
  then show "name_index name c = Some k \<Longrightarrow> name_index name c' = Some k"
    "type_index ty c = Some k \<Longrightarrow> type_index ty c' = Some k"
    by (auto simp: name_index_def type_index_def nameConstIndex_def typeConstIndex_def segment_grown_def extends_def
        const_index_append)
qed

lemma emitted_on_segment:
  "segment_grown (segments c ! i) (f (segments c ! i)) \<Longrightarrow> emitted [] c (on_segment i f c)"
  by (rule emitted_none) (auto intro: grown_on_segment, simp_all add: on_segment_def)

lemma name_const_spec:
  assumes "name_const name c = Some (k, c')"
  shows "emitted [] c c'" "in_code c sec seg \<Longrightarrow> name_index name c' = Some k"
proof -
  from assms obtain g where g0: "currSegment c = Some g" by (cases "currSegment c") (simp_all add: name_const_def)
  obtain k' s where "addNameConst name (segments c ! g) = (k', s)" by (cases "addNameConst name (segments c ! g)")
  then have g: "currSegment c = Some g" "addNameConst name (segments c ! g) = (k, s)" "c' = on_segment g (\<lambda>_. s) c"
    using assms g0 by (auto simp: name_const_def)
  have s: "segment_grown (segments c ! g) s" "nameConstIndex name s = Some k"
    using g(2) by (auto simp: addNameConst_def segment_grown_def nameConstIndex_def const_index_new split: option.splits)
  show "emitted [] c c'" unfolding g(3) by (rule emitted_on_segment) (rule s(1))
  show "in_code c sec seg \<Longrightarrow> name_index name c' = Some k"
    using g s by (simp add: name_index_def in_code_def on_segment_def)
qed

lemma type_const_spec:
  assumes "type_const ty c = Some (k, c')"
  shows "emitted [] c c'" "in_code c sec seg \<Longrightarrow> type_index ty c' = Some k"
proof -
  from assms obtain g where g0: "currSegment c = Some g" by (cases "currSegment c") (simp_all add: type_const_def)
  obtain k' s where "addTypeConst ty (segments c ! g) = (k', s)" by (cases "addTypeConst ty (segments c ! g)")
  then have g: "currSegment c = Some g" "addTypeConst ty (segments c ! g) = (k, s)" "c' = on_segment g (\<lambda>_. s) c"
    using assms g0 by (auto simp: type_const_def)
  have s: "segment_grown (segments c ! g) s" "typeConstIndex ty s = Some k"
    using g(2) by (auto simp: addTypeConst_def segment_grown_def typeConstIndex_def const_index_new split: option.splits)
  show "emitted [] c c'" unfolding g(3) by (rule emitted_on_segment) (rule s(1))
  show "in_code c sec seg \<Longrightarrow> type_index ty c' = Some k"
    using g s by (simp add: type_index_def in_code_def on_segment_def)
qed

text \<open>The items of a constant and of a location, from a state in which they are known.\<close>

primrec const_items :: "ByteCode \<Rightarrow> Const \<Rightarrow> item list" where
  "const_items c (NameConst name) = target_items NAME_TABLE_SECTION_ID (2 + the (name_index name c) * 2)"
| "const_items c (TypeConst ty) = target_items TYPE_TABLE_SECTION_ID (2 + the (type_index ty c) * 2)"
| "const_items c (BitsConst v) = [Raw (enc_uimm v)]"
| "const_items c (IntConst v) = [Raw (enc_simm v)]"
| "const_items c (DoubleConst d) = [Raw (ext_mode_val IMM_EXT 3 # double_bytes d)]"
| "const_items c (CharConst v) = [Raw [ext_mode_val IMM_EXT 0, v]]"
| "const_items c (StringConst str) = []"
| "const_items c (TagConst v) = [Raw (enc_uimm (ucast v))]"
| "const_items c CodeEnv = target_items RACK_SECTION_ID 0"
| "const_items c ConsEnv = [Raw [ucast (push_bit 0 1 OR ucast (mode_val REG_ADDR_MODE) :: u32)]]"
| "const_items c NullRef = [Raw (enc_uimm 0)]"
| "const_items c NullPtr = [Raw (enc_uimm 0)]"
| "const_items c NullEnv = [Raw (enc_uimm 0)]"

definition is_string :: "Const \<Rightarrow> bool" where
  "is_string k \<longleftrightarrow> (case k of StringConst _ \<Rightarrow> True | _ \<Rightarrow> False)"

lemma const_emitted:
  assumes "const_genByteCode k c = Some c'" "in_code c sec seg" "\<not> is_string k"
  shows "emitted (const_items c' k) c c'"
proof (cases k)
  case (NameConst name)
  with assms(1) obtain i c1 where c1: "name_const name c = Some (i, c1)"
    "put_target NAME_TABLE_SECTION_ID (2 + i * 2) c1 = Some c'" by (auto simp: bind_simps)
  note n = name_const_spec [OF c1(1)] and e = emitted_put_target [OF c1(2)]
  have "in_code c1 sec seg" using in_code_grown [OF assms(2)] n(1) by (simp add: emitted_def)
  then have "name_index name c' = Some i"
    using index_grown(1) n(2) [OF assms(2)] e by (auto simp: emitted_def)
  then show ?thesis using emitted_append [OF n(1) e] NameConst by simp
next
  case (TypeConst ty)
  with assms(1) obtain i c1 where c1: "type_const ty c = Some (i, c1)"
    "put_target TYPE_TABLE_SECTION_ID (2 + i * 2) c1 = Some c'" by (auto simp: bind_simps)
  note n = type_const_spec [OF c1(1)] and e = emitted_put_target [OF c1(2)]
  have "in_code c1 sec seg" using in_code_grown [OF assms(2)] n(1) by (simp add: emitted_def)
  then have "type_index ty c' = Some i"
    using index_grown(2) n(2) [OF assms(2)] e by (auto simp: emitted_def)
  then show ?thesis using emitted_append [OF n(1) e] TypeConst by simp
next
  case (DoubleConst d)
  then show ?thesis
    using assms(1) emitted_putBytes [of "ext_mode_val IMM_EXT 3 # double_bytes d" c c'] by simp
next
  case (CharConst v)
  then show ?thesis using assms(1) emitted_putBytes [of "[ext_mode_val IMM_EXT 0, v]" c c'] by simp
qed (use assms emitted_putBytes emitted_put_target in
    \<open>auto simp: is_string_def putImmUInt_bytes putImmInt_bytes putRegAddrMode_def putByte_putBytes simp del: putBytes.simps\<close>)

lemma const_items_grown:
  assumes "grown c c'" "in_code c sec seg"
    "\<And>name. k = NameConst name \<Longrightarrow> name_index name c \<noteq> None" "\<And>ty. k = TypeConst ty \<Longrightarrow> type_index ty c \<noteq> None"
  shows "const_items c' k = const_items c k"
  using assms index_grown [OF assms(1,2)] by (cases k) fastforce+

primrec loc_items :: "CodeGen \<Rightarrow> Loc \<Rightarrow> u32 \<Rightarrow> item list" where
  "loc_items st (Register i) offset = [Raw [ucast (push_bit 0 i OR ucast (mode_val REG_ADDR_MODE))]]"
| "loc_items st SpecialLoc offset = target_items RACK_SECTION_ID 0"
| "loc_items st (StaticLoc i) offset = target_items RACK_SECTION_ID (rackPos (slots st ! i))"
| "loc_items st (StackLoc fp_rel off sz) offset =
     (if \<not> fp_rel then [Raw (enc_stack (of_int (sint (stackPtr st) - (sint off + sint sz) + sint offset)))]
      else [Raw (enc_frame (ucast ((off + sz) - offset)))])"
| "loc_items st (CompLoc l rs k) offset = loc_items st l (offset + comp_offset rs k)"
| "loc_items st (CellCompLoc l rs k) offset =
     (if l = Register REG_cell then [Raw (enc_unsigned CELL_ADDR_MODE CELL_EXT (ucast (offset + cell_offset rs k)))]
      else Raw (enc_unsigned IND_ADDR_MODE IND_EXT (ucast (offset + cell_offset rs k))) # loc_items st l 0)"
| "loc_items st (IndLoc l) offset = Raw (enc_unsigned IND_ADDR_MODE IND_EXT (scast offset)) # loc_items st l 0"
| "loc_items st (IndexedByConst r l k) offset =
     Raw (enc_ext INDEXED_EXT (widthU (scast offset)) (scast offset)) # Raw (the (packVLU (of_nat (sizeOfRepr r))))
     # loc_items st l 0 @ const_items (code st) k"
| "loc_items st (IndexedByLoc r l k) offset =
     Raw (enc_ext INDEXED_EXT (widthU (scast offset)) (scast offset)) # Raw (the (packVLU (of_nat (sizeOfRepr r))))
     # loc_items st l 0 @ loc_items st k 0"

primrec no_string :: "Loc \<Rightarrow> bool" where
  "no_string (Register i) \<longleftrightarrow> True"
| "no_string SpecialLoc \<longleftrightarrow> True"
| "no_string (StaticLoc i) \<longleftrightarrow> True"
| "no_string (StackLoc f off sz) \<longleftrightarrow> True"
| "no_string (CompLoc l rs k) \<longleftrightarrow> no_string l"
| "no_string (CellCompLoc l rs k) \<longleftrightarrow> no_string l"
| "no_string (IndLoc l) \<longleftrightarrow> no_string l"
| "no_string (IndexedByConst r l k) \<longleftrightarrow> no_string l \<and> \<not> is_string k"
| "no_string (IndexedByLoc r l k) \<longleftrightarrow> no_string l \<and> no_string k"

text \<open>What later generation keeps of the state: the stack pointer, the places of allocated slots, and
  the growth of the code.\<close>

definition stable :: "CodeGen \<Rightarrow> CodeGen \<Rightarrow> bool" where
  "stable st st' \<longleftrightarrow> stackPtr st' = stackPtr st \<and> grown (code st) (code st') \<and> length (slots st') = length (slots st)
     \<and> (\<forall>i < length (slots st). allocated (slots st ! i) \<longrightarrow> slots st' ! i = slots st ! i)"

lemma stable_refl [simp]: "stable st st"
  by (simp add: stable_def)

lemma stable_trans: "stable a b \<Longrightarrow> stable b c \<Longrightarrow> stable a c"
  using grown_trans [of "code a" "code b" "code c"] by (auto simp: stable_def)

lemma emit_stable: "emit f st = Some st' \<Longrightarrow> (\<And>c. f (code st) = Some c \<Longrightarrow> grown (code st) c) \<Longrightarrow> stable st st'"
  by (auto simp: emit_def stable_def)

lemma emitted_grown: "emitted its c c' \<Longrightarrow> grown c c'"
  by (simp add: emitted_def)

lemma emitted_refl [simp]: "emitted [] c c"
  by (simp add: emitted_def)

lemma emitted_Cons: "emitted [x] a b \<Longrightarrow> emitted ys b c \<Longrightarrow> emitted (x # ys) a c"
  using emitted_append [of "[x]" a b ys c] by simp

lemma emitted_empty: "emitted [] a b \<Longrightarrow> emitted ys b c \<Longrightarrow> emitted ys a c"
  using emitted_append [of "[]" a b ys c] by simp

lemma section_grown_pad [simp]: "section_grown s (pad n s)" "section_grown s (reserve n s)"
proof -
  have r: "(sec_putByte 0 ^^ n) s = s\<lparr>bytes := bytes s @ replicate n 0\<rparr>" for n s
    by (induction n arbitrary: s) (simp_all add: sec_putByte_def funpow_swap1 replicate_append_same [symmetric] del: replicate_append_same)
  show "section_grown s (pad n s)" by (simp add: pad_def r Let_def)
  show "section_grown s (reserve n s)" by (simp add: reserve_def r)
qed

lemma emitted_rack: 
  assumes "currSegment c = Some seg" "getSection seg RACK_SECTION_ID c = Some r" "\<And>s. section_grown s (f s)"
  shows "emitted [] c (on_section r f c)"
proof (rule emitted_none)
  fix sec seg' assume "in_code c sec seg'"
  with assms(1,2) have "sec \<noteq> r" by (auto simp: in_code_def)
  then show "bytes (sections (on_section r f c) ! sec) = bytes (sections c ! sec)" by (simp add: on_section_def)
qed (simp_all add: grown_on_section assms(3))

lemma rack_slot_emitted: "rack_slot n c = Some (pos, c') \<Longrightarrow> emitted [] c c'"
  by (auto simp: rack_slot_def padRack_def reserveRack_def reserveBytes_in_def bind_simps
      intro!: emitted_empty [OF emitted_rack emitted_rack])

lemma allocate_slot_emitted:
  assumes "allocate_slot sl c = Some (pos, c')"
  shows "emitted [] c c'"
proof -
  from assms obtain seg where g: "currSegment c = Some seg" by (cases "currSegment c") (simp_all add: allocate_slot_def)
  let ?imp = "imported_slot (slot_name sl) (segments c ! seg)"
  from assms g obtain c1 where c1: "(case ?imp of Some r \<Rightarrow> Some (unat (importOffset r), c)
        | None \<Rightarrow> rack_slot (sizeOfRepr (slot_repr sl)) c) = Some (pos, c1)"
    and rest: "c' = c1 \<or> (\<exists>k c2. name_const (slot_name sl) c1 = Some (k, c2)
      \<and> c' = on_segment seg (addImportRec (of_nat k) (of_nat pos)) c2)"
    by (auto simp: allocate_slot_def bind_simps Let_def split: option.splits if_splits)
  have e1: "emitted [] c c1" using c1 by (auto split: option.splits dest: rack_slot_emitted)
  from rest show ?thesis
  proof (elim disjE exE conjE)
    fix k c2 assume "name_const (slot_name sl) c1 = Some (k, c2)"
      and c': "c' = on_segment seg (addImportRec (of_nat k) (of_nat pos)) c2"
    then have "emitted [] c1 c2" by (auto dest: name_const_spec(1))
    moreover have "emitted [] c2 c'" unfolding c'
      by (rule emitted_on_segment) (simp add: addImportRec_def segment_grown_def)
    ultimately show ?thesis using e1 emitted_empty by blast
  qed (use e1 in simp)
qed

lemma static_rackPos_spec:
  assumes "static_rackPos i st = Some (pos, st')"
  shows "emitted [] (code st) (code st')" "stable st st'" "i < length (slots st')" "allocated (slots st' ! i)"
    "rackPos (slots st' ! i) = pos"
proof -
  have i: "i < length (slots st)" using assms by (auto simp: static_rackPos_def split: if_splits)
  consider "allocated (slots st ! i)" "st' = st" "pos = rackPos (slots st ! i)"
    | c' where "\<not> allocated (slots st ! i)" "allocate_slot (slots st ! i) (code st) = Some (pos, c')"
      "code st' = c'" "stackPtr st' = stackPtr st" "slots st' = (slots st)[i := (slots st ! i)\<lparr>allocated := True, rackPos := pos\<rparr>]"
    using assms i by (auto simp: static_rackPos_def Let_def bind_simps split: if_splits)
  then have "emitted [] (code st) (code st') \<and> stable st st' \<and> i < length (slots st') \<and> allocated (slots st' ! i)
      \<and> rackPos (slots st' ! i) = pos"
  proof cases
    case 1 then show ?thesis using i by (simp add: emitted_def)
  next
    case 2
    then have e: "emitted [] (code st) (code st')" by (simp add: allocate_slot_emitted)
    then show ?thesis using 2 i emitted_grown [OF e] by (auto simp: stable_def nth_list_update)
  qed
  then show "emitted [] (code st) (code st')" "stable st st'" "i < length (slots st')" "allocated (slots st' ! i)"
    "rackPos (slots st' ! i) = pos" by simp_all
qed


lemma emit_code: "emit f st = Some st' \<Longrightarrow> f (code st) = Some (code st')"
  by (auto simp: emit_def)

lemma emit_emitted:
  assumes "emit f st = Some st'" "emitted its (code st) (code st')"
  shows "stable st st'" "emitted its (code st) (code st')"
  using assms emitted_grown by (auto simp: emit_def stable_def)

lemma put_mode_emitted:
  "putStackAddrMode v c = Some c' \<Longrightarrow> emitted [Raw (enc_stack v)] c c'"
  "putFrameAddrMode v c = Some c' \<Longrightarrow> emitted [Raw (enc_frame v)] c c'"
  "putCellAddrMode v c = Some c' \<Longrightarrow> emitted [Raw (enc_unsigned CELL_ADDR_MODE CELL_EXT v)] c c'"
  "putIndAddrMode v c = Some c' \<Longrightarrow> emitted [Raw (enc_unsigned IND_ADDR_MODE IND_EXT v)] c c'"
  by (simp_all add: putStack_bytes putFrame_bytes putCell_bytes putInd_bytes emitted_putBytes)

lemma putIndexed_emitted: "putIndexedAddrMode v c = Some c' \<Longrightarrow> emitted [Raw (enc_ext INDEXED_EXT (widthU v) v)] c c'"
  by (simp add: putIndexedAddrMode_def putExtUInt_bytes emitted_putBytes)

lemma putVLU_emitted: "putVLU v c = Some c' \<Longrightarrow> emitted [Raw (the (packVLU v))] c c'"
  by (auto simp: putVLU_def bind_simps emitted_putBytes)

lemma putReg_emitted:
  "putRegAddrMode i c = Some c' \<Longrightarrow> emitted [Raw [ucast (push_bit 0 i OR ucast (mode_val REG_ADDR_MODE))]] c c'"
  by (simp add: putRegAddrMode_def putByte_putBytes emitted_putBytes del: putBytes.simps)

text \<open>The code of a location is its items; they do not change when generation goes on.\<close>

lemma stable_in_code: "in_code (code st) sec seg \<Longrightarrow> stable st st' \<Longrightarrow> in_code (code st') sec seg"
  using in_code_grown by (auto simp: stable_def)

lemma index_known:
  assumes "const_genByteCode k c = Some c'" "in_code c sec seg"
  shows "\<And>name. k = NameConst name \<Longrightarrow> name_index name c' \<noteq> None" "\<And>ty. k = TypeConst ty \<Longrightarrow> type_index ty c' \<noteq> None"
proof -
  fix name assume "k = NameConst name"
  with assms(1) obtain i c1 where c1: "name_const name c = Some (i, c1)"
    "put_target NAME_TABLE_SECTION_ID (2 + i * 2) c1 = Some c'" by (auto simp: bind_simps)
  note n = name_const_spec [OF c1(1)]
  have "in_code c1 sec seg" by (rule in_code_grown [OF assms(2) emitted_grown [OF n(1)]])
  from index_grown(1) [OF emitted_grown [OF emitted_put_target [OF c1(2)]] this n(2) [OF assms(2)]]
  show "name_index name c' \<noteq> None" by simp
next
  fix ty assume "k = TypeConst ty"
  with assms(1) obtain i c1 where c1: "type_const ty c = Some (i, c1)"
    "put_target TYPE_TABLE_SECTION_ID (2 + i * 2) c1 = Some c'" by (auto simp: bind_simps)
  note n = type_const_spec [OF c1(1)]
  have "in_code c1 sec seg" by (rule in_code_grown [OF assms(2) emitted_grown [OF n(1)]])
  from index_grown(2) [OF emitted_grown [OF emitted_put_target [OF c1(2)]] this n(2) [OF assms(2)]]
  show "type_index ty c' \<noteq> None" by simp
qed

lemma loc_emitted:
  assumes "loc_genByteCode l offset st = Some st'" "in_code (code st) sec seg" "no_string l"
  shows "stable st st' \<and> emitted (loc_items st' l offset) (code st) (code st')
    \<and> (\<forall>st2. stable st' st2 \<longrightarrow> loc_items st2 l offset = loc_items st' l offset)"
  using assms
proof (induction l arbitrary: offset st st')
  case (Register i)
  then have "emit (putRegAddrMode i) st = Some st'" by simp
  from emit_emitted [OF this putReg_emitted [OF emit_code [OF this]]] show ?case by simp
next
  case SpecialLoc
  then have "emit (put_target RACK_SECTION_ID 0) st = Some st'" by simp
  from emit_emitted [OF this emitted_put_target [OF emit_code [OF this]]] show ?case by simp
next
  case (StaticLoc i)
  then obtain pos st1 where s: "static_rackPos i st = Some (pos, st1)" "emit (put_target RACK_SECTION_ID pos) st1 = Some st'"
    by (auto simp: bind_simps)
  note a = static_rackPos_spec [OF s(1)] and b = emit_emitted [OF s(2) emitted_put_target [OF emit_code [OF s(2)]]]
  have "slots st' ! i = slots st1 ! i" using a b by (auto simp: stable_def)
  moreover have "i < length (slots st')" "allocated (slots st' ! i)" using a b by (auto simp: stable_def)
  ultimately show ?case
    using a(5) stable_trans [OF a(2) b(1)] emitted_empty [OF a(1) b(2)] by (auto simp: stable_def)
next
  case (StackLoc f off sz)
  show ?case
  proof (cases f)
    case True
    with StackLoc have "emit (putFrameAddrMode (ucast ((off + sz) - offset))) st = Some st'" by simp
    from emit_emitted [OF this put_mode_emitted(2) [OF emit_code [OF this]]] True show ?thesis by simp
  next
    case False
    with StackLoc have "emit (putStackAddrMode (of_int (sint (stackPtr st) - (sint off + sint sz) + sint offset))) st = Some st'"
      by (auto simp: bind_simps int32_def split: if_splits)
    from emit_emitted [OF this put_mode_emitted(1) [OF emit_code [OF this]]] False show ?thesis by (simp add: stable_def)
  qed
next
  case (CompLoc l rs k)
  have p: "loc_genByteCode l (offset + comp_offset rs k) st = Some st'" "no_string l"
    using CompLoc.prems(1,3) by simp_all
  show ?case unfolding loc_items.simps by (rule CompLoc.IH [OF p(1) CompLoc.prems(2) p(2)])
next
  case (CellCompLoc l rs k)
  show ?case
  proof (cases "l = Register REG_cell")
    case True
    with CellCompLoc.prems have "emit (putCellAddrMode (ucast (offset + cell_offset rs k))) st = Some st'" by simp
    from emit_emitted [OF this put_mode_emitted(3) [OF emit_code [OF this]]] True show ?thesis by simp
  next
    case False
    with CellCompLoc.prems obtain st1 where s: "emit (putIndAddrMode (ucast (offset + cell_offset rs k))) st = Some st1"
      "loc_genByteCode l 0 st1 = Some st'" by (auto simp: Let_def bind_simps)
    note a = emit_emitted [OF s(1) put_mode_emitted(4) [OF emit_code [OF s(1)]]]
    have n: "no_string l" using CellCompLoc.prems(3) by simp
    note ih = CellCompLoc.IH [OF s(2) stable_in_code [OF CellCompLoc.prems(2) a(1)] n]
    have "stable st st'" by (rule stable_trans [OF a(1) conjunct1 [OF ih]])
    moreover have "emitted (loc_items st' (CellCompLoc l rs k) offset) (code st) (code st')"
      using False emitted_Cons [OF a(2) conjunct1 [OF conjunct2 [OF ih]]] by simp
    moreover have "loc_items st2 (CellCompLoc l rs k) offset = loc_items st' (CellCompLoc l rs k) offset"
      if "stable st' st2" for st2
      using False conjunct2 [OF conjunct2 [OF ih], rule_format, OF that] by simp
    ultimately show ?thesis by blast
  qed
next
  case (IndLoc l)
  then obtain st1 where s: "emit (putIndAddrMode (scast offset)) st = Some st1" "loc_genByteCode l 0 st1 = Some st'"
    by (auto simp: bind_simps)
  note a = emit_emitted [OF s(1) put_mode_emitted(4) [OF emit_code [OF s(1)]]]
  have n: "no_string l" using IndLoc.prems(3) by simp
  note ih = IndLoc.IH [OF s(2) stable_in_code [OF IndLoc.prems(2) a(1)] n]
  have "stable st st'" by (rule stable_trans [OF a(1) conjunct1 [OF ih]])
  moreover have "emitted (loc_items st' (IndLoc l) offset) (code st) (code st')"
    using emitted_Cons [OF a(2) conjunct1 [OF conjunct2 [OF ih]]] by simp
  moreover have "loc_items st2 (IndLoc l) offset = loc_items st' (IndLoc l) offset" if "stable st' st2" for st2
    using conjunct2 [OF conjunct2 [OF ih], rule_format, OF that] by simp
  ultimately show ?case by blast
next
  case (IndexedByConst r l k)
  then obtain st1 st2 st3 where s: "emit (putIndexedAddrMode (scast offset)) st = Some st1"
    "emit (putVLU (of_nat (sizeOfRepr r))) st1 = Some st2" "loc_genByteCode l 0 st2 = Some st3"
    "emit (const_genByteCode k) st3 = Some st'" by (auto simp: bind_simps)
  note a = emit_emitted [OF s(1) putIndexed_emitted [OF emit_code [OF s(1)]]] and b = emit_emitted [OF s(2) putVLU_emitted [OF emit_code [OF s(2)]]]
  have i2: "in_code (code st2) sec seg" using stable_in_code IndexedByConst.prems(2) a(1) b(1) by blast
  have n: "no_string l" "\<not> is_string k" using IndexedByConst.prems(3) by simp_all
  note ih = IndexedByConst.IH [OF s(3) i2 n(1)]
  note c = conjunct1 [OF ih] conjunct1 [OF conjunct2 [OF ih]] conjunct2 [OF conjunct2 [OF ih], rule_format]
  have i3: "in_code (code st3) sec seg" using stable_in_code i2 c(1) by blast
  from s(4) have k: "const_genByteCode k (code st3) = Some (code st')" and st': "st' = st3\<lparr>code := code st'\<rparr>"
    by (auto simp: emit_def)
  have e: "emitted (const_items (code st') k) (code st3) (code st')"
    by (rule const_emitted [OF k i3 n(2)])
  have "stackPtr st' = stackPtr st3" "slots st' = slots st3" by (subst st', simp)+
  then have d: "stable st3 st'" using emitted_grown [OF e] by (simp add: stable_def)
  have i4: "in_code (code st') sec seg" using stable_in_code i3 d by blast
  have items: "const_items (code st4) k = const_items (code st') k" if "stable st' st4" for st4
    by (rule const_items_grown [OF _ i4 index_known [OF k i3]]) (use that in \<open>simp_all add: stable_def\<close>)
  have "loc_items st4 (IndexedByConst r l k) offset = loc_items st' (IndexedByConst r l k) offset" if "stable st' st4" for st4
    using items [OF that] trans [OF c(3) [OF stable_trans [OF d that]] sym [OF c(3) [OF d]]]
    by (simp only: loc_items.simps)
  moreover have "emitted (loc_items st' (IndexedByConst r l k) offset) (code st) (code st')"
    using emitted_Cons [OF a(2) emitted_Cons [OF b(2) emitted_append [OF c(2) e]]] c(3) [OF d] by simp
  moreover have "stable st st'" by (rule stable_trans [OF stable_trans [OF stable_trans [OF a(1) b(1)] c(1)] d])
  ultimately show ?case by blast
next
  case (IndexedByLoc r l k)
  then obtain st1 st2 st3 where s: "emit (putIndexedAddrMode (scast offset)) st = Some st1"
    "emit (putVLU (of_nat (sizeOfRepr r))) st1 = Some st2" "loc_genByteCode l 0 st2 = Some st3"
    "loc_genByteCode k 0 st3 = Some st'" by (auto simp: bind_simps)
  note a = emit_emitted [OF s(1) putIndexed_emitted [OF emit_code [OF s(1)]]] and b = emit_emitted [OF s(2) putVLU_emitted [OF emit_code [OF s(2)]]]
  have i2: "in_code (code st2) sec seg" using stable_in_code IndexedByLoc.prems(2) a(1) b(1) by blast
  have n: "no_string l" "no_string k" using IndexedByLoc.prems(3) by simp_all
  note ih = IndexedByLoc.IH(1) [OF s(3) i2 n(1)]
  note c = conjunct1 [OF ih] conjunct1 [OF conjunct2 [OF ih]] conjunct2 [OF conjunct2 [OF ih], rule_format]
  have i3: "in_code (code st3) sec seg" using stable_in_code i2 c(1) by blast
  note ih2 = IndexedByLoc.IH(2) [OF s(4) i3 n(2)]
  note d = conjunct1 [OF ih2] conjunct1 [OF conjunct2 [OF ih2]] conjunct2 [OF conjunct2 [OF ih2], rule_format]
  have "loc_items st4 (IndexedByLoc r l k) offset = loc_items st' (IndexedByLoc r l k) offset" if "stable st' st4" for st4
    using d(3) [OF that] trans [OF c(3) [OF stable_trans [OF d(1) that]] sym [OF c(3) [OF d(1)]]]
    by (simp only: loc_items.simps)
  moreover have "emitted (loc_items st' (IndexedByLoc r l k) offset) (code st) (code st')"
    using emitted_Cons [OF a(2) emitted_Cons [OF b(2) emitted_append [OF c(2) d(2)]]] c(3) [OF d(1)] by simp
  moreover have "stable st st'" by (rule stable_trans [OF stable_trans [OF stable_trans [OF a(1) b(1)] c(1)] d(1)])
  ultimately show ?case by blast
qed

subsection \<open>Operands in memory\<close>

text \<open>The items are in memory at \<open>pc\<close>: the raw bytes, and every field with the distance from its end to
  its target, which \<open>T\<close> gives for a position in a section.\<close>

primrec items_at :: "memory \<Rightarrow> (nat \<Rightarrow> nat \<Rightarrow> addr) \<Rightarrow> addr \<Rightarrow> item list \<Rightarrow> bool" where
  "items_at m T pc [] \<longleftrightarrow> True"
| "items_at m T pc (it # its) \<longleftrightarrow> (case it of
      Raw bs \<Rightarrow> code_at m pc bs \<and> items_at m T (pc + of_nat (length bs)) its
    | Field i t \<Rightarrow> extInt4 m pc = Some (T i t - (pc + 4), pc + 4) \<and> items_at m T (pc + 4) its)"

abbreviation item_length :: "item list \<Rightarrow> u32" where
  "item_length its \<equiv> of_nat (length (item_bytes its))"

lemma items_at_append [simp]:
  "items_at m T pc (xs @ ys) \<longleftrightarrow> items_at m T pc xs \<and> items_at m T (pc + item_length xs) ys"
  by (induction xs arbitrary: pc) (auto simp: ac_simps split: item.split)

text \<open>The types a memory-relative load reads like any other load; for the others see the operand decoder.\<close>

definition loadable :: "ctype \<Rightarrow> bool" where
  "loadable t \<longleftrightarrow> t \<in> {TName, TType, TTag, TPtr, TExpr, TChar, TInt, TRef}"

lemma ucast_ucast_small:
  "take_bit LENGTH('a) v = v \<Longrightarrow> LENGTH('a) \<le> 64 \<Longrightarrow> ucast (ucast v :: 'a::len word) = v" for v :: u64
  using ucast_ucast_take [of v, where 'a='a] by simp

lemma mem_ext_load:
  assumes "loadable t"
  shows "mem_ext h t m pc a = map_option (\<lambda>v. (v, pc)) (load_n (sizeof t) m a)"
proof -
  have b: "fetchByte m a = map_option (\<lambda>v. (ucast v, a + 1)) (load_n (Suc 0) m a)"
  proof -
    have "(ucast (ucast x :: u64) :: byte) = x" for x by (intro bit_word_eqI) (auto simp: bit_simps)
    then show ?thesis by (cases "m a") (simp_all add: fetchByte_def load_1)
  qed
  have small: "load_n (Suc 0) m a = Some v \<Longrightarrow> ucast (ucast v :: byte) = v" "load_n 2 m a = Some v \<Longrightarrow> ucast (ucast v :: u16) = v"
    "load_n 4 m a = Some v \<Longrightarrow> ucast (ucast v :: u32) = v" for v
    by (auto intro!: ucast_ucast_small dest!: load_n_small)
  show ?thesis
    using assms by (auto simp: loadable_def mem_ext_def b extBits16_load extBits32_load option.map_comp comp_def
        intro!: map_option_cong small)
qed

lemma decode_mem:
  assumes "items_at (mem s) T pc (target_items i t)"
  shows "operand h s True ty pc = Some (At (T i t), pc + 5)"
    "loadable ty \<Longrightarrow> loadT ty h s pc = map_option (\<lambda>v. (v, pc + 5)) (load_mem ty s (T i t))"
proof -
  let ?b = "ext_mode_val MEM_EXT 2" and ?v = "T i t - (pc + 5)"
  have b: "mem s pc = Some ?b" "extInt4 (mem s) (pc + 1) = Some (?v, pc + 5)"
    using assms by (simp_all add: target_items_def)
  have m: "addrMode ?b = 7" "ext_group (extAddrMode ?b) = MEM_EXT" "ext_width (extAddrMode ?b) = 4"
    using ext_mode_byte [of 2 MEM_EXT] by simp_all
  have e: "extInt 4 (mem s) (pc + 1) = Some (scast ?v, pc + 5)" "ucast (scast ?v :: u64) = ?v"
    using b(2) low_part(6) [of ?v] by (simp_all add: extInt_def extInt4_def)
  show "operand h s True ty pc = Some (At (T i t), pc + 5)"
    using b(1) m e by (subst operand.simps) (simp add: fetchByte_def Let_def)
  have "operand h s False ty pc = map_option (\<lambda>(v, pc). (Value v, pc)) (mem_ext h ty (mem s) (pc + 5) (T i t))"
    using b(1) m e by (subst operand.simps) (auto simp: fetchByte_def Let_def map_option_case split: option.split)
  then show "loadable ty \<Longrightarrow> loadT ty h s pc = map_option (\<lambda>v. (v, pc + 5)) (load_mem ty s (T i t))"
    by (cases "load_n (sizeof ty) (mem s) (T i t)") (simp_all add: mem_ext_load loadT_def load_mem_def)
qed

text \<open>The place an offset in a location stands for; none when an indirection cannot be read, and a register
  has no parts.\<close>

primrec loc_place :: "(nat \<Rightarrow> nat \<Rightarrow> addr) \<Rightarrow> CodeGen \<Rightarrow> machine \<Rightarrow> Loc \<Rightarrow> u32 \<Rightarrow> ctype \<Rightarrow> place option" where
  "loc_place T st s (Register i) offset t =
     (if offset = 0 then (case retReg t (ucast i) of UseReg r \<Rightarrow> Some (InReg r) | _ \<Rightarrow> None) else None)"
| "loc_place T st s SpecialLoc offset t = Some (At (T RACK_SECTION_ID 0 + offset))"
| "loc_place T st s (StaticLoc i) offset t = Some (At (T RACK_SECTION_ID (rackPos (slots st ! i)) + offset))"
| "loc_place T st s (StackLoc fp_rel off sz) offset t =
     Some (At (if fp_rel then fp s - (off + sz - offset) else sp s + (stackPtr st - (off + sz) + offset)))"
| "loc_place T st s (CompLoc l rs k) offset t = loc_place T st s l (offset + of_nat (struct_offset rs (k - 1))) t"
| "loc_place T st s (CellCompLoc l rs k) offset t =
     (if l = Register REG_cell then Some (At (cell s + (offset + (of_nat (struct_offset rs (k - 1)) + 4))))
      else do {
        p \<leftarrow> loc_place T st s l 0 TPtr;
        a \<leftarrow> read_place TPtr s p;
        Some (At (ucast a + (offset + (of_nat (struct_offset rs (k - 1)) + 4)))) })"
| "loc_place T st s (IndLoc l) offset t = do {
     p \<leftarrow> loc_place T st s l 0 TPtr;
     a \<leftarrow> read_place TPtr s p;
     Some (At (ucast a + offset)) }"
| "loc_place T st s (IndexedByConst r l k) offset t = do {
     p \<leftarrow> loc_place T st s l 0 TByte;
     base \<leftarrow> address_of p;
     i \<leftarrow> (case k of IntConst i \<Rightarrow> Some i | _ \<Rightarrow> None);
     Some (At (base + (i * of_nat (sizeOfRepr r) + offset))) }"
| "loc_place T st s (IndexedByLoc r l k) offset t = do {
     p \<leftarrow> loc_place T st s l 0 TByte;
     base \<leftarrow> address_of p;
     q \<leftarrow> loc_place T st s k 0 TInt;
     i \<leftarrow> read_place TInt s q;
     Some (At (base + (ucast i * of_nat (sizeOfRepr r) + offset))) }"

text \<open>What the generator is used for: registers with a number, indices that are integers, and elements
  whose size a variable-length number holds.\<close>

primrec decodable :: "Loc \<Rightarrow> bool" where
  "decodable (Register i) \<longleftrightarrow> i < 32"
| "decodable SpecialLoc \<longleftrightarrow> True"
| "decodable (StaticLoc i) \<longleftrightarrow> True"
| "decodable (StackLoc f off sz) \<longleftrightarrow> True"
| "decodable (CompLoc l rs k) \<longleftrightarrow> decodable l"
| "decodable (CellCompLoc l rs k) \<longleftrightarrow> decodable l"
| "decodable (IndLoc l) \<longleftrightarrow> decodable l"
| "decodable (IndexedByConst r l k) \<longleftrightarrow> decodable l \<and> (\<exists>i. k = IntConst i) \<and> of_nat (sizeOfRepr r) < (2 ^ 28 :: u32)"
| "decodable (IndexedByLoc r l k) \<longleftrightarrow> decodable l \<and> decodable k \<and> of_nat (sizeOfRepr r) < (2 ^ 28 :: u32)"

text \<open>The generator drops the offset in a register, in the location of the special value and in a static
  location: the code is for the place only where no such offset arises (see the last section).\<close>

primrec whole :: "Loc \<Rightarrow> u32 \<Rightarrow> bool" where
  "whole (Register i) offset \<longleftrightarrow> offset = 0"
| "whole SpecialLoc offset \<longleftrightarrow> offset = 0"
| "whole (StaticLoc i) offset \<longleftrightarrow> offset = 0"
| "whole (StackLoc f off sz) offset \<longleftrightarrow> True"
| "whole (CompLoc l rs k) offset \<longleftrightarrow> whole l (offset + comp_offset rs k)"
| "whole (CellCompLoc l rs k) offset \<longleftrightarrow> whole l 0"
| "whole (IndLoc l) offset \<longleftrightarrow> whole l 0"
| "whole (IndexedByConst r l k) offset \<longleftrightarrow> whole l 0"
| "whole (IndexedByLoc r l k) offset \<longleftrightarrow> whole l 0 \<and> whole k 0"

text \<open>Types with a register of their own, or none at all.\<close>

definition addressable :: "ctype \<Rightarrow> bool" where
  "addressable t \<longleftrightarrow> t \<notin> {TUInt, TLabel, TIAddress}"

lemma addressable_retReg: "addressable t \<Longrightarrow> retReg t k \<noteq> FallThrough"
  by (cases t) (simp_all add: addressable_def retPtrReg_def)

lemma loadable_addressable: "loadable t \<Longrightarrow> addressable t"
  by (auto simp: loadable_def addressable_def)


lemma decode_indirect:
  assumes "code_at (mem s) pc (enc_unsigned IND_ADDR_MODE IND_EXT v)"
  shows "operand h s lv t pc = do {
     (a, pc) \<leftarrow> loadT TPtr h s (pc + of_nat (length (enc_unsigned IND_ADDR_MODE IND_EXT v)));
     Some (At (ucast a + ucast v), pc) }"
proof (cases "v < 32")
  case True
  then have e: "enc_unsigned IND_ADDR_MODE IND_EXT v = enc_short IND_ADDR_MODE v" by (simp add: enc_unsigned_def)
  show ?thesis
    using decode_short(3) [OF assms [unfolded e] True] by (simp add: e enc_short_def loadT_def bind_assoc split_def)
next
  case False
  then have e: "enc_unsigned IND_ADDR_MODE IND_EXT v = enc_ext IND_EXT (widthU v) v" by (simp add: enc_unsigned_def)
  show ?thesis
    using operand_extU(4) [OF assms [unfolded e] width_fits(1,2)] by (simp add: e loadT_def bind_assoc split_def)
qed

lemma loadT_of_operand:
  "operand h s False t pc = map_option (\<lambda>p. (p, pc')) po \<Longrightarrow>
     loadT t h s pc = map_option (\<lambda>v. (v, pc')) (Option.bind po (read_place t s))"
  by (cases po) (auto simp: loadT_def map_option_case split: option.splits)

lemma decode_indexed:
  assumes "code_at (mem s) pc (enc_ext INDEXED_EXT (widthU v) v)"
    and "packVLU n = Some bs" "code_at (mem s) (pc + of_nat (1 + 2 ^ widthU v)) bs"
    and "operand h s True TByte (pc + of_nat (1 + 2 ^ widthU v) + of_nat (length bs)) = map_option (\<lambda>p. (p, pc1)) po"
    and "loadT TInt h s pc1 = map_option (\<lambda>i. (i, pc2)) io"
  shows "operand h s lv t pc = map_option (\<lambda>p. (p, pc2)) (do {
     p \<leftarrow> po; base \<leftarrow> address_of p; i \<leftarrow> io; Some (At (base + (ucast i * n + ucast v))) })"
proof -
  have f: "fetchVLU (mem s) (pc + of_nat (1 + 2 ^ widthU v)) = Some (n, pc + of_nat (1 + 2 ^ widthU v) + of_nat (length bs))"
    by (rule fetchVLU_read [OF assms(2)]) (use assms(3) in \<open>simp add: code_at_def\<close>)
  have "operand h s lv t pc = do {
       (p, pc) \<leftarrow> operand h s True TByte (pc + of_nat (1 + 2 ^ widthU v) + of_nat (length bs));
       base \<leftarrow> address_of p;
       (i, pc) \<leftarrow> loadT TInt h s pc;
       Some (At (base + (ucast i * n + ucast v)), pc) }"
    using operand_extU(5) [OF assms(1) width_fits(1,2), of h lv t] unfolding f
    by (simp add: loadT_def bind_assoc split_def)
  then show ?thesis
    unfolding assms(4)
    by (cases po; cases io; cases "address_of (the po)") (auto simp: assms(5))
qed

lemma ucast_of_int: "(ucast (of_int i :: u64) :: u32) = of_int i"
  by (rule word_uint_eqI) (simp add: unsigned_ucast_eq unsigned_of_int take_bit_take_bit)

lemma ucast_scast: "(ucast (scast (v :: u32) :: u64) :: u32) = v" "(ucast (ucast v :: u64) :: u32) = v"
  using low_part(5,6) [of v] by simp_all

definition reads_as :: "host \<Rightarrow> machine \<Rightarrow> addr \<Rightarrow> addr \<Rightarrow> (ctype \<Rightarrow> place option) \<Rightarrow> bool" where
  "reads_as h s pc pc' po \<longleftrightarrow>
     (\<forall>t. addressable t \<longrightarrow> operand h s True t pc = map_option (\<lambda>p. (p, pc')) (po t))
     \<and> (\<forall>t. loadable t \<longrightarrow> loadT t h s pc = map_option (\<lambda>v. (v, pc')) (Option.bind (po t) (read_place t s)))"

lemma reads_asI:
  "(\<And>lv t. operand h s lv t pc = map_option (\<lambda>p. (p, pc')) (po t)) \<Longrightarrow> reads_as h s pc pc' po"
  by (auto simp: reads_as_def intro!: loadT_of_operand)

lemma loc_decode:
  assumes "decodable l" "whole l offset" "items_at (mem s) T pc (loc_items st l offset)"
  shows "reads_as h s pc (pc + item_length (loc_items st l offset)) (loc_place T st s l offset)"
  using assms
proof (induction l arbitrary: offset pc)
  case (Register i)
  let ?b = "ucast (push_bit 0 i OR ucast (mode_val REG_ADDR_MODE)) :: byte"
  have i: "(ucast i :: byte) < 32" "?b = ucast i OR mode_val REG_ADDR_MODE"
  proof -
    have "uint i < 32" using Register.prems(1) by (simp add: word_less_def)
    then show "(ucast i :: byte) < 32"
      by (simp add: word_less_def unsigned_ucast_eq take_bit_int_eq_self)
    show "?b = ucast i OR mode_val REG_ADDR_MODE" by (intro bit_word_eqI) (auto simp: bit_simps)
  qed
  have "addrMode ?b = 5" "regId ?b = ucast i"
    using short_mode_byte [of REG_ADDR_MODE "ucast i"] i by (simp_all add: regId_def immVal_def)
  moreover have "mem s pc = Some ?b" using Register.prems(3) by simp
  ultimately have o: "operand h s lv t pc = map_option (\<lambda>p. (p, pc + 1)) (loc_place T st s (Register i) offset t)"
    if "addressable t" for lv t
    using addressable_retReg [OF that, of "ucast i"]
    using Register.prems(2) by (subst operand.simps) (simp add: fetchByte_def Let_def split: reg_operand.split)
  have "item_length (loc_items st (Register i) offset) = 1" by simp
  then show ?case
    using o loadT_of_operand [OF o [OF loadable_addressable]] by (simp only: reads_as_def) blast
next
  case SpecialLoc
  then show ?case using decode_mem [where s = s and T = T and pc = pc and i = RACK_SECTION_ID and t = 0 and h = h]
    by (auto simp: reads_as_def target_items_def)
next
  case (StaticLoc i)
  then show ?case using decode_mem [where s = s and T = T and pc = pc and i = RACK_SECTION_ID and t = "rackPos (slots st ! i)" and h = h]
    by (auto simp: reads_as_def target_items_def)
next
  case (StackLoc f off sz)
  show ?case
  proof (cases f)
    case True
    then show ?thesis using StackLoc frame_mode.decode [where s = s and pc = pc and v = "ucast (off + sz - offset)" and h = h]
      by (intro reads_asI) (simp add: ucast_scast)
  next
    case False
    have "(ucast (of_int (sint (stackPtr st) - (sint off + sint sz) + sint offset) :: u64) :: u32)
        = stackPtr st - (off + sz) + offset"
      by (subst ucast_of_int) simp
    with False show ?thesis
      using StackLoc stack_mode.decode [where s = s and pc = pc and v = "of_int (sint (stackPtr st) - (sint off + sint sz) + sint offset)" and h = h]
      by (intro reads_asI) simp
  qed
next
  case (CompLoc l rs k)
  then show ?case by (simp add: comp_offset_def)
next
  case (CellCompLoc l rs k)
  show ?case
  proof (cases "l = Register REG_cell")
    case True
    then show ?thesis using CellCompLoc.prems cell_mode.decode [where s = s and pc = pc and v = "ucast (offset + cell_offset rs k)" and h = h]
      by (intro reads_asI) (simp add: ucast_scast cell_offset_def comp_offset_def)
  next
    case False
    let ?e = "enc_unsigned IND_ADDR_MODE IND_EXT (ucast (offset + cell_offset rs k))"
    have c: "code_at (mem s) pc ?e" "items_at (mem s) T (pc + of_nat (length ?e)) (loc_items st l 0)" "decodable l" "whole l 0"
      using CellCompLoc.prems False by simp_all
    have i: "loadT TPtr h s (pc + of_nat (length ?e)) = map_option (\<lambda>v. (v, pc + of_nat (length ?e) + item_length (loc_items st l 0)))
        (Option.bind (loc_place T st s l 0 TPtr) (read_place TPtr s))"
      using CellCompLoc.IH [OF c(3,4,2)] by (simp add: reads_as_def loadable_def)
    show ?thesis
      using False decode_indirect [OF c(1), where h = h] unfolding i
      by (intro reads_asI; cases "loc_place T st s l 0 TPtr"; cases "read_place TPtr s (the (loc_place T st s l 0 TPtr))")
      (simp_all add: ucast_scast add.assoc cell_offset_def comp_offset_def)
  qed
next
  case (IndLoc l)
  let ?e = "enc_unsigned IND_ADDR_MODE IND_EXT (scast offset)"
  have c: "code_at (mem s) pc ?e" "items_at (mem s) T (pc + of_nat (length ?e)) (loc_items st l 0)" "decodable l" "whole l 0"
    using IndLoc.prems by simp_all
  have i: "loadT TPtr h s (pc + of_nat (length ?e)) = map_option (\<lambda>v. (v, pc + of_nat (length ?e) + item_length (loc_items st l 0)))
      (Option.bind (loc_place T st s l 0 TPtr) (read_place TPtr s))"
    using IndLoc.IH [OF c(3,4,2)] by (simp add: reads_as_def loadable_def)
  show ?case
    using decode_indirect [OF c(1), where h = h] unfolding i
    by (intro reads_asI; cases "loc_place T st s l 0 TPtr"; cases "read_place TPtr s (the (loc_place T st s l 0 TPtr))")
      (simp_all add: ucast_scast add.assoc)
next
  case (IndexedByConst r l k)
  then obtain i where k: "k = IntConst i" by auto
  let ?e = "enc_ext INDEXED_EXT (widthU (scast offset)) (scast offset)" and ?n = "of_nat (sizeOfRepr r) :: u32"
  obtain bs where bs: "packVLU ?n = Some bs" using packVLU_defined [of ?n] IndexedByConst.prems(1) by auto
  let ?pc0 = "pc + of_nat (1 + 2 ^ widthU (scast offset :: u64))"
  let ?pc1 = "?pc0 + of_nat (length bs)"
  let ?pc2 = "?pc1 + item_length (loc_items st l 0)"
  have c: "code_at (mem s) pc ?e" "code_at (mem s) ?pc0 bs" "items_at (mem s) T ?pc1 (loc_items st l 0)"
    "code_at (mem s) ?pc2 (enc_simm i)" "decodable l" "whole l 0"
    using IndexedByConst.prems by (simp_all add: bs k add.assoc)
  have b: "operand h s True TByte ?pc1 = map_option (\<lambda>p. (p, ?pc2)) (loc_place T st s l 0 TByte)"
    using IndexedByConst.IH [OF c(5,6,3)] by (simp add: reads_as_def addressable_def)
  have x: "loadT TInt h s ?pc2 = map_option (\<lambda>x. (x, ?pc2 + of_nat (length (enc_simm i)))) (Some (ucast i :: u64))"
    using simm_decode [OF c(4)] by (simp add: loadT_def)
  have len: "pc + item_length (loc_items st (IndexedByConst r l k) offset) = ?pc2 + of_nat (length (enc_simm i))"
    by (simp add: bs k ac_simps)
  show ?case
    unfolding len using decode_indexed [OF c(1) bs c(2) b x]
    by (intro reads_asI) (simp add: k ucast_scast bind_assoc)
next
  case (IndexedByLoc r l k)
  let ?e = "enc_ext INDEXED_EXT (widthU (scast offset)) (scast offset)" and ?n = "of_nat (sizeOfRepr r) :: u32"
  obtain bs where bs: "packVLU ?n = Some bs" using packVLU_defined [of ?n] IndexedByLoc.prems(1) by auto
  let ?pc0 = "pc + of_nat (1 + 2 ^ widthU (scast offset :: u64))"
  let ?pc1 = "?pc0 + of_nat (length bs)"
  let ?pc2 = "?pc1 + item_length (loc_items st l 0)"
  let ?pc3 = "?pc2 + item_length (loc_items st k 0)"
  have c: "code_at (mem s) pc ?e" "code_at (mem s) ?pc0 bs" "items_at (mem s) T ?pc1 (loc_items st l 0)"
    "items_at (mem s) T ?pc2 (loc_items st k 0)" "decodable l" "decodable k" "whole l 0" "whole k 0"
    using IndexedByLoc.prems by (simp_all add: bs add.assoc)
  have b: "operand h s True TByte ?pc1 = map_option (\<lambda>p. (p, ?pc2)) (loc_place T st s l 0 TByte)"
    using IndexedByLoc.IH(1) [OF c(5,7,3)] by (simp add: reads_as_def addressable_def)
  have x: "loadT TInt h s ?pc2 = map_option (\<lambda>i. (i, ?pc3)) (Option.bind (loc_place T st s k 0 TInt) (read_place TInt s))"
    using IndexedByLoc.IH(2) [OF c(6,8,4)] by (simp add: reads_as_def loadable_def)
  have len: "pc + item_length (loc_items st (IndexedByLoc r l k) offset) = ?pc3"
    by (simp add: bs ac_simps)
  show ?case
    unfolding len using decode_indexed [OF c(1) bs c(2) b x]
    by (intro reads_asI) (simp add: ucast_scast bind_assoc)
qed


subsection \<open>Operands after linking\<close>

lemma item_patches_pos:
  "e \<in> set (item_patches look sec pos its) \<Longrightarrow> pos \<le> bp_pos e \<and> bp_pos e + 4 \<le> pos + length (item_bytes its)
     \<and> posSection e = sec \<and> originSection e = Some sec \<and> bp_origin e = bp_pos e + 4"
  by (induction its arbitrary: pos) (fastforce split: item.splits)+

definition target_addr :: "(nat \<Rightarrow> nat option) \<Rightarrow> ByteCode \<Rightarrow> addr \<Rightarrow> nat \<Rightarrow> nat \<Rightarrow> addr" where
  "target_addr look c p i t = p + of_nat (t + (case look i of None \<Rightarrow> 0 | Some k \<Rightarrow> origin (sections c ! k)))"

lemma items_placed:
  assumes "code_at m A bs" "pos + length (item_bytes its) \<le> length bs"
    and "\<And>j. j < length (item_bytes its) \<Longrightarrow>
      \<forall>e \<in> set (item_patches look sec pos its). \<not> (bp_pos e \<le> pos + j \<and> pos + j < bp_pos e + 4) \<Longrightarrow>
      bs ! (pos + j) = item_bytes its ! j"
    and "\<And>e t i. e \<in> set (item_patches look sec pos its) \<Longrightarrow> bp_target e = Simple t (look i) \<Longrightarrow>
      extInt4 m (A + of_nat (bp_pos e)) = Some (T i t - (A + of_nat (bp_pos e) + 4), A + of_nat (bp_pos e) + 4)"
  shows "items_at m T (A + of_nat pos) its"
  using assms(2-4)
proof (induction its arbitrary: pos)
  case (Cons it its)
  show ?case
  proof (cases it)
    case (Raw xs)
    have "code_at m (A + of_nat pos) xs"
    proof -
      have "bs ! (pos + j) = xs ! j" if "j < length xs" for j
      proof -
        have "\<forall>e \<in> set (item_patches look sec pos (it # its)). \<not> (bp_pos e \<le> pos + j \<and> pos + j < bp_pos e + 4)"
          using item_patches_pos [of _ look sec "pos + length xs" its] Raw that by fastforce
        from Cons.prems(2) [OF _ this] show ?thesis using Raw that by (simp add: nth_append)
      qed
      then have "take (length xs) (drop pos bs) = xs"
        using Cons.prems(1) Raw by (intro nth_equalityI) auto
      then show ?thesis using take_drop_code [OF assms(1), of pos "length xs"] Cons.prems(1) Raw by simp
    qed
    moreover have "items_at m T (A + of_nat (pos + length xs)) its"
    proof (rule Cons.IH)
      fix j assume j: "j < length (item_bytes its)"
        "\<forall>e \<in> set (item_patches look sec (pos + length xs) its). \<not> (bp_pos e \<le> pos + length xs + j \<and> pos + length xs + j < bp_pos e + 4)"
      then show "bs ! (pos + length xs + j) = item_bytes its ! j"
        using Cons.prems(2) [of "length xs + j"] Raw by (simp add: add.assoc)
    qed (use Cons.prems Raw in auto)
    ultimately show ?thesis using Raw by (simp add: add.assoc)
  next
    case (Field i t)
    let ?e = "\<lparr>bp_pos = pos, posSection = sec, bp_origin = pos + 4, originSection = Some sec, bp_target = Simple t (look i)\<rparr>"
    have "items_at m T (A + of_nat (pos + 4)) its"
    proof (rule Cons.IH)
      fix j assume j: "j < length (item_bytes its)"
        "\<forall>e \<in> set (item_patches look sec (pos + 4) its). \<not> (bp_pos e \<le> pos + 4 + j \<and> pos + 4 + j < bp_pos e + 4)"
      then show "bs ! (pos + 4 + j) = item_bytes its ! j"
        using Cons.prems(2) [of "4 + j"] Field by (auto simp: add.assoc nth_append)
    qed (use Cons.prems Field in auto)
    then show ?thesis using Cons.prems(3) [of ?e t i] Field by (simp add: add.assoc)
  qed
qed simp

text \<open>Code that was emitted at some point, linked and copied to memory with all the code generated before
  and after it: its bytes are in place and its fields hold the distances to their targets.\<close>

lemma items_linked:
  assumes bytes': "bytes (sections c' ! sec) = bytes (sections c0 ! sec) @ item_bytes its"
    and patches': "set (item_patches look sec (bytePos (sections c0 ! sec)) its) \<subseteq> set (backPatchList c)"
    and later: "sec < length (sections c)" "extends (bytes (sections c' ! sec)) (bytes (sections c ! sec))"
    and others: "\<forall>e \<in> set (backPatchList c). posSection e = sec \<longrightarrow>
         e \<in> set (item_patches look sec (bytePos (sections c0 ! sec)) its) \<or> bytePos (sections c' ! sec) \<le> bp_pos e
         \<or> bp_pos e + 4 \<le> bytePos (sections c0 ! sec)"
    and link: "setSectionOrigins c = (c1, sz)" "setSegmentLengths segs c1 = Some c2"
      "apply_patches (backPatchList c2) (c2\<lparr>backPatchList := []\<rparr>) = Some c3"
      "sorted_wrt apart (backPatchList c)" "\<forall>e \<in> set (backPatchList c). patch_ok c e" "segments_ok c"
      "p AND 3 = 0" "sz < 2 ^ 32" "span p sz \<subseteq> dom m"
    and kept: "bytes (sections c2 ! sec) = bytes (sections c ! sec)"
  shows "\<exists>c4 m'. copySections p c3 m = Some (c4, m') \<and> bytePtr (sections c4 ! sec) = p + of_nat (origin (sections c1 ! sec))
    \<and> items_at m' (target_addr look c1 p) (bytePtr (sections c4 ! sec) + of_nat (bytePos (sections c0 ! sec))) its"
proof -
  let ?pos = "bytePos (sections c0 ! sec)"
  obtain rest where bc: "bytes (sections c ! sec) = bytes (sections c0 ! sec) @ item_bytes its @ rest"
    using later(2) bytes' by (auto simp: extends_def)
  from link_resolves [OF link] obtain c4 m' where cp: "copySections p c3 m = Some (c4, m')"
    and at: "\<forall>i < length (sections c). bytePtr (sections c4 ! i) = p + of_nat (origin (sections c1 ! i))
        \<and> code_at m' (bytePtr (sections c4 ! i)) (bytes (sections c3 ! i))"
    and fields: "\<forall>e \<in> set (backPatchList c). \<exists>v t pos. pos = bytePtr (sections c4 ! posSection e) + of_nat (bp_pos e)
        \<and> extInt4 m' pos = Some (v, pos + 4) \<and> target_pos c1 e = Some t
        \<and> (p + of_nat (origin_pos c1 e)) + v = p + of_nat t" by blast
  note un = link_untouched [OF link(1-6) later(1)]
  have "items_at m' (target_addr look c1 p) (bytePtr (sections c4 ! sec) + of_nat ?pos) its"
  proof (rule items_placed [where look = look and sec = sec])
    show "code_at m' (bytePtr (sections c4 ! sec)) (bytes (sections c3 ! sec))" using at later(1) by blast
    show "?pos + length (item_bytes its) \<le> bytePos (sections c3 ! sec)" using un(1) bc by simp
  next
    fix j assume j: "j < length (item_bytes its)"
      and free: "\<forall>e \<in> set (item_patches look sec ?pos its). \<not> (bp_pos e \<le> ?pos + j \<and> ?pos + j < bp_pos e + 4)"
    have "\<not> (posSection e = sec \<and> bp_pos e \<le> ?pos + j \<and> ?pos + j < bp_pos e + 4)" if "e \<in> set (backPatchList c)" for e
      using others free that bytes' j by fastforce
    with un(2) [of "?pos + j"] bc j kept show "bytes (sections c3 ! sec) ! (?pos + j) = item_bytes its ! j"
      by (auto simp: nth_append)
  next
    fix e t i assume e: "e \<in> set (item_patches look sec ?pos its)" "bp_target e = Simple t (look i)"
    note q = item_patches_pos [OF e(1)]
    let ?p = "bytePtr (sections c4 ! sec) + of_nat (bp_pos e)"
    have "e \<in> set (backPatchList c)" using e(1) patches' by auto
    then obtain v t' where v: "extInt4 m' ?p = Some (v, ?p + 4)" "target_pos c1 e = Some t'"
      "(p + of_nat (origin_pos c1 e)) + v = p + of_nat t'" using fields q by fastforce
    have "p + of_nat t' = target_addr look c1 p i t" using v(2) e(2) by (auto simp: target_pos_def target_addr_def)
    moreover have "p + of_nat (origin_pos c1 e) = ?p + 4"
      using q at later(1) by (simp add: origin_pos_def ac_simps)
    ultimately show "extInt4 m' ?p = Some (target_addr look c1 p i t - (?p + 4), ?p + 4)"
      using v(1,3) by (metis add_diff_cancel_left')
  qed
  then show ?thesis using cp at later(1) by blast
qed

lemma location_linked:
  assumes gen: "loc_genByteCode l offset st = Some st'" "in_code (code st) sec seg" "decodable l" "whole l offset"
    and later: "sec < length (sections c)" "extends (bytes (sections (code st') ! sec)) (bytes (sections c ! sec))"
      "set (backPatchList (code st')) \<subseteq> set (backPatchList c)"
      "\<forall>e \<in> set (backPatchList c). posSection e = sec \<longrightarrow>
         e \<in> set (backPatchList (code st')) \<or> bytePos (sections (code st') ! sec) \<le> bp_pos e"
    and earlier: "\<forall>e \<in> set (backPatchList (code st)). posSection e = sec \<longrightarrow> bp_pos e + 4 \<le> bytePos (sections (code st) ! sec)"
    and link: "setSectionOrigins c = (c1, sz)" "setSegmentLengths segs c1 = Some c2"
      "apply_patches (backPatchList c2) (c2\<lparr>backPatchList := []\<rparr>) = Some c3"
      "sorted_wrt apart (backPatchList c)" "\<forall>e \<in> set (backPatchList c). patch_ok c e" "segments_ok c"
      "p AND 3 = 0" "sz < 2 ^ 32" "span p sz \<subseteq> dom m"
    and kept: "bytes (sections c2 ! sec) = bytes (sections c ! sec)"
  shows "\<exists>c4 m'. copySections p c3 m = Some (c4, m') \<and> (\<forall>h s. mem s = m' \<longrightarrow>
      reads_as h s (bytePtr (sections c4 ! sec) + of_nat (bytePos (sections (code st) ! sec)))
        (bytePtr (sections c4 ! sec) + of_nat (bytePos (sections (code st') ! sec)))
        (loc_place (target_addr (\<lambda>i. getSection seg i (code st)) c1 p) st' s l offset))"
proof -
  let ?look = "\<lambda>i. getSection seg i (code st)" and ?pos = "bytePos (sections (code st) ! sec)"
  let ?its = "loc_items st' l offset"
  have ns: "no_string l" using gen(3) by (induction l) (auto simp: is_string_def)
  have e: "emitted ?its (code st) (code st')" using loc_emitted [OF gen(1,2) ns] by blast
  then have bytes': "bytes (sections (code st') ! sec) = bytes (sections (code st) ! sec) @ item_bytes ?its"
    and patches': "backPatchList (code st') = item_patches ?look sec ?pos ?its @ backPatchList (code st)"
    using gen(2) by (auto simp: emitted_def)
  have "set (item_patches ?look sec ?pos ?its) \<subseteq> set (backPatchList c)" using patches' later(3) by auto
  moreover have "\<forall>e \<in> set (backPatchList c). posSection e = sec \<longrightarrow> e \<in> set (item_patches ?look sec ?pos ?its)
      \<or> bytePos (sections (code st') ! sec) \<le> bp_pos e \<or> bp_pos e + 4 \<le> ?pos"
    using later(4) earlier patches' by auto
  ultimately obtain c4 m' where cp: "copySections p c3 m = Some (c4, m')"
    and it: "items_at m' (target_addr ?look c1 p) (bytePtr (sections c4 ! sec) + of_nat ?pos) ?its"
    using items_linked [OF bytes' _ later(1,2) _ link kept, where look = ?look] by blast
  have "reads_as h s (bytePtr (sections c4 ! sec) + of_nat ?pos)
      (bytePtr (sections c4 ! sec) + of_nat (bytePos (sections (code st') ! sec)))
      (loc_place (target_addr ?look c1 p) st' s l offset)" if "mem s = m'" for h s
    using loc_decode [OF gen(3,4), where s = s and pc = "bytePtr (sections c4 ! sec) + of_nat ?pos" and st = st' and h = h] that it bytes'
    by (simp add: add.assoc)
  then show ?thesis using cp by blast
qed


text \<open>C34: the operand that is generated for a component of a static location that does not come first in its
  structure, linked and in memory, is decoded to the address of the structure: the generator drops the
  component's offset.\<close>

theorem static_component_at_base:
  assumes gen: "loc_genByteCode (CompLoc (StaticLoc i) rs k) 0 st = Some st'" "in_code (code st) sec seg" "k \<in> {1..length rs}" "comp_offset rs k \<noteq> 0"
    and later: "sec < length (sections c)" "extends (bytes (sections (code st') ! sec)) (bytes (sections c ! sec))"
      "set (backPatchList (code st')) \<subseteq> set (backPatchList c)"
      "\<forall>e \<in> set (backPatchList c). posSection e = sec \<longrightarrow>
         e \<in> set (backPatchList (code st')) \<or> bytePos (sections (code st') ! sec) \<le> bp_pos e"
    and earlier: "\<forall>e \<in> set (backPatchList (code st)). posSection e = sec \<longrightarrow> bp_pos e + 4 \<le> bytePos (sections (code st) ! sec)"
    and link: "setSectionOrigins c = (c1, sz)" "setSegmentLengths segs c1 = Some c2"
      "apply_patches (backPatchList c2) (c2\<lparr>backPatchList := []\<rparr>) = Some c3"
      "sorted_wrt apart (backPatchList c)" "\<forall>e \<in> set (backPatchList c). patch_ok c e" "segments_ok c"
      "p AND 3 = 0" "sz < 2 ^ 32" "span p sz \<subseteq> dom m"
    and kept: "bytes (sections c2 ! sec) = bytes (sections c ! sec)"
  shows "\<exists>c4 m' base. copySections p c3 m = Some (c4, m')
    \<and> base = target_addr (\<lambda>i. getSection seg i (code st)) c1 p RACK_SECTION_ID (rackPos (slots st' ! i))
    \<and> (\<forall>h s. mem s = m' \<longrightarrow>
      reads_as h s (bytePtr (sections c4 ! sec) + of_nat (bytePos (sections (code st) ! sec)))
        (bytePtr (sections c4 ! sec) + of_nat (bytePos (sections (code st') ! sec))) (\<lambda>t. Some (At base))
      \<and> (\<forall>t. loc_place (target_addr (\<lambda>i. getSection seg i (code st)) c1 p) st' s (CompLoc (StaticLoc i) rs k) 0 t
          = Some (At (base + comp_offset rs k)) \<and> base + comp_offset rs k \<noteq> base))"
proof -
  have "loc_genByteCode (StaticLoc i) 0 st = Some st'" "decodable (StaticLoc i)" "whole (StaticLoc i) 0"
    using gen(1) by simp_all
  note linked = location_linked [OF this(1) gen(2) this(2,3) later earlier link kept]
  have "loc_place T st' s (StaticLoc i) 0 = (\<lambda>t. Some (At (T RACK_SECTION_ID (rackPos (slots st' ! i)))))" for T s
    by (rule ext) simp
  with linked show ?thesis using gen(4) by (simp add: comp_offset_def)
qed

text \<open>A field of the object that a global refers to: the global gets its place in the rack on first use.\<close>

definition global_demo :: CodeGen where
  "global_demo = \<lparr>code = \<lparr>rootSegment = Some 0, currSegment = Some 0,
       segments = [\<lparr>parent = None, index = 0, children = [], seg_sections = Some 0, lastSection = Some 2, nameConsts = [],
         typeConsts = [], importRecs = []\<rparr>], sectionId = 3,
       sections = [new_section 1 True, (new_section 2 True)\<lparr>bytes := [0, 0]\<rparr>, (new_section 9 True)\<lparr>bytes := [7]\<rparr>],
       currSection = Some 2, codeSection = Some 2, backPatchList = [], insBackPatchList = [],
       labels = (\<lambda>_. None), reports = []\<rparr>,
     stackPtr = 0,
     slots = [\<lparr>slot_repr = Basic REPR_EXPR, imported = False, exported = True, slot_name = 300,
       allocated = False, rackPos = 0\<rparr>],
     globals = []\<rparr>"


text \<open>The second word of a structure in a global.\<close>

definition pair_demo :: CodeGen where
  "pair_demo = global_demo\<lparr>slots := [\<lparr>slot_repr = Struct [Basic REPR_INT, Basic REPR_INT], imported = False, exported = True,
     slot_name = 300, allocated = False, rackPos = 0\<rparr>]\<rparr>"

lemma static_component_at_base_witness:
  "\<exists>st' c3 c4 m'. loc_genByteCode (CompLoc (StaticLoc 0) [Basic REPR_INT, Basic REPR_INT] 2) 0 pair_demo = Some st'
     \<and> copySections 0x100 c3 (flash 0x100 (replicate 18 0)) = Some (c4, m')
     \<and> (\<forall>h s. mem s = m' \<longrightarrow> reads_as h s (bytePtr (sections c4 ! 2) + 1) (bytePtr (sections c4 ! 2) + 6) (\<lambda>t. Some (At 0x104)))"
proof -
  have some: "x = Some (the x)" if "\<not> Option.is_none x" for x :: "'a option"
    using that by (cases x) simp_all
  let ?l = "CompLoc (StaticLoc 0) [Basic REPR_INT, Basic REPR_INT] 2" and ?st = pair_demo
  let ?st' = "the (loc_genByteCode ?l 0 ?st)"
  let ?c = "code ?st'"
  let ?c1 = "fst (setSectionOrigins ?c)"
  let ?c2 = "the (setSegmentLengths [] ?c1)"
  let ?c3 = "the (apply_patches (backPatchList ?c) (?c2\<lparr>backPatchList := []\<rparr>))"
  have g: "loc_genByteCode ?l 0 ?st = Some ?st'" by (rule some) code_simp
  have i: "in_code (code ?st) 2 0"
    by (simp add: in_code_def pair_demo_def global_demo_def segments_ok_def getSection_def new_section_def upt_rec option.pred_set)
  have d: "2 \<in> {1..length [Basic REPR_INT, Basic REPR_INT]}" "comp_offset [Basic REPR_INT, Basic REPR_INT] 2 \<noteq> 0" by (simp, code_simp)
  have c: "2 < length (sections ?c)" by code_simp
  have e: "\<forall>e \<in> set (backPatchList ?c). posSection e = 2 \<longrightarrow>
         e \<in> set (backPatchList ?c) \<or> bytePos (sections ?c ! 2) \<le> bp_pos e" by blast
  have e': "\<forall>e \<in> set (backPatchList (code ?st)). posSection e = 2 \<longrightarrow> bp_pos e + 4 \<le> bytePos (sections (code ?st) ! 2)"
    by (simp add: pair_demo_def global_demo_def)
  have "snd (setSectionOrigins ?c) = 18" by code_simp
  then have o: "setSectionOrigins ?c = (?c1, 18)" by (metis prod.collapse)
  have sl: "setSegmentLengths [] ?c1 = Some ?c2" by (rule some) code_simp
  have b: "backPatchList ?c2 = backPatchList ?c"
    using setSegmentLengths_layout [OF sl] origins_layout [OF o] by (simp add: same_layout_def)
  have p: "apply_patches (backPatchList ?c2) (?c2\<lparr>backPatchList := []\<rparr>) = Some ?c3" unfolding b by (rule some) code_simp
  have a: "sorted_wrt apart (backPatchList ?c)" by code_simp
  have k: "\<forall>e \<in> set (backPatchList ?c). patch_ok ?c e" by (code_simp, simp)
  have s: "segments_ok ?c" by (code_simp, simp)
  have "read_n 18 (flash 0x100 (replicate 18 0)) 0x100 = Some (replicate 18 0)" by code_simp
  then have dm: "span 0x100 18 \<subseteq> dom (flash 0x100 (replicate 18 0))" by (rule read_n_span)
  have w: "(0x100 :: addr) AND 3 = 0" "(18::nat) < 2 ^ 32" by simp_all
  have kept: "bytes (sections ?c2 ! 2) = bytes (sections ?c ! 2)" by code_simp
  have n: "bytePos (sections ?c ! 2) = 6" "bytePos (sections (code ?st) ! 2) = 1"
    "origin (sections ?c1 ! 1) = 0" "getSection 0 2 (code ?st) = Some 1" "rackPos (slots ?st' ! 0) = 4" by code_simp+
  then have base: "target_addr (\<lambda>i. getSection 0 i (code ?st)) ?c1 0x100 RACK_SECTION_ID (rackPos (slots ?st' ! 0)) = 0x104"
    unfolding target_addr_def by simp
  from static_component_at_base [OF g i d c extends_refl(1) subset_refl e e' o sl p a k s w dm kept, unfolded base]
  obtain c4 m' where c4: "copySections 0x100 ?c3 (flash 0x100 (replicate 18 0)) = Some (c4, m')"
    and "\<forall>h s. mem s = m' \<longrightarrow> reads_as h s (bytePtr (sections c4 ! 2) + of_nat (bytePos (sections (code ?st) ! 2)))
      (bytePtr (sections c4 ! 2) + of_nat (bytePos (sections ?c ! 2))) (\<lambda>t. Some (At 0x104))" by blast
  moreover have "of_nat (bytePos (sections (code ?st) ! 2)) = (1 :: u32)" "of_nat (bytePos (sections ?c ! 2)) = (6 :: u32)"
    unfolding n by simp_all
  ultimately show ?thesis using g by metis
qed

end
