(* ===== verification/Instructions.thy ===== *)
theory Instructions
  imports Locations
begin

text \<open>
  Byte code for instructions: \<open>genByteCode\<close> of the classes of instructions and operands in
  API/ivory/compiler/byteCode.cpp, whose data members are declared in header/ivory/compiler/code.h and
  ICode.h, and what the interpreter does with the code of moves, operations, jumps and branches.

  A label is its number. A lambda appears as its segment, a location operand with the representation
  of its location. The name that a built-in function or constructor has in the table of names is given
  by a parameter \<open>useName\<close>. The listing is not modelled.
\<close>

subsection \<open>Operands\<close>

datatype CellInfoRef = KnownInfo u32 | CompiledInfo nat

datatype Operand = LabelOperand nat | ConstOperand Const | LocOperand Loc Repr
  | BuiltInFnOperand string bool bool | BuiltInDataConOperand string bool | CellInfoOperand CellInfoRef | ThisOperand

text \<open>The generator's state: \<open>rackOffsets\<close> are the \<open>_rackOffset\<close> of the cell infos of the program,
  \<open>pointees\<close> what pointer representations point to, \<open>entryPoint\<close> the saved section and position.\<close>

record InsGen =
  gen :: CodeGen
  rackOffsets :: "nat \<Rightarrow> nat"
  pointees :: "nat \<Rightarrow> Repr"
  useName :: "string \<Rightarrow> u16"
  branchBackPatchFlag :: bool
  entryPoint :: "(nat \<times> nat) option"

definition on_gen :: "(CodeGen \<Rightarrow> CodeGen option) \<Rightarrow> InsGen \<Rightarrow> InsGen option" where
  "on_gen f g = map_option (\<lambda>st. g\<lparr>gen := st\<rparr>) (f (gen g))"

definition asm :: "(ByteCode \<Rightarrow> ByteCode option) \<Rightarrow> InsGen \<Rightarrow> InsGen option" where
  "asm f = on_gen (emit f)"

abbreviation (input) REG_sb :: u32 where "REG_sb \<equiv> 2"
abbreviation (input) REG_sp :: u32 where "REG_sp \<equiv> 3"

abbreviation (input) the_code :: "InsGen \<Rightarrow> ByteCode" where
  "the_code g \<equiv> code (gen g)"

text \<open>A label: four bytes, filled in with the offset from the end of the instruction.\<close>

definition label_field :: "nat \<Rightarrow> bool \<Rightarrow> bool \<Rightarrow> ByteCode \<Rightarrow> ByteCode option" where
  "label_field lab branchFlag endOfIns c = do {
     pos \<leftarrow> code_bytePos c;
     c \<leftarrow> putBits32 0 c;
     addLabelBackPatch pos lab branchFlag endOfIns c }"

text \<open>A slot in the rack for the pointer that the run-time system imports under a name.\<close>

definition import_slot :: "u16 \<Rightarrow> ByteCode \<Rightarrow> (nat \<times> ByteCode) option" where
  "import_slot name c = do {
     (k, c) \<leftarrow> name_const name c;
     seg \<leftarrow> currSegment c;
     case importRec (of_nat k) (segments c ! seg) of
       Some r \<Rightarrow> Some (unat (importOffset r), c)
     | None \<Rightarrow> do {
         (pos, c) \<leftarrow> rack_slot (sizeof TPtr) c;
         Some (pos, on_segment seg (addImportRec (of_nat k) (of_nat pos)) c) } }"

definition built_in_operand :: "string \<Rightarrow> InsGen \<Rightarrow> InsGen option" where
  "built_in_operand ident g = asm (\<lambda>c. do {
     (pos, c) \<leftarrow> import_slot (useName g ident) c;
     put_target RACK_SECTION_ID pos c }) g"

text \<open>The representation of a constructor operand is always that of a cell pointer, so that the suffix
  of closures is the only one it gets.\<close>

definition suffix :: "bool \<Rightarrow> bool \<Rightarrow> string" where
  "suffix asClosure altEntry = (if asClosure then ''$fn'' else if \<not> altEntry then ''$entry'' else ''$altEntry'')"

fun genOperand :: "Operand \<Rightarrow> InsGen \<Rightarrow> InsGen option" where
  "genOperand (LabelOperand lab) g = asm (label_field lab (branchBackPatchFlag g) True) g"
| "genOperand (ConstOperand k) g = asm (const_genByteCode k) g"
| "genOperand (LocOperand l r) g = on_gen (loc_genByteCode l 0) g"
| "genOperand (BuiltInFnOperand ident asClosure altEntry) g = built_in_operand (ident @ suffix asClosure altEntry) g"
| "genOperand (BuiltInDataConOperand ident altEntry) g = built_in_operand (ident @ suffix True altEntry) g"
| "genOperand (CellInfoOperand (KnownInfo a)) g = asm (\<lambda>c. do {
     c \<leftarrow> putByte (ext_mode_val IMM_EXT 2) c; putBits32 a c }) g"
| "genOperand (CellInfoOperand (CompiledInfo k)) g = asm (put_target RACK_SECTION_ID (rackOffsets g k)) g"
| "genOperand ThisOperand g = asm (\<lambda>c. do { c \<leftarrow> putByte (ext_mode_val MEM_EXT 2) c; putBits32 0 c }) g"

fun is_const :: "Operand \<Rightarrow> bool" where
  "is_const (ConstOperand k) = True"
| "is_const _ = False"

text \<open>A pointer constant has a pointer representation without a target, here the number 0.\<close>

primrec const_repr :: "Const \<Rightarrow> Repr" where
  "const_repr (NameConst _) = Basic REPR_NAME"
| "const_repr (TypeConst _) = Basic REPR_TYPE"
| "const_repr (BitsConst _) = Basic REPR_BITS"
| "const_repr (IntConst _) = Basic REPR_INT"
| "const_repr (DoubleConst _) = Basic REPR_DOUBLE"
| "const_repr (CharConst _) = Basic REPR_CHAR"
| "const_repr (StringConst _) = Basic REPR_STRING"
| "const_repr (TagConst _) = Basic REPR_TAG"
| "const_repr CodeEnv = PtrRepr 0"
| "const_repr ConsEnv = Basic REPR_ENV_PTR"
| "const_repr NullRef = Basic REPR_REF"
| "const_repr NullPtr = PtrRepr 0"
| "const_repr NullEnv = PtrRepr 0"

text \<open>The classes without a method of their own report an error and give the unknown representation.\<close>

fun operand_repr :: "Operand \<Rightarrow> Repr" where
  "operand_repr (LabelOperand _) = Basic REPR_LABEL"
| "operand_repr (ConstOperand k) = const_repr k"
| "operand_repr (LocOperand _ r) = r"
| "operand_repr (BuiltInFnOperand _ _ _) = Basic REPR_CELL_PTR"
| "operand_repr (BuiltInDataConOperand _ _) = Basic REPR_CELL_PTR"
| "operand_repr _ = Basic REPR_UNKNOWN"

subsection \<open>Instructions\<close>

datatype return_form = SIMPLE | GENERAL | EXIT_FORM

text \<open>The members of a function of a type: the label of its code and the segment of its lambda.\<close>

type_synonym type_fn = "(nat \<times> nat) option"

datatype Instruction =
    TypeDescrInstruction Const Const nat "type_fn list"
  | EntryInstruction
  | LabelInstruction nat "u32 option" bool
  | GoToInstruction Operand bool
  | PtrArrayAssignInstruction Operand Operand
  | MoveInstruction Operand Operand
  | LVP_Instruction Operand Operand
  | EnterCellInstruction Operand bool
  | MarkCellInstruction Operand
  | RSS_Instruction u32
  | ReturnInstruction return_form
  | ConditionalInstruction op_kind op_type Operand "Operand option" "Operand option" "Operand option" Operand
  | MonadicOpActionInstruction op_kind op_type Operand "Operand option"
  | MonadicOpInstruction op_kind op_type Operand "Operand option" Operand
  | UpdateInstruction Operand Operand
  | ConstructFromNameInstruction Operand "Operand option" u16 Operand
  | ConstructFromStringInstruction Operand u16 Operand
  | DyadicOpInstruction op_kind op_type Operand "Operand option" "Operand option" "Operand option" Operand
  | DyadicOpActionInstruction op_kind op_type Operand "Operand option" Operand "Operand option"
  | TriadicOpActionInstruction op_kind op_type Operand Operand Operand
  | QuinadicOpActionInstruction op_kind op_type "(Operand \<times> Operand option) list"
  | CaseInstruction Operand "Operand option" "(Const \<times> nat) list" "nat option"
  | ArgCheckInstruction "(u32 \<times> nat) list"
  | CellInfoInstruction nat nat nat "nat option" "nat option" "nat option" "nat option" "Repr list option" nat
  | FrameDescrInstruction nat u32 u32 "(u16 \<times> nat) list"
  | HeapAllocInstruction u32 Operand
  | CellAllocInstruction "Repr list option" Operand "Operand option" Operand
  | IndirectionAllocInstruction Operand
  | PtrArrayAllocInstruction Operand u32 Operand
  | TagInstruction Repr Operand Operand
  | ToCellInstruction Operand Operand
  | StackAdjustInstruction u32
  | ExceptionInstruction
  | EmptyArgsInstruction u32
  | SqueezeInstruction u32 u32 u32

definition genOpCode :: "byte \<Rightarrow> InsGen \<Rightarrow> InsGen option" where
  "genOpCode opCode g = asm (putByte opCode) g"

definition gen_vlu :: "nat \<Rightarrow> InsGen \<Rightarrow> InsGen option" where
  "gen_vlu n g = asm (putVLU (of_nat n)) g"

definition putCodeEnv :: "ByteCode \<Rightarrow> ByteCode option" where
  "putCodeEnv c = put_target RACK_SECTION_ID 0 c"

definition putTypeConst :: "u16 \<Rightarrow> ByteCode \<Rightarrow> ByteCode option" where
  "putTypeConst ty c = do {
     (k, c) \<leftarrow> type_const ty c;
     put_target TYPE_TABLE_SECTION_ID (2 + k * 2) c }"

text \<open>The opcode of a move, by the representations of its operands. A string constant is copied, a
  structure or file handle moved with its size.\<close>

definition move_table :: "(repr_tag \<times> byte) list" where
  "move_table =
    [(REPR_LABEL, 142), (REPR_I_ADDRESS, 143), (REPR_LABEL_PAIR, 144), (REPR_EXPR, 2), (REPR_NAME, 9), (REPR_TYPE, 15),
     (REPR_BYTE, 21), (REPR_BITS, 215), (REPR_UTC, 22), (REPR_INT, 22), (REPR_FLOAT, 56), (REPR_DOUBLE, 78),
     (REPR_TAG, 101), (REPR_CHAR, 117), (REPR_ENV_PTR, 3), (REPR_DIR, 3), (REPR_DIR_ENTRY, 3), (REPR_SERIAL_CONTEXT, 3),
     (REPR_REF, 140), (REPR_FILE_HANDLE, 138)]"

text \<open>The switch over the representation of the destination; 255 is the illegal instruction.\<close>

definition by_repr :: "(repr_tag \<times> byte) list \<Rightarrow> bool \<Rightarrow> Repr \<Rightarrow> Repr \<Rightarrow> byte" where
  "by_repr table constSrc srcRepr dstRepr = (case dstRepr of
     PtrRepr _ \<Rightarrow> 3
   | Struct _ \<Rightarrow> 138
   | Basic t \<Rightarrow>
       if t = REPR_STRING then (if constSrc then 167 else 3)
       else if t = REPR_CELL_PTR then (if srcRepr \<noteq> Basic REPR_EXPR then 3 else 169)
       else (case map_of table t of Some b \<Rightarrow> b | None \<Rightarrow> 255)
   | _ \<Rightarrow> 255)"

definition move_opcode :: "bool \<Rightarrow> Repr \<Rightarrow> Repr \<Rightarrow> byte" where
  "move_opcode = by_repr move_table"

text \<open>Assigning to an element of an array knows fewer representations, and a byte is moved as Bits.\<close>

definition assign_table :: "(repr_tag \<times> byte) list" where
  "assign_table =
    [(REPR_EXPR, 2), (REPR_NAME, 9), (REPR_TYPE, 15), (REPR_BYTE, 215), (REPR_UTC, 22), (REPR_INT, 22), (REPR_FLOAT, 56),
     (REPR_DOUBLE, 78), (REPR_TAG, 101), (REPR_CHAR, 117), (REPR_ENV_PTR, 3), (REPR_SERIAL_CONTEXT, 3), (REPR_REF, 140)]"

definition assign_opcode :: "bool \<Rightarrow> Repr \<Rightarrow> Repr \<Rightarrow> byte" where
  "assign_opcode = by_repr assign_table"

definition case_opcode :: "bool \<Rightarrow> Repr \<Rightarrow> byte" where
  "case_opcode constX r =
     (if r = Basic REPR_STRING then (if constX then 177 else 176)
      else case r of
        Basic t \<Rightarrow> (case map_of [(REPR_NAME, 171), (REPR_TYPE, 172), (REPR_INT, 173), (REPR_TAG, 174), (REPR_CHAR, 175)] t of
          Some b \<Rightarrow> b | None \<Rightarrow> 255)
      | _ \<Rightarrow> 255)"

definition tag_opcode :: "bool \<Rightarrow> Repr \<Rightarrow> byte" where
  "tag_opcode constSrc r =
     (if r = Basic REPR_STRING then (if constSrc then 131 else 132)
      else case r of
        Basic t \<Rightarrow> (case map_of [(REPR_CELL_PTR, 159), (REPR_NAME, 10), (REPR_TYPE, 16), (REPR_INT, 23), (REPR_FLOAT, 57),
            (REPR_DOUBLE, 79), (REPR_TAG, 102), (REPR_CHAR, 118), (REPR_REF, 141)] t of
          Some b \<Rightarrow> b | None \<Rightarrow> 160)
      | _ \<Rightarrow> 160)"

subsection \<open>Code for instructions\<close>

text \<open>What comes first in most instructions: the opcode and the operands in order.\<close>

primrec gen_operands :: "Operand list \<Rightarrow> InsGen \<Rightarrow> InsGen option" where
  "gen_operands [] g = Some g"
| "gen_operands (x # xs) g = do { g \<leftarrow> genOperand x g; gen_operands xs g }"

definition gen_ins :: "byte \<Rightarrow> Operand list \<Rightarrow> InsGen \<Rightarrow> InsGen option" where
  "gen_ins opCode xs g = do { g \<leftarrow> genOpCode opCode g; gen_operands xs g }"

definition opt :: "Operand option \<Rightarrow> Operand list" where
  "opt x = (case x of None \<Rightarrow> [] | Some x \<Rightarrow> [x])"

text \<open>The size of the elements of the array that the representation of an operand points to.\<close>

definition element_size :: "Operand \<Rightarrow> InsGen \<Rightarrow> nat option" where
  "element_size x g = (case x of
     LocOperand _ (PtrRepr k) \<Rightarrow> (case pointees g k of Array _ r \<Rightarrow> Some (sizeOfRepr r) | _ \<Rightarrow> None)
   | _ \<Rightarrow> None)"

text \<open>Code in the initialisation section of the segment, to which generation returns afterwards.\<close>

definition in_init_code :: "(InsGen \<Rightarrow> InsGen option) \<Rightarrow> InsGen \<Rightarrow> InsGen option" where
  "in_init_code f g = do {
     let section = currSection (the_code g);
     g \<leftarrow> asm selectInitCodeSection g;
     g \<leftarrow> f g;
     asm (\<lambda>c. Some (c\<lparr>currSection := section\<rparr>)) g }"

text \<open>A function of a type: the offset of its segment, then that of its code.\<close>

definition put_fn :: "type_fn \<Rightarrow> InsGen \<Rightarrow> InsGen option" where
  "put_fn fn g = (case fn of
     Some (lab, seg) \<Rightarrow> asm (\<lambda>c. do {
       pos \<leftarrow> code_bytePos c;
       c \<leftarrow> putBits32 0 c;
       c \<leftarrow> addSegmentBackPatch pos seg True c;
       label_field lab (branchBackPatchFlag g) True c }) g
   | None \<Rightarrow> asm (\<lambda>c. do { c \<leftarrow> putBits32 0 c; putBits32 0 c }) g)"

primrec put_fns :: "type_fn list \<Rightarrow> InsGen \<Rightarrow> InsGen option" where
  "put_fns [] g = Some g"
| "put_fns (fn # fns) g = do { g \<leftarrow> put_fn fn g; put_fns fns g }"

definition genTypeDescr :: "Const \<Rightarrow> Const \<Rightarrow> nat \<Rightarrow> type_fn list \<Rightarrow> InsGen \<Rightarrow> InsGen option" where
  "genTypeDescr ty denoted sz fns = in_init_code (\<lambda>g. do {
     g \<leftarrow> genOpCode 1 g;
     g \<leftarrow> asm (const_genByteCode ty) g;
     g \<leftarrow> asm putCodeEnv g;
     g \<leftarrow> asm (const_genByteCode denoted) g;
     g \<leftarrow> gen_vlu sz g;
     put_fns fns g })"

text \<open>A label is bound; where a basic block starts, the tracked stack pointer becomes that of the block.\<close>

definition genLabel :: "nat \<Rightarrow> u32 option \<Rightarrow> bool \<Rightarrow> InsGen \<Rightarrow> InsGen option" where
  "genLabel lab blkSp saveEntry g = do {
     g \<leftarrow> asm (bind_label lab) g;
     let g = (case blkSp of None \<Rightarrow> g | Some v \<Rightarrow> g\<lparr>gen := (gen g)\<lparr>stackPtr := v\<rparr>\<rparr>);
     if saveEntry then do {
       sec \<leftarrow> currSection (the_code g);
       pos \<leftarrow> code_bytePos (the_code g);
       Some (g\<lparr>entryPoint := Some (sec, pos)\<rparr>) }
     else Some g }"

fun genGoTo :: "Operand \<Rightarrow> bool \<Rightarrow> InsGen \<Rightarrow> InsGen option" where
  "genGoTo (LabelOperand lab) altEntry g = do {
     g \<leftarrow> genOpCode 147 g;
     g \<leftarrow> genOperand (LabelOperand lab) (g\<lparr>branchBackPatchFlag := True\<rparr>);
     Some (g\<lparr>branchBackPatchFlag := False\<rparr>) }"
| "genGoTo (BuiltInFnOperand i c a) altEntry g = gen_ins 148 [BuiltInFnOperand i c a] g"
| "genGoTo (BuiltInDataConOperand i a) altEntry g = gen_ins 148 [BuiltInDataConOperand i a] g"
| "genGoTo (LocOperand l r) altEntry g = gen_ins (if \<not> altEntry then 162 else 163) [LocOperand l r] g"
| "genGoTo target altEntry g = genOperand target g"

definition genMove :: "Operand \<Rightarrow> Operand \<Rightarrow> InsGen \<Rightarrow> InsGen option" where
  "genMove src dst g = do {
     let opCode = move_opcode (is_const src) (operand_repr src) (operand_repr dst);
     g \<leftarrow> gen_ins opCode [src, dst] g;
     if opCode = 138 then gen_vlu (sizeOfRepr (operand_repr dst)) g else Some g }"

definition genPtrArrayAssign :: "Operand \<Rightarrow> Operand \<Rightarrow> InsGen \<Rightarrow> InsGen option" where
  "genPtrArrayAssign src dst g = do {
     let opCode = assign_opcode (is_const src) (operand_repr src) (operand_repr dst);
     g \<leftarrow> gen_ins opCode [src, dst] g;
     if opCode = 138 then gen_vlu (sizeOfRepr (operand_repr dst)) g else Some g }"

definition genConditional :: "op_kind \<Rightarrow> op_type \<Rightarrow> Operand \<Rightarrow> Operand option \<Rightarrow> Operand option \<Rightarrow> Operand option
    \<Rightarrow> Operand \<Rightarrow> InsGen \<Rightarrow> InsGen option" where
  "genConditional kind ty x x_env y y_env z g =
     gen_ins (if kind \<noteq> SPECIAL_EXPR_OP then branchByteCode kind ty else 170)
       (x # opt x_env @ opt y @ opt y_env @ [z]) g"

definition genMonadicOpAction :: "op_kind \<Rightarrow> op_type \<Rightarrow> Operand \<Rightarrow> Operand option \<Rightarrow> InsGen \<Rightarrow> InsGen option" where
  "genMonadicOpAction kind ty x x_env g =
     gen_ins (if is_const x \<and> kind = ERROR_OP then 185
              else if is_const x \<and> kind = TRACE_OP then 186
              else byteCode kind ty (is_const x)) (x # opt x_env) g"

definition genMonadicOp :: "op_kind \<Rightarrow> op_type \<Rightarrow> Operand \<Rightarrow> Operand option \<Rightarrow> Operand \<Rightarrow> InsGen \<Rightarrow> InsGen option" where
  "genMonadicOp kind ty src src_env dst g = do {
     g \<leftarrow> gen_ins (byteCode kind ty (is_const src)) (src # (if kind \<noteq> FROM_STRING_OP then opt src_env else [])) g;
     g \<leftarrow> (if kind = ALLOC_PTR_ARRAY_OP then do { sz \<leftarrow> element_size dst g; gen_vlu sz g } else Some g);
     if kind \<noteq> ERROR_OP then genOperand dst g else Some g }"

definition genConstructFromName :: "Operand \<Rightarrow> Operand option \<Rightarrow> u16 \<Rightarrow> Operand \<Rightarrow> InsGen \<Rightarrow> InsGen option" where
  "genConstructFromName src src_env ty dst g = do {
     g \<leftarrow> gen_ins 211 (src # opt src_env) g;
     g \<leftarrow> asm (putTypeConst ty) g;
     g \<leftarrow> asm putCodeEnv g;
     genOperand dst g }"

definition genConstructFromString :: "Operand \<Rightarrow> u16 \<Rightarrow> Operand \<Rightarrow> InsGen \<Rightarrow> InsGen option" where
  "genConstructFromString src ty dst g = do {
     g \<leftarrow> gen_ins 212 [src] g;
     g \<leftarrow> asm (putTypeConst ty) g;
     g \<leftarrow> asm putCodeEnv g;
     genOperand dst g }"

definition genDyadicOp :: "op_kind \<Rightarrow> op_type \<Rightarrow> Operand \<Rightarrow> Operand option \<Rightarrow> Operand option \<Rightarrow> Operand option
    \<Rightarrow> Operand \<Rightarrow> InsGen \<Rightarrow> InsGen option" where
  "genDyadicOp kind ty x x_env y y_env dst g =
     gen_ins (byteCode kind ty (is_const x)) (x # opt x_env @ opt y @ opt y_env @ [dst]) g"

text \<open>The five operands \<open>v, w, x, y, z\<close> with their environments; the opcode depends on the third.\<close>

definition genQuinadicOpAction :: "op_kind \<Rightarrow> op_type \<Rightarrow> (Operand \<times> Operand option) list \<Rightarrow> InsGen \<Rightarrow> InsGen option" where
  "genQuinadicOpAction kind ty xs g = (case xs of
     [(v, v_env), (w, w_env), (x, x_env), (y, y_env), (z, z_env)] \<Rightarrow> do {
       g \<leftarrow> gen_ins (byteCode kind ty (is_const x)) (v # opt v_env) g;
       g \<leftarrow> (if kind = COPY_PTR_ARRAY_OP then do { sz \<leftarrow> element_size w g; gen_vlu sz g } else Some g);
       gen_operands (w # opt w_env @ x # opt x_env @ y # opt y_env @ z # opt z_env) g }
   | _ \<Rightarrow> None)"

text \<open>A table is put into the data section. Meanwhile \<open>_codeSection\<close> is the section of the instruction, so
  that the offsets of the labels are relative to the end of the instruction there.\<close>

definition in_data :: "(InsGen \<Rightarrow> InsGen option) \<Rightarrow> InsGen \<Rightarrow> (nat \<times> InsGen) option" where
  "in_data f g = do {
     let section = currSection (the_code g);
     g \<leftarrow> asm (\<lambda>c. selectSection DATA_SECTION_ID (c\<lparr>codeSection := section\<rparr>)) g;
     dataPos \<leftarrow> code_bytePos (the_code g);
     g \<leftarrow> f g;
     g \<leftarrow> asm (\<lambda>c. Some (c\<lparr>codeSection := None, currSection := section\<rparr>)) g;
     Some (dataPos, g) }"

definition table_field :: "nat \<Rightarrow> ByteCode \<Rightarrow> ByteCode option" where
  "table_field dataPos c = do {
     pos \<leftarrow> code_bytePos c;
     c \<leftarrow> putBits32 0 c;
     addTargetBackPatch pos dataPos DATA_SECTION_ID True c }"

primrec put_arms :: "(Const \<times> nat) list \<Rightarrow> InsGen \<Rightarrow> InsGen option" where
  "put_arms [] g = Some g"
| "put_arms (arm # arms) g = do {
     g \<leftarrow> asm (const_genByteCodeData (fst arm)) g;
     g \<leftarrow> genOperand (LabelOperand (snd arm)) g;
     put_arms arms g }"

definition genCase :: "Operand \<Rightarrow> Operand option \<Rightarrow> (Const \<times> nat) list \<Rightarrow> nat option \<Rightarrow> InsGen \<Rightarrow> InsGen option" where
  "genCase x x_env arms otherwise g = do {
     g \<leftarrow> gen_ins (case_opcode (is_const x) (operand_repr x)) [x] g;
     g \<leftarrow> (case x_env of None \<Rightarrow> Some g | Some e \<Rightarrow> do { g \<leftarrow> genOperand e g; asm putCodeEnv g });
     (dataPos, g) \<leftarrow> in_data (\<lambda>g. do {
       g \<leftarrow> put_arms arms g;
       case otherwise of None \<Rightarrow> Some g | Some lab \<Rightarrow> genOperand (LabelOperand lab) g }) g;
     g \<leftarrow> asm (table_field dataPos) g;
     gen_vlu (length arms) g }"

primrec put_depths :: "(u32 \<times> nat) list \<Rightarrow> InsGen \<Rightarrow> InsGen option" where
  "put_depths [] g = Some g"
| "put_depths (d # ds) g = do {
     g \<leftarrow> asm (putBits32 (fst d)) g;
     g \<leftarrow> genOperand (LabelOperand (snd d)) g;
     put_depths ds g }"

definition genArgCheck :: "(u32 \<times> nat) list \<Rightarrow> InsGen \<Rightarrow> InsGen option" where
  "genArgCheck ds g = do {
     g \<leftarrow> genOpCode 164 g;
     g \<leftarrow> gen_vlu (length ds) g;
     if ds \<noteq> [] then do {
       (dataPos, g) \<leftarrow> in_data (put_depths ds) g;
       asm (table_field dataPos) g }
     else Some g }"

definition label_field_opt :: "nat option \<Rightarrow> bool \<Rightarrow> ByteCode \<Rightarrow> ByteCode option" where
  "label_field_opt lab branchFlag c = (case lab of
     None \<Rightarrow> putBits32 0 c | Some lab \<Rightarrow> label_field lab branchFlag True c)"

definition struct_size :: "Repr list option \<Rightarrow> nat" where
  "struct_size rs = (case rs of None \<Rightarrow> 0 | Some rs \<Rightarrow> sizeOfRepr (Struct rs))"

text \<open>A cell info takes a word of the rack as it stands: the rack is not aligned first.\<close>

definition genCellInfo :: "nat \<Rightarrow> nat \<Rightarrow> nat \<Rightarrow> nat option \<Rightarrow> nat option \<Rightarrow> nat option \<Rightarrow> nat option \<Rightarrow> Repr list option \<Rightarrow> nat
    \<Rightarrow> InsGen \<Rightarrow> InsGen option" where
  "genCellInfo info entry altEntry copyFn extractBinFn insertBinFn gcFn rs seg = in_init_code (\<lambda>g. do {
     g \<leftarrow> genOpCode 155 g;
     rackOffset \<leftarrow> rackBytePos (the_code g);
     g \<leftarrow> asm (reserveRack (sizeof TPtr)) (g\<lparr>rackOffsets := (rackOffsets g)(info := rackOffset)\<rparr>);
     g \<leftarrow> asm (label_field entry (branchBackPatchFlag g) True) g;
     g \<leftarrow> asm (label_field altEntry (branchBackPatchFlag g) True) g;
     g \<leftarrow> asm (label_field_opt copyFn (branchBackPatchFlag g)) g;
     g \<leftarrow> asm (label_field_opt extractBinFn (branchBackPatchFlag g)) g;
     g \<leftarrow> asm (label_field_opt insertBinFn (branchBackPatchFlag g)) g;
     g \<leftarrow> asm (label_field_opt gcFn (branchBackPatchFlag g)) g;
     g \<leftarrow> gen_vlu (struct_size rs) g;
     g \<leftarrow> asm (\<lambda>c. do { pos \<leftarrow> code_bytePos c; c \<leftarrow> putBits32 0 c; addSegmentBackPatch pos seg True c }) g;
     asm (\<lambda>c. do { pos \<leftarrow> code_bytePos c; c \<leftarrow> putBits32 0 c; addTargetBackPatch pos rackOffset RACK_SECTION_ID True c }) g })"

primrec put_slots :: "(u16 \<times> nat) list \<Rightarrow> bool \<Rightarrow> ByteCode \<Rightarrow> ByteCode option" where
  "put_slots [] branchFlag c = Some c"
| "put_slots (sl # sls) branchFlag c = do {
     c \<leftarrow> putBits16 (fst sl) c;
     c \<leftarrow> label_field (snd sl) branchFlag False c;
     put_slots sls branchFlag c }"

definition genFrameDescr :: "nat \<Rightarrow> u32 \<Rightarrow> u32 \<Rightarrow> (u16 \<times> nat) list \<Rightarrow> InsGen \<Rightarrow> InsGen option" where
  "genFrameDescr lab labSeqNo sz frameSlots = in_init_code (\<lambda>g. do {
     g \<leftarrow> gen_ins 152 [LabelOperand lab] g;
     g \<leftarrow> asm (putVLU labSeqNo) g;
     g \<leftarrow> asm (putVLU sz) g;
     g \<leftarrow> gen_vlu (length frameSlots) g;
     asm (put_slots frameSlots (branchBackPatchFlag g)) g })"

definition genHeapAlloc :: "u32 \<Rightarrow> Operand \<Rightarrow> InsGen \<Rightarrow> InsGen option" where
  "genHeapAlloc sz dst g = do {
     g \<leftarrow> genOpCode 154 g;
     g \<leftarrow> asm (putImmUInt sz) g;
     genOperand dst g }"

definition genCellAlloc :: "Repr list option \<Rightarrow> Operand \<Rightarrow> Operand option \<Rightarrow> Operand \<Rightarrow> InsGen \<Rightarrow> InsGen option" where
  "genCellAlloc rs cellInfo env dst g = do {
     g \<leftarrow> genOpCode (if env = None then 156 else 157) g;
     g \<leftarrow> gen_vlu (struct_size rs) g;
     gen_operands (cellInfo # opt env @ [dst]) g }"

definition genPtrArrayAlloc :: "Operand \<Rightarrow> u32 \<Rightarrow> Operand \<Rightarrow> InsGen \<Rightarrow> InsGen option" where
  "genPtrArrayAlloc n sz dst g = do {
     g \<leftarrow> gen_ins 158 [n] g;
     g \<leftarrow> asm (putVLU sz) g;
     genOperand dst g }"

text \<open>The generator follows the stack pointer.\<close>

definition genStackAdjust :: "u32 \<Rightarrow> InsGen \<Rightarrow> InsGen option" where
  "genStackAdjust diff g = do {
     let g = g\<lparr>gen := (gen g)\<lparr>stackPtr := stackPtr (gen g) + diff\<rparr>\<rparr>;
     g \<leftarrow> genOpCode (if 0 < sint diff then 146 else 145) g;
     asm (putVLU (if 0 < sint diff then diff else - diff)) g }"

definition genEmptyArgs :: "u32 \<Rightarrow> InsGen \<Rightarrow> InsGen option" where
  "genEmptyArgs diff g = do {
     g \<leftarrow> genOpCode (if diff = 0 then 3 else 4) g;
     g \<leftarrow> on_gen (loc_genByteCode (Register REG_sp) 0) g;
     g \<leftarrow> (if diff \<noteq> 0 then asm (putImmInt diff) g else Some g);
     on_gen (loc_genByteCode (Register REG_sb) 0) g }"

definition genSqueeze :: "u32 \<Rightarrow> u32 \<Rightarrow> u32 \<Rightarrow> InsGen \<Rightarrow> InsGen option" where
  "genSqueeze from to sz g = do {
     g \<leftarrow> genOpCode 179 g;
     d \<leftarrow> int32 (sint (stackPtr (gen g)) - sint from);
     g \<leftarrow> asm (putVLI (of_int d)) g;
     e \<leftarrow> int32 (sint (stackPtr (gen g)) - sint to);
     g \<leftarrow> asm (putVLI (of_int e)) g;
     asm (putVLU sz) g }"

primrec return_opcode :: "return_form \<Rightarrow> byte" where
  "return_opcode SIMPLE = 149"
| "return_opcode GENERAL = 150"
| "return_opcode EXIT_FORM = 151"

primrec genInstruction :: "Instruction \<Rightarrow> InsGen \<Rightarrow> InsGen option" where
  "genInstruction (TypeDescrInstruction ty denoted sz fns) g = genTypeDescr ty denoted sz fns g"
| "genInstruction EntryInstruction g = Some g"
| "genInstruction (LabelInstruction lab blkSp saveEntry) g = genLabel lab blkSp saveEntry g"
| "genInstruction (GoToInstruction target altEntry) g = genGoTo target altEntry g"
| "genInstruction (PtrArrayAssignInstruction src dst) g = genPtrArrayAssign src dst g"
| "genInstruction (MoveInstruction src dst) g = genMove src dst g"
| "genInstruction (LVP_Instruction src dst) g = gen_ins 214 [src, dst] g"
| "genInstruction (EnterCellInstruction x altEntry) g = gen_ins (if \<not> altEntry then 162 else 163) [x] g"
| "genInstruction (MarkCellInstruction x) g = gen_ins 205 [x] g"
| "genInstruction (RSS_Instruction sz) g =
     (if 0 < sz then do { g \<leftarrow> genOpCode 195 g; asm (putVLU sz) g } else Some g)"
| "genInstruction (ReturnInstruction form) g = genOpCode (return_opcode form) g"
| "genInstruction (ConditionalInstruction kind ty x x_env y y_env z) g = genConditional kind ty x x_env y y_env z g"
| "genInstruction (MonadicOpActionInstruction kind ty x x_env) g = genMonadicOpAction kind ty x x_env g"
| "genInstruction (MonadicOpInstruction kind ty src src_env dst) g = genMonadicOp kind ty src src_env dst g"
| "genInstruction (UpdateInstruction src dst) g = gen_ins 165 [src, dst] g"
| "genInstruction (ConstructFromNameInstruction src src_env ty dst) g = genConstructFromName src src_env ty dst g"
| "genInstruction (ConstructFromStringInstruction src ty dst) g = genConstructFromString src ty dst g"
| "genInstruction (DyadicOpInstruction kind ty x x_env y y_env dst) g = genDyadicOp kind ty x x_env y y_env dst g"
| "genInstruction (DyadicOpActionInstruction kind ty x x_env y y_env) g =
     gen_ins (byteCode kind ty (is_const x)) (x # opt x_env @ y # opt y_env) g"
| "genInstruction (TriadicOpActionInstruction kind ty x y z) g = gen_ins (byteCode kind ty (is_const x)) [x, y, z] g"
| "genInstruction (QuinadicOpActionInstruction kind ty xs) g = genQuinadicOpAction kind ty xs g"
| "genInstruction (CaseInstruction x x_env arms otherwise) g = genCase x x_env arms otherwise g"
| "genInstruction (ArgCheckInstruction ds) g = genArgCheck ds g"
| "genInstruction (CellInfoInstruction i e ae cf xf nf gf rs seg) g = genCellInfo i e ae cf xf nf gf rs seg g"
| "genInstruction (FrameDescrInstruction lab labSeqNo sz frameSlots) g = genFrameDescr lab labSeqNo sz frameSlots g"
| "genInstruction (HeapAllocInstruction sz dst) g = genHeapAlloc sz dst g"
| "genInstruction (CellAllocInstruction rs cellInfo env dst) g = genCellAlloc rs cellInfo env dst g"
| "genInstruction (IndirectionAllocInstruction dst) g = gen_ins 213 [dst] g"
| "genInstruction (PtrArrayAllocInstruction n sz dst) g = genPtrArrayAlloc n sz dst g"
| "genInstruction (TagInstruction srcRepr src dst) g = gen_ins (tag_opcode (is_const src) srcRepr) [src, dst] g"
| "genInstruction (ToCellInstruction src dst) g = gen_ins 169 [src, dst] g"
| "genInstruction (StackAdjustInstruction diff) g = genStackAdjust diff g"
| "genInstruction ExceptionInstruction g = genOpCode 178 g"
| "genInstruction (EmptyArgsInstruction diff) g = genEmptyArgs diff g"
| "genInstruction (SqueezeInstruction from to sz) g = genSqueeze from to sz g"

text \<open>The loop over the instructions of a segment: the offsets that are relative to the end of an
  instruction get their origin after it.\<close>

definition compile_instruction :: "Instruction \<Rightarrow> InsGen \<Rightarrow> InsGen option" where
  "compile_instruction ins g = do {
     g \<leftarrow> genInstruction ins g;
     asm (\<lambda>c. end_of_instruction (insBackPatchList c) (c\<lparr>insBackPatchList := []\<rparr>)) g }"

primrec compile_instructions :: "Instruction list \<Rightarrow> InsGen \<Rightarrow> InsGen option" where
  "compile_instructions [] g = Some g"
| "compile_instructions (ins # inss) g = do { g \<leftarrow> compile_instruction ins g; compile_instructions inss g }"

end
