(* ===== verification/Compiled.thy ===== *)
theory Compiled
  imports Instructions
begin

text \<open>
  The byte code of instructions (theory Instructions), linked and in memory, does in the interpreter
  (theory Exec) what the instruction means: every operand is decoded to its place, the operation of the
  instruction is applied to what the places hold, and execution goes on behind the code or at the label.
\<close>

subsection \<open>Operands\<close>

fun operand_items :: "CodeGen \<Rightarrow> Operand \<Rightarrow> item list" where
  "operand_items st (ConstOperand k) = const_items (code st) k"
| "operand_items st (LocOperand l r) = loc_items st l 0"
| "operand_items st _ = []"

fun plain :: "Operand \<Rightarrow> bool" where
  "plain (ConstOperand k) \<longleftrightarrow> \<not> is_string k"
| "plain (LocOperand l r) \<longleftrightarrow> no_string l"
| "plain _ \<longleftrightarrow> False"

text \<open>What generation from one state to another appends, with items that do not change any more.\<close>

definition settled :: "(CodeGen \<Rightarrow> item list) \<Rightarrow> CodeGen \<Rightarrow> bool" where
  "settled its st \<longleftrightarrow> (\<forall>st2. stable st st2 \<longrightarrow> its st2 = its st)"

lemma settled_later: "settled its a \<Longrightarrow> stable a b \<Longrightarrow> settled its b \<and> its b = its a"
  unfolding settled_def using stable_trans by metis

lemma settled_const [simp]: "settled (\<lambda>_. its) st"
  by (simp add: settled_def)

lemma settled_append: "settled xs st \<Longrightarrow> settled ys st \<Longrightarrow> settled (\<lambda>st. xs st @ ys st) st"
  unfolding settled_def by metis

definition generates :: "InsGen \<Rightarrow> InsGen \<Rightarrow> (CodeGen \<Rightarrow> item list) \<Rightarrow> bool" where
  "generates g g' its \<longleftrightarrow> g' = g\<lparr>gen := gen g'\<rparr> \<and> stable (gen g) (gen g')
     \<and> emitted (its (gen g')) (code (gen g)) (code (gen g')) \<and> settled its (gen g')"

lemma generates_refl [simp]: "generates g g (\<lambda>_. [])"
  by (simp add: generates_def)

lemma generates_append:
  assumes "generates a b xs" "generates b c ys"
  shows "generates a c (\<lambda>st. xs st @ ys st)"
proof -
  have s: "stable (gen a) (gen b)" "stable (gen b) (gen c)" using assms by (simp_all add: generates_def)
  have x: "settled xs (gen c)" "xs (gen c) = xs (gen b)"
    using settled_later [OF _ s(2), of xs] assms(1) by (simp_all add: generates_def)
  have "c = a\<lparr>gen := gen c\<rparr>"
    using assms unfolding generates_def by (metis InsGen.surjective InsGen.update_convs(1))
  moreover have "emitted (xs (gen c) @ ys (gen c)) (code (gen a)) (code (gen c))"
    unfolding x(2) by (rule emitted_append [where b = "code (gen b)"]) (use assms in \<open>simp_all add: generates_def\<close>)
  ultimately show ?thesis
    using stable_trans [OF s] settled_append [OF x(1), of ys] assms(2) by (simp add: generates_def)
qed

lemma generates_in_code: "generates g g' its \<Longrightarrow> in_code (code (gen g)) sec seg \<Longrightarrow> in_code (code (gen g')) sec seg"
  using stable_in_code by (auto simp: generates_def)

lemma asm_generates:
  assumes "asm f g = Some g'" "\<And>c. f (code (gen g)) = Some c \<Longrightarrow> emitted its (code (gen g)) c"
  shows "generates g g' (\<lambda>_. its)"
proof -
  from assms(1) obtain st where st: "emit f (gen g) = Some st" "g' = g\<lparr>gen := st\<rparr>" by (auto simp: asm_def on_gen_def)
  from emit_emitted [OF st(1) assms(2) [OF emit_code [OF st(1)]]] st(2) show ?thesis by (simp add: generates_def)
qed

lemma operand_generates:
  assumes "genOperand x g = Some g'" "in_code (code (gen g)) sec seg" "plain x"
  shows "generates g g' (\<lambda>st. operand_items st x)"
proof (cases x)
  case (ConstOperand k)
  with assms obtain st where st: "emit (const_genByteCode k) (gen g) = Some st" "g' = g\<lparr>gen := st\<rparr>"
    by (auto simp: asm_def on_gen_def)
  note c = emit_code [OF st(1)]
  have e: "emitted (const_items (code st) k) (code (gen g)) (code st)"
    using const_emitted [OF c assms(2)] assms(3) ConstOperand by simp
  have i: "in_code (code st) sec seg" by (rule in_code_grown [OF assms(2) emitted_grown [OF e]])
  have "const_items (code st2) k = const_items (code st) k" if "stable st st2" for st2
  proof (rule const_items_grown)
    show "grown (code st) (code st2)" using that by (simp only: stable_def)
  qed (use i index_known [OF c assms(2)] in blast)+
  then have "settled (\<lambda>st. const_items (code st) k) st" unfolding settled_def by blast
  then show ?thesis using emit_emitted [OF st(1) e] st(2) ConstOperand by (simp add: generates_def)
next
  case (LocOperand l r)
  with assms obtain st where st: "loc_genByteCode l 0 (gen g) = Some st" "g' = g\<lparr>gen := st\<rparr>"
    by (auto simp: on_gen_def)
  have "no_string l" using assms(3) LocOperand by simp
  from loc_emitted [OF st(1) assms(2) this]
  have "stable (gen g) st" "emitted (loc_items st l 0) (code (gen g)) (code st)" "settled (\<lambda>st. loc_items st l 0) st"
    unfolding settled_def by blast+
  then show ?thesis using st(2) LocOperand by (simp add: generates_def)
qed (use assms(3) in simp_all)

definition operands_items :: "CodeGen \<Rightarrow> Operand list \<Rightarrow> item list" where
  "operands_items st xs = concat (List.map (operand_items st) xs)"

lemma operands_items_simps [simp]:
  "operands_items st [] = []" "operands_items st (x # xs) = operand_items st x @ operands_items st xs"
  by (simp_all add: operands_items_def)

lemma operands_generate:
  assumes "gen_operands xs g = Some g'" "in_code (code (gen g)) sec seg" "list_all plain xs"
  shows "generates g g' (\<lambda>st. operands_items st xs)"
  using assms
proof (induction xs arbitrary: g)
  case (Cons x xs)
  then obtain g1 where g1: "genOperand x g = Some g1" "gen_operands xs g1 = Some g'" by (auto simp: bind_simps)
  have x: "generates g g1 (\<lambda>st. operand_items st x)" using operand_generates [OF g1(1) Cons.prems(2)] Cons.prems(3) by simp
  have "generates g1 g' (\<lambda>st. operands_items st xs)"
    using Cons.IH [OF g1(2) generates_in_code [OF x Cons.prems(2)]] Cons.prems(3) by simp
  from generates_append [OF x this] show ?case by simp
qed simp

lemma genOpCode_generates: "genOpCode b g = Some g' \<Longrightarrow> generates g g' (\<lambda>_. [Raw [b]])"
  unfolding genOpCode_def by (rule asm_generates) (auto simp: putByte_putBytes emitted_putBytes simp del: putBytes.simps)

lemma gen_ins_generates:
  assumes "gen_ins b xs g = Some g'" "in_code (code (gen g)) sec seg" "list_all plain xs"
  shows "generates g g' (\<lambda>st. Raw [b] # operands_items st xs)"
proof -
  from assms(1) obtain g1 where g1: "genOpCode b g = Some g1" "gen_operands xs g1 = Some g'" by (auto simp: gen_ins_def bind_simps)
  note b = genOpCode_generates [OF g1(1)]
  from generates_append [OF b operands_generate [OF g1(2) generates_in_code [OF b assms(2)] assms(3)]]
  show ?thesis by simp
qed

subsection \<open>Decoding operands\<close>

text \<open>The place of a constant: names and types are in the tables of the segment, the others in the code.\<close>

primrec const_place :: "(nat \<Rightarrow> nat \<Rightarrow> addr) \<Rightarrow> ByteCode \<Rightarrow> Const \<Rightarrow> ctype \<Rightarrow> place option" where
  "const_place T c (NameConst name) t = Some (At (T NAME_TABLE_SECTION_ID (2 + the (name_index name c) * 2)))"
| "const_place T c (TypeConst ty) t = Some (At (T TYPE_TABLE_SECTION_ID (2 + the (type_index ty c) * 2)))"
| "const_place T c (BitsConst v) t = Some (Value (ucast v))"
| "const_place T c (IntConst v) t = Some (Value (ucast v))"
| "const_place T c (DoubleConst v) t = Some (Value v)"
| "const_place T c (CharConst v) t = Some (Value (ucast v))"
| "const_place T c (StringConst str) t = None"
| "const_place T c (TagConst v) t = Some (Value (ucast v))"
| "const_place T c CodeEnv t = Some (At (T RACK_SECTION_ID 0))"
| "const_place T c ConsEnv t = (case retReg t 1 of UseReg r \<Rightarrow> Some (InReg r) | _ \<Rightarrow> None)"
| "const_place T c NullRef t = Some (Value 0)"
| "const_place T c NullPtr t = Some (Value 0)"
| "const_place T c NullEnv t = Some (Value 0)"

fun operand_place :: "(nat \<Rightarrow> nat \<Rightarrow> addr) \<Rightarrow> CodeGen \<Rightarrow> machine \<Rightarrow> Operand \<Rightarrow> ctype \<Rightarrow> place option" where
  "operand_place T st s (ConstOperand k) t = const_place T (code st) k t"
| "operand_place T st s (LocOperand l r) t = loc_place T st s l 0 t"
| "operand_place T st s _ t = None"

text \<open>The types at which a constant is loaded. Tags from 32 to 255 are misread, and strings are no immediate
  values.\<close>

fun const_typed :: "Const \<Rightarrow> ctype \<Rightarrow> bool" where
  "const_typed (NameConst _) t \<longleftrightarrow> t = TName"
| "const_typed (TypeConst _) t \<longleftrightarrow> t = TType"
| "const_typed (BitsConst _) t \<longleftrightarrow> t = TBits"
| "const_typed (IntConst _) t \<longleftrightarrow> t = TInt"
| "const_typed (DoubleConst _) t \<longleftrightarrow> t = TDouble"
| "const_typed (CharConst _) t \<longleftrightarrow> t = TChar"
| "const_typed (TagConst v) t \<longleftrightarrow> t = TTag \<and> (v < 32 \<or> 256 \<le> v)"
| "const_typed CodeEnv t \<longleftrightarrow> t = TPtr"
| "const_typed ConsEnv t \<longleftrightarrow> t = TPtr"
| "const_typed NullRef t \<longleftrightarrow> t = TRef"
| "const_typed NullPtr t \<longleftrightarrow> t = TPtr"
| "const_typed NullEnv t \<longleftrightarrow> t = TPtr"
| "const_typed _ t \<longleftrightarrow> False"

text \<open>Locations that are not relative to memory are loaded at every type from the place that is written.\<close>

primrec direct :: "Loc \<Rightarrow> bool" where
  "direct (Register i) \<longleftrightarrow> True"
| "direct SpecialLoc \<longleftrightarrow> False"
| "direct (StaticLoc i) \<longleftrightarrow> False"
| "direct (StackLoc f off sz) \<longleftrightarrow> True"
| "direct (CompLoc l rs k) \<longleftrightarrow> direct l"
| "direct (CellCompLoc l rs k) \<longleftrightarrow> True"
| "direct (IndLoc l) \<longleftrightarrow> True"
| "direct (IndexedByConst r l k) \<longleftrightarrow> True"
| "direct (IndexedByLoc r l k) \<longleftrightarrow> True"

definition lv_free :: "byte \<Rightarrow> bool" where
  "lv_free b \<longleftrightarrow> addrMode b \<in> {2, 3, 4, 5, 6} \<or> addrMode b = 7 \<and> ext_group (extAddrMode b) \<notin> {IMM_EXT, MEM_EXT}"

lemma lv_free_operand:
  assumes "mem s pc = Some b" "lv_free b"
  shows "operand h s False t pc = operand h s True t pc"
  using assms by (subst (1 2) operand.simps) (auto simp: fetchByte_def lv_free_def Let_def)

lemma lv_free_modes:
  "lv_free (ext_mode_val g (of_nat (widthU v)))" "lv_free (ext_mode_val g (of_nat (widthS v)))" if "g \<noteq> IMM_EXT" "g \<noteq> MEM_EXT"
  using that ext_mode_byte [of "widthU v" g] ext_mode_byte [of "widthS v" g] width_fits [of v]
  by (simp_all add: lv_free_def)

lemma reg_byte:
  assumes "i < 32"
  shows "addrMode (ucast (push_bit 0 i OR ucast (mode_val REG_ADDR_MODE) :: u32)) = 5"
    "regId (ucast (push_bit 0 i OR ucast (mode_val REG_ADDR_MODE) :: u32)) = ucast i"
proof -
  let ?b = "ucast (push_bit 0 i OR ucast (mode_val REG_ADDR_MODE)) :: byte"
  have "uint i < 32" using assms by (simp add: word_less_def)
  then have "(ucast i :: byte) < 32" by (simp add: word_less_def unsigned_ucast_eq take_bit_int_eq_self)
  moreover have "?b = ucast i OR mode_val REG_ADDR_MODE" by (intro bit_word_eqI) (auto simp: bit_simps)
  ultimately show "addrMode ?b = 5" "regId ?b = ucast i"
    using short_mode_byte [of REG_ADDR_MODE "ucast i"] by (simp_all add: regId_def immVal_def)
qed

lemma lv_free_enc:
  assumes "code_at m pc (enc_unsigned mode g v)" "mode \<in> {CELL_ADDR_MODE, IND_ADDR_MODE}" "g \<noteq> IMM_EXT" "g \<noteq> MEM_EXT"
  shows "\<exists>b. m pc = Some b \<and> lv_free b"
  using assms lv_free_modes [of g v] mode_of_low(1) [of mode "ucast v"]
  by (auto simp: enc_unsigned_def enc_short_def enc_ext_def lv_free_def split: if_splits)

lemma direct_first:
  "direct l \<Longrightarrow> decodable l \<Longrightarrow> items_at m T pc (loc_items st l offset) \<Longrightarrow> \<exists>b. m pc = Some b \<and> lv_free b"
proof (induction l arbitrary: offset)
  case (Register i)
  then show ?case using reg_byte [of i] by (simp add: lv_free_def)
next
  case (StackLoc f off sz)
  then show ?case
    using lv_free_modes [of FRAME_EXT] lv_free_modes [of STACK_EXT] mode_of_low(1) [of STACK_ADDR_MODE]
    by (auto simp: enc_frame_def enc_stack_def enc_short_def enc_ext_def lv_free_def split: if_splits)
next
  case (CellCompLoc l rs k)
  then show ?case using lv_free_enc by (auto split: if_splits)
next
  case (IndLoc l)
  then show ?case using lv_free_enc [of m pc IND_ADDR_MODE IND_EXT "scast offset"] by simp
next
  case (IndexedByConst r l k)
  then show ?case using lv_free_modes [of INDEXED_EXT] by (auto simp: enc_ext_def)
next
  case (IndexedByLoc r l k)
  then show ?case using lv_free_modes [of INDEXED_EXT] by (auto simp: enc_ext_def)
qed simp_all

text \<open>The operands whose code is decoded to what they stand for: constants at their type, and locations, but for
  components of a register or of a static location. A location relative to memory is loaded only at some of
  the types.\<close>

fun reads :: "ctype \<Rightarrow> Operand \<Rightarrow> bool" where
  "reads t (ConstOperand k) \<longleftrightarrow> const_typed k t"
| "reads t (LocOperand l r) \<longleftrightarrow> decodable l \<and> whole l 0 \<and> (loadable t \<or> addressable t \<and> direct l)"
| "reads t _ \<longleftrightarrow> False"

fun writes :: "ctype \<Rightarrow> Operand \<Rightarrow> bool" where
  "writes t (LocOperand l r) \<longleftrightarrow> decodable l \<and> whole l 0 \<and> addressable t"
| "writes t _ \<longleftrightarrow> False"

lemma decodable_no_string: "decodable l \<Longrightarrow> no_string l"
  by (induction l) (auto simp: is_string_def)

lemma reads_plain: "reads t x \<Longrightarrow> plain x"
  by (cases "(t, x)" rule: reads.cases) (auto simp: decodable_no_string is_string_def split: Const.split)

lemma writes_plain: "writes t x \<Longrightarrow> plain x"
  by (cases "(t, x)" rule: writes.cases) (auto simp: decodable_no_string)

lemma ucast_up_down [simp]: "(ucast (ucast (v :: byte) :: u64) :: byte) = v" "(ucast (ucast (w :: u16) :: u32) :: u64) = ucast w"
  by (intro bit_word_eqI; auto simp: bit_simps dest: bit_imp_le_length)+

lemma char_decode:
  assumes "code_at (mem s) pc [ext_mode_val IMM_EXT 0, v]"
  shows "operand h s False TChar pc = Some (Value (ucast v), pc + 2)"
proof -
  have e: "enc_ext IMM_EXT 0 (ucast v) = [ext_mode_val IMM_EXT 0, v]"
    by (simp add: enc_ext_def le_bytes_cases(1) [simplified])
  have "fitsU (2 ^ 0) (ucast v)" using fitsU_cases(1) [of "ucast v"] uint_lt2p [of v] by (simp add: word_less_def unsigned_ucast_eq take_bit_int_eq_self)
  then show ?thesis
    using operand_imm(2) [where s = s and pc = pc and k = 0 and v = "ucast v" and t = TChar and h = h] assms
    by (simp add: imm_ext_widths_def e)
qed

lemma double_decode:
  assumes "code_at (mem s) pc (ext_mode_val IMM_EXT 3 # double_bytes d)"
  shows "operand h s False TDouble pc = Some (Value d, pc + 9)"
proof -
  let ?b = "ext_mode_val IMM_EXT 3"
  have m: "addrMode ?b = 7" "ext_group (extAddrMode ?b) = IMM_EXT" "ext_width (extAddrMode ?b) = 8"
    using ext_mode_byte [of 3 IMM_EXT] by simp_all
  have c: "mem s pc = Some ?b" "read_n 8 (mem s) (pc + 1) = Some (double_bytes d)"
  proof -
    have "read_n (Suc (length (double_bytes d))) (mem s) pc = Some (?b # double_bytes d)" using assms by (simp add: code_at_def)
    then have "mem s pc = Some ?b \<and> read_n (length (double_bytes d)) (mem s) (pc + 1) = Some (double_bytes d)"
      by (auto simp: bind_simps)
    then show "mem s pc = Some ?b" "read_n 8 (mem s) (pc + 1) = Some (double_bytes d)" by (simp_all add: double_bytes_def)
  qed
  have "byteSwap (double_bytes d) 8 = le_bytes 8 d"
    by (simp add: double_bytes_def byteSwap_prefix)
  then have "extDouble (mem s) (pc + 1) = Some (d, pc + 9)"
    using c(2) by (simp add: extDouble_def le_value_bytes add.assoc take_bit_word_eq_self)
  then show ?thesis
    using c(1) m by (subst operand.simps) (simp add: fetchByte_def Let_def imm_ext_def imm_ext_widths_def)
qed

lemma reg_decode:
  assumes "code_at (mem s) pc [ucast (push_bit 0 i OR ucast (mode_val REG_ADDR_MODE) :: u32)]" "i < 32" "addressable t"
  shows "operand h s lv t pc = map_option (\<lambda>p. (p, pc + 1)) (case retReg t (ucast i) of UseReg r \<Rightarrow> Some (InReg r) | _ \<Rightarrow> None)"
proof -
  have "mem s pc = Some (ucast (push_bit 0 i OR ucast (mode_val REG_ADDR_MODE) :: u32))" using assms(1) by simp
  then show ?thesis
    using addressable_retReg [OF assms(3), of "ucast i"] reg_byte [OF assms(2)]
    by (subst operand.simps) (simp add: fetchByte_def Let_def split: reg_operand.split)
qed

lemma const_reads:
  assumes "const_typed k t" "items_at (mem s) T pc (const_items c k)"
  shows "loadT t h s pc = map_option (\<lambda>v. (v, pc + item_length (const_items c k)))
    (Option.bind (const_place T c k t) (read_place t s))"
proof -
  have dm: "loadT t h s pc = map_option (\<lambda>v. (v, pc + 5)) (load_mem t s (T i j))" "item_length (target_items i j) = 5"
    if "items_at (mem s) T pc (target_items i j)" "loadable t" for i j
    using decode_mem(2) [OF that] by (simp_all add: target_items_def)
  show ?thesis
  proof (cases k)
    case (NameConst x)
    then show ?thesis using assms dm by (simp add: loadable_def)
  next
    case (TypeConst x)
    then show ?thesis using assms dm by (simp add: loadable_def)
  next
    case (BitsConst x)
    then show ?thesis using assms uimm_decode [where s = s and pc = pc and val = x and t = t and h = h] by (simp add: loadT_def)
  next
    case (IntConst x)
    then show ?thesis using assms simm_decode [where s = s and pc = pc and val = x and h = h] by (simp add: loadT_def)
  next
    case (CharConst x)
    then show ?thesis using assms char_decode [where s = s and pc = pc and v = x and h = h] by (simp add: loadT_def)
  next
    case (DoubleConst x)
    then show ?thesis using assms double_decode [where s = s and pc = pc and d = x and h = h] by (simp add: loadT_def double_bytes_def)
  next
    case (TagConst x)
    then show ?thesis using assms tag_decode [where s = s and pc = pc and v = x and h = h] by (simp add: loadT_def)
  next
    case CodeEnv
    then show ?thesis using assms dm by (simp add: loadable_def)
  next
    case ConsEnv
    then have "operand h s False t pc = map_option (\<lambda>p. (p, pc + 1)) (const_place T c k t)"
      using assms reg_decode [where s = s and pc = pc and i = 1 and t = t and h = h and lv = False]
      by (simp add: addressable_def)
    from loadT_of_operand [OF this] show ?thesis using ConsEnv by simp
  qed (use assms uimm_decode [where s = s and pc = pc and val = 0 and t = t and h = h] in \<open>simp_all add: loadT_def\<close>)
qed

text \<open>Operands in the code are read and written where they are.\<close>

lemma operand_reads:
  assumes "reads t x" "items_at (mem s) T pc (operand_items st x)"
  shows "loadT t h s pc = map_option (\<lambda>v. (v, pc + item_length (operand_items st x)))
    (Option.bind (operand_place T st s x t) (read_place t s))"
proof (cases x)
  case (ConstOperand k)
  then show ?thesis using const_reads assms by simp
next
  case (LocOperand l r)
  with assms have d: "decodable l" "whole l 0" "items_at (mem s) T pc (loc_items st l 0)" by simp_all
  note r = loc_decode [OF d, where h = h, unfolded reads_as_def]
  show ?thesis
  proof (cases "loadable t")
    case True
    then show ?thesis using r LocOperand by simp
  next
    case False
    then have "addressable t" "direct l" using assms(1) LocOperand by simp_all
    moreover from direct_first [OF this(2) d(1,3)] obtain b where "mem s pc = Some b" "lv_free b" by blast
    ultimately have "operand h s False t pc = map_option (\<lambda>p. (p, pc + item_length (loc_items st l 0))) (loc_place T st s l 0 t)"
      using lv_free_operand r by simp
    from loadT_of_operand [OF this] show ?thesis using LocOperand by simp
  qed
qed (use assms in simp_all)

lemma operand_writes:
  assumes "writes t x" "items_at (mem s) T pc (operand_items st x)"
  shows "storeT t v h s pc = map_option (\<lambda>s'. (s', pc + item_length (operand_items st x)))
    (Option.bind (operand_place T st s x t) (write_place t v s))"
proof (cases x)
  case (LocOperand l r)
  then have "lvT t h s pc = map_option (\<lambda>p. (p, pc + item_length (operand_items st x))) (operand_place T st s x t)"
    using loc_decode [of l 0 s T pc st h] assms by (simp add: reads_as_def lvT_def)
  then show ?thesis
    by (cases "operand_place T st s x t") (auto simp: storeT_def map_option_case split: option.splits)
qed (use assms in simp_all)

text \<open>One instruction: it loads its operands in order, computes, and stores.\<close>

definition shape :: "instr \<Rightarrow> (ctype list \<times> ctype) option" where
  "shape i = (case i of MOV t \<Rightarrow> Some ([t], t) | CAST t t' \<Rightarrow> Some ([t], t') | MONADIC op t \<Rightarrow> Some ([t], t)
     | DYADIC op t \<Rightarrow> Some ([t, t], t) | COMPARE op t \<Rightarrow> Some ([t, t], TTag) | _ \<Rightarrow> None)"

definition result :: "host \<Rightarrow> instr \<Rightarrow> u64 list \<Rightarrow> u64 option" where
  "result h i vs = (case i of MOV t \<Rightarrow> Some (vs ! 0) | CAST t t' \<Rightarrow> Some (cast_value h t t' (vs ! 0))
     | MONADIC op t \<Rightarrow> monadic h op t (vs ! 0) | DYADIC op t \<Rightarrow> dyadic h op t (vs ! 0) (vs ! 1)
     | COMPARE op t \<Rightarrow> Some (of_bool_tag (compare h op t (vs ! 0) (vs ! 1))) | _ \<Rightarrow> None)"

primrec loads :: "ctype list \<Rightarrow> host \<Rightarrow> machine \<Rightarrow> addr \<Rightarrow> (u64 list \<times> addr) option" where
  "loads [] h s pc = Some ([], pc)"
| "loads (t # ts) h s pc = do {
     (v, pc) \<leftarrow> loadT t h s pc;
     (vs, pc) \<leftarrow> loads ts h s pc;
     Some (v # vs, pc) }"

lemma exec_shape:
  assumes "shape i = Some (ts, t)"
  shows "exec_opcode h b i s pc = do {
     (vs, pc) \<leftarrow> loads ts h s pc;
     v \<leftarrow> result h i vs;
     (s', pc) \<leftarrow> storeT t v h s pc;
     Some (Next s' pc) }"
  using assms
  by (cases i) (auto simp: shape_def exec_opcode_def execMove_def execCast_def execMonadic_def execDyadic_def execCompare_def
    result_def bind_assoc split_def)

primrec vals :: "(nat \<Rightarrow> nat \<Rightarrow> addr) \<Rightarrow> CodeGen \<Rightarrow> machine \<Rightarrow> ctype list \<Rightarrow> Operand list \<Rightarrow> u64 list option" where
  "vals T st s [] xs = Some []"
| "vals T st s (t # ts) xs = do {
     p \<leftarrow> operand_place T st s (hd xs) t;
     v \<leftarrow> read_place t s p;
     vs \<leftarrow> vals T st s ts (tl xs);
     Some (v # vs) }"

lemma loads_vals:
  assumes "list_all2 reads ts xs" "items_at (mem s) T pc (operands_items st xs)"
  shows "loads ts h s pc = map_option (\<lambda>vs. (vs, pc + item_length (operands_items st xs))) (vals T st s ts xs)"
  using assms
proof (induction ts xs arbitrary: pc rule: list_all2_induct)
  case (Cons t ts x xs)
  let ?pc = "pc + item_length (operand_items st x)"
  have l: "loadT t h s pc = map_option (\<lambda>v. (v, ?pc)) (Option.bind (operand_place T st s x t) (read_place t s))"
    using operand_reads [OF Cons.hyps(1)] Cons.prems by simp
  have "loads ts h s ?pc = map_option (\<lambda>vs. (vs, ?pc + item_length (operands_items st xs))) (vals T st s ts xs)"
    using Cons.IH Cons.prems by simp
  then show ?case
    by (cases "operand_place T st s x t"; cases "read_place t s (the (operand_place T st s x t))"; cases "vals T st s ts xs")
      (simp_all add: l add.assoc)
qed simp

text \<open>What an instruction does to the places of its operands.\<close>

definition effect :: "(nat \<Rightarrow> nat \<Rightarrow> addr) \<Rightarrow> CodeGen \<Rightarrow> host \<Rightarrow> machine \<Rightarrow> instr \<Rightarrow> Operand list \<Rightarrow> Operand \<Rightarrow> machine option" where
  "effect T st h s i srcs dst = do {
     (ts, t) \<leftarrow> shape i;
     vs \<leftarrow> vals T st s ts srcs;
     v \<leftarrow> result h i vs;
     p \<leftarrow> operand_place T st s dst t;
     write_place t v s p }"

lemma code_executes:
  assumes "items_at (mem s) T pc (Raw [b] # operands_items st (srcs @ [dst]))"
    and "map_of opcode_table b = Some i" "shape i = Some (ts, t)" "list_all2 reads ts srcs" "writes t dst"
  shows "exec_instr h s pc = map_option (\<lambda>s'. Next s' (pc + item_length (Raw [b] # operands_items st (srcs @ [dst]))))
    (effect T st h s i srcs dst)"
proof -
  have it: "mem s pc = Some b" "items_at (mem s) T (pc + 1) (operands_items st srcs)"
    "items_at (mem s) T (pc + 1 + item_length (operands_items st srcs)) (operand_items st dst)"
    using assms(1) by (simp_all add: operands_items_def)
  have len: "item_length (Raw [b] # operands_items st (srcs @ [dst]))
      = 1 + item_length (operands_items st srcs) + item_length (operand_items st dst)"
    by (simp add: operands_items_def)
  have "exec_instr h s pc = exec_opcode h b i s (pc + 1)" by (rule exec_fetch [OF it(1) assms(2)])
  then show ?thesis
    unfolding exec_shape [OF assms(3)] loads_vals [OF assms(4) it(2)] len effect_def
    by (cases "vals T st s ts srcs"; cases "result h i (the (vals T st s ts srcs))"; cases "operand_place T st s dst t")
      (simp_all add: assms(3) operand_writes [OF assms(5) it(3), unfolded add.assoc] map_option_case add.assoc split: option.split)
qed

subsection \<open>Instructions that compute\<close>

text \<open>The type of the values of a representation.\<close>

definition repr_ctype :: "Repr \<Rightarrow> ctype option" where
  "repr_ctype r = (case r of
     PtrRepr _ \<Rightarrow> Some TPtr
   | Basic t \<Rightarrow> map_of
       [(REPR_EXPR, TExpr), (REPR_NAME, TName), (REPR_TYPE, TType), (REPR_BYTE, TByte), (REPR_BITS, TBits), (REPR_UTC, TInt),
        (REPR_INT, TInt), (REPR_FLOAT, TFloat), (REPR_DOUBLE, TDouble), (REPR_TAG, TTag), (REPR_CHAR, TChar), (REPR_REF, TRef),
        (REPR_STRING, TPtr), (REPR_CELL_PTR, TPtr), (REPR_ENV_PTR, TPtr), (REPR_DIR, TPtr), (REPR_DIR_ENTRY, TPtr),
        (REPR_SERIAL_CONTEXT, TPtr)] t
   | _ \<Rightarrow> None)"

text \<open>The computation an instruction stands for, with its operands: what is moved is a value of the
  representation of the destination, and an operator computes at its type. Copying a string constant and
  making a cell of an expression are not moves.\<close>

definition move_ctype :: "Operand \<Rightarrow> Operand \<Rightarrow> ctype option" where
  "move_ctype src dst =
     (if operand_repr dst = Basic REPR_STRING \<and> is_const src
         \<or> operand_repr dst = Basic REPR_CELL_PTR \<and> operand_repr src = Basic REPR_EXPR then None
      else repr_ctype (operand_repr dst))"

definition operator_instr :: "op_kind \<Rightarrow> op_type \<Rightarrow> nat \<Rightarrow> instr option" where
  "operator_instr kind ty arity = (case Option.bind (op_ctype ty) (op_instr kind) of
     Some (i, n) \<Rightarrow> if n = arity \<and> (kind, ty, arity) \<in> set (List.map snd prim_table) then Some i else None
   | None \<Rightarrow> None)"

definition computation :: "Instruction \<Rightarrow> (instr \<times> Operand list \<times> Operand) option" where
  "computation ins = (case ins of
     MoveInstruction src dst \<Rightarrow> map_option (\<lambda>t. (MOV t, [src], dst)) (move_ctype src dst)
   | MonadicOpInstruction kind ty src None dst \<Rightarrow> map_option (\<lambda>i. (i, [src], dst)) (operator_instr kind ty 1)
   | DyadicOpInstruction kind ty x None (Some y) None dst \<Rightarrow> map_option (\<lambda>i. (i, [x, y], dst)) (operator_instr kind ty 2)
   | _ \<Rightarrow> None)"

lemma move_opcodes:
  "list_all (\<lambda>(t, b). case repr_ctype (Basic t) of
     None \<Rightarrow> t \<in> {REPR_LABEL, REPR_I_ADDRESS, REPR_LABEL_PAIR, REPR_FILE_HANDLE}
   | Some ct \<Rightarrow> map_of opcode_table b = Some (MOV ct) \<and> b \<noteq> 138) move_table"
  by code_simp

lemma move_opcode_instr:
  assumes "move_ctype src dst = Some t"
  shows "map_of opcode_table (move_opcode (is_const src) (operand_repr src) (operand_repr dst)) = Some (MOV t)"
    "move_opcode (is_const src) (operand_repr src) (operand_repr dst) \<noteq> 138"
proof -
  let ?b = "move_opcode (is_const src) (operand_repr src) (operand_repr dst)"
  have p: "map_of opcode_table 3 = Some (MOV TPtr)" by code_simp
  have "map_of opcode_table ?b = Some (MOV t) \<and> ?b \<noteq> 138"
  proof (cases "operand_repr dst")
    case (Basic r)
    show ?thesis
    proof (cases "r = REPR_STRING \<or> r = REPR_CELL_PTR")
      case True
      then show ?thesis using assms p Basic by (auto simp: move_ctype_def repr_ctype_def move_opcode_def by_repr_def split: if_splits)
    next
      case False
      then obtain b where b: "map_of move_table r = Some b"
        using assms Basic by (auto simp: move_ctype_def repr_ctype_def move_table_def split: if_splits)
      from map_of_SomeD [OF b] move_opcodes
      have "case repr_ctype (Basic r) of None \<Rightarrow> r \<in> {REPR_LABEL, REPR_I_ADDRESS, REPR_LABEL_PAIR, REPR_FILE_HANDLE}
        | Some ct \<Rightarrow> map_of opcode_table b = Some (MOV ct) \<and> b \<noteq> 138" unfolding list_all_iff by fast
      then show ?thesis using assms b Basic False by (auto simp: move_ctype_def move_opcode_def by_repr_def split: if_splits)
    qed
  qed (use assms p in \<open>simp_all add: move_ctype_def repr_ctype_def move_opcode_def by_repr_def\<close>)
  then show "map_of opcode_table ?b = Some (MOV t)" "?b \<noteq> 138" by simp_all
qed

text \<open>The operators whose code is not the instruction they stand for: the conversion from Float has the illegal
  opcode, and a branch on <= between tags has the one of the branch on equality.\<close>

definition miscompiled :: "Instruction \<Rightarrow> bool" where
  "miscompiled ins \<longleftrightarrow> (case ins of MonadicOpInstruction kind _ _ _ _ \<Rightarrow> kind = FROM_FLOAT_OP
     | ConditionalInstruction kind ty _ _ _ _ _ \<Rightarrow> kind = LTEQ_OP \<and> ty = OP_TYPE_TAG
     | _ \<Rightarrow> False)"

lemma operator_opcode:
  assumes "operator_instr kind ty n = Some i" "n = 1 \<Longrightarrow> kind \<noteq> FROM_FLOAT_OP"
  shows "map_of opcode_table (byteCode kind ty c) = Some i" "kind \<noteq> ALLOC_PTR_ARRAY_OP" "kind \<noteq> ERROR_OP" "kind \<noteq> FROM_STRING_OP"
proof -
  from assms(1) have o: "Option.bind (op_ctype ty) (op_instr kind) = Some (i, n)" "(kind, ty, n) \<in> set (List.map snd prim_table)"
    by (auto simp: operator_instr_def split: option.splits if_splits)
  then obtain name where p: "(name, kind, ty, n) \<in> set prim_table" by auto
  have "kind = FROM_FLOAT_OP \<Longrightarrow> n = 1"
    using o(1) by (auto simp: op_instr_def op_rel_def op_dyadic_def bind_eq_Some_conv)
  moreover have "case Option.bind (op_ctype ty) (op_instr kind) of
      None \<Rightarrow> True
    | Some (i, m) \<Rightarrow> n = m \<and> (if kind = FROM_FLOAT_OP then byteCode kind ty False = 255 \<and> byteCode kind ty True = 255
        else map_of opcode_table (byteCode kind ty False) = Some i \<and> map_of opcode_table (byteCode kind ty True) = Some i)"
    using prim_table_instr p unfolding list_all_iff by fast
  ultimately show "map_of opcode_table (byteCode kind ty c) = Some i" using o(1) assms(2) by (cases c) (simp_all split: if_splits)
  show "kind \<noteq> ALLOC_PTR_ARRAY_OP" "kind \<noteq> ERROR_OP" "kind \<noteq> FROM_STRING_OP"
    using o(1) by (auto simp: op_instr_def op_rel_def op_dyadic_def bind_eq_Some_conv)
qed

lemma computation_code:
  assumes "computation ins = Some (i, srcs, dst)" "\<not> miscompiled ins"
  shows "\<exists>b. genInstruction ins g = gen_ins b (srcs @ [dst]) g \<and> map_of opcode_table b = Some i"
proof -
  have two: "gen_ins b [x, y] g = do { g \<leftarrow> gen_ins b [x] g; genOperand y g }" for b x y
    by (simp add: gen_ins_def bind_assoc)
  show ?thesis
  proof (cases ins)
    case (MoveInstruction src d)
    with assms show ?thesis
      using move_opcode_instr [of src d] by (auto simp: computation_def genMove_def Let_def)
  next
    case (MonadicOpInstruction kind ty src env d)
    with assms show ?thesis
      using operator_opcode [of kind ty 1 i]
      by (auto simp: computation_def miscompiled_def genMonadicOp_def opt_def two split: option.splits)
  next
    case (DyadicOpInstruction kind ty x xe y ye d)
    with assms show ?thesis
      using operator_opcode [of kind ty 2 i]
      by (auto simp: computation_def genDyadicOp_def opt_def split: option.splits)
  qed (use assms in \<open>simp_all add: computation_def\<close>)
qed

text \<open>Code that has not been overwritten.\<close>

definition intact :: "memory \<Rightarrow> addr \<Rightarrow> nat \<Rightarrow> machine \<Rightarrow> bool" where
  "intact m a n s \<longleftrightarrow> (\<forall>i < n. mem s (a + of_nat i) = m (a + of_nat i))"

lemma intact_refl [simp]: "mem s = m \<Longrightarrow> intact m a n s"
  by (simp add: intact_def)

lemma intact_span: "intact m a n s \<Longrightarrow> i + k \<le> n \<Longrightarrow> x \<in> span (a + of_nat i) k \<Longrightarrow> mem s x = m x"
  by (auto simp: intact_def span_def add.assoc simp flip: of_nat_add)

lemma extInt4_cong: "(\<And>x. x \<in> span a 4 \<Longrightarrow> m x = m' x) \<Longrightarrow> extInt4 m a = extInt4 m' a"
  unfolding extInt4_def extBits32_load load_n_def using read_n_cong [of a 4 m m'] by simp

lemma items_at_intact:
  assumes "items_at m T (a + of_nat pos) its" "intact m a n s" "pos + length (item_bytes its) \<le> n"
  shows "items_at (mem s) T (a + of_nat pos) its"
  using assms(1,3)
proof (induction its arbitrary: pos)
  case (Cons it its)
  show ?case
  proof (cases it)
    case (Raw bs)
    have "code_at (mem s) (a + of_nat pos) bs"
      by (rule code_at_cong [of m]) (use Cons.prems Raw intact_span [OF assms(2), of pos "length bs"] in simp_all)
    moreover have "items_at (mem s) T (a + of_nat (pos + length bs)) its"
      using Cons.IH [of "pos + length bs"] Cons.prems Raw by (simp add: add.assoc)
    ultimately show ?thesis using Raw by (simp add: add.assoc)
  next
    case (Field i t)
    have "extInt4 (mem s) (a + of_nat pos) = extInt4 m (a + of_nat pos)"
      by (rule extInt4_cong) (use Cons.prems Field intact_span [OF assms(2), of pos 4] in simp)
    moreover have "items_at (mem s) T (a + of_nat (pos + 4)) its"
      using Cons.IH [of "pos + 4"] Cons.prems Field by (simp add: add.assoc)
    ultimately show ?thesis using Cons.prems Field by (simp add: add.assoc)
  qed
qed simp

text \<open>An instruction without labels has no back-patches of its own.\<close>

lemma compile_no_labels:
  assumes "compile_instruction ins g = Some g'" "genInstruction ins g = gen_ins b xs g"
    and "in_code (code (gen g)) sec seg" "list_all plain xs" "insBackPatchList (code (gen g)) = []"
  shows "generates g g' (\<lambda>st. Raw [b] # operands_items st xs)"
proof -
  from assms(1,2) obtain g1 where g1: "gen_ins b xs g = Some g1"
    "asm (\<lambda>c. end_of_instruction (insBackPatchList c) (c\<lparr>insBackPatchList := []\<rparr>)) g1 = Some g'"
    by (auto simp: compile_instruction_def bind_simps)
  note e = gen_ins_generates [OF g1(1) assms(3,4)]
  then have "insBackPatchList (code (gen g1)) = []"
    using assms(5) by (auto simp: generates_def emitted_def grown_def)
  then have "g' = g1" using g1(2) by (auto simp: asm_def on_gen_def emit_def)
  then show ?thesis using e by simp
qed

text \<open>Code that was emitted for some items, linked.\<close>

lemma emitted_linked:
  assumes gen: "emitted its (code (gen g)) (code (gen g'))" "in_code (code (gen g)) sec seg"
    and later: "sec < length (sections c)" "extends (bytes (sections (code (gen g')) ! sec)) (bytes (sections c ! sec))"
      "set (backPatchList (code (gen g'))) \<subseteq> set (backPatchList c)"
      "\<forall>e \<in> set (backPatchList c). posSection e = sec \<longrightarrow>
         e \<in> set (backPatchList (code (gen g'))) \<or> bytePos (sections (code (gen g')) ! sec) \<le> bp_pos e"
    and earlier: "\<forall>e \<in> set (backPatchList (code (gen g))). posSection e = sec \<longrightarrow>
         bp_pos e + 4 \<le> bytePos (sections (code (gen g)) ! sec)"
    and link: "setSectionOrigins c = (c1, sz)" "setSegmentLengths segs c1 = Some c2"
      "apply_patches (backPatchList c2) (c2\<lparr>backPatchList := []\<rparr>) = Some c3"
      "sorted_wrt apart (backPatchList c)" "\<forall>e \<in> set (backPatchList c). patch_ok c e" "segments_ok c"
      "p AND 3 = 0" "sz < 2 ^ 32" "span p sz \<subseteq> dom m"
    and kept: "bytes (sections c2 ! sec) = bytes (sections c ! sec)"
  shows "\<exists>c4 m'. copySections p c3 m = Some (c4, m')
    \<and> items_at m' (target_addr (\<lambda>i. getSection seg i (code (gen g))) c1 p)
        (bytePtr (sections c4 ! sec) + of_nat (bytePos (sections (code (gen g)) ! sec))) its
    \<and> bytePos (sections (code (gen g')) ! sec) = bytePos (sections (code (gen g)) ! sec) + length (item_bytes its)"
proof -
  let ?look = "\<lambda>i. getSection seg i (code (gen g))" and ?pos = "bytePos (sections (code (gen g)) ! sec)"
  have bytes': "bytes (sections (code (gen g')) ! sec) = bytes (sections (code (gen g)) ! sec) @ item_bytes its"
    and patches': "backPatchList (code (gen g')) = item_patches ?look sec ?pos its @ backPatchList (code (gen g))"
    using gen unfolding emitted_def by blast+
  have "set (item_patches ?look sec ?pos its) \<subseteq> set (backPatchList c)" using patches' later(3) by auto
  moreover have "\<forall>e \<in> set (backPatchList c). posSection e = sec \<longrightarrow> e \<in> set (item_patches ?look sec ?pos its)
      \<or> bytePos (sections (code (gen g')) ! sec) \<le> bp_pos e \<or> bp_pos e + 4 \<le> ?pos"
    using later(4) earlier patches' by auto
  ultimately obtain c4 m' where "copySections p c3 m = Some (c4, m')"
    "items_at m' (target_addr ?look c1 p) (bytePtr (sections c4 ! sec) + of_nat ?pos) its"
    using items_linked [OF bytes' _ later(1,2) _ link kept, where look = ?look] by blast
  then show ?thesis using bytes' by (intro exI [of _ c4] exI [of _ m']) simp
qed

lemma instruction_linked:
  assumes gen: "compile_instruction ins g = Some g'" "in_code (code (gen g)) sec seg" "insBackPatchList (code (gen g)) = []"
    and ins: "computation ins = Some (i, srcs, dst)" "\<not> miscompiled ins" "shape i = Some (ts, t)" "list_all2 reads ts srcs" "writes t dst"
    and later: "sec < length (sections c)" "extends (bytes (sections (code (gen g')) ! sec)) (bytes (sections c ! sec))"
      "set (backPatchList (code (gen g'))) \<subseteq> set (backPatchList c)"
      "\<forall>e \<in> set (backPatchList c). posSection e = sec \<longrightarrow>
         e \<in> set (backPatchList (code (gen g'))) \<or> bytePos (sections (code (gen g')) ! sec) \<le> bp_pos e"
    and earlier: "\<forall>e \<in> set (backPatchList (code (gen g))). posSection e = sec \<longrightarrow>
         bp_pos e + 4 \<le> bytePos (sections (code (gen g)) ! sec)"
    and link: "setSectionOrigins c = (c1, sz)" "setSegmentLengths segs c1 = Some c2"
      "apply_patches (backPatchList c2) (c2\<lparr>backPatchList := []\<rparr>) = Some c3"
      "sorted_wrt apart (backPatchList c)" "\<forall>e \<in> set (backPatchList c). patch_ok c e" "segments_ok c"
      "p AND 3 = 0" "sz < 2 ^ 32" "span p sz \<subseteq> dom m"
    and kept: "bytes (sections c2 ! sec) = bytes (sections c ! sec)"
  shows "\<exists>c4 m' b. copySections p c3 m = Some (c4, m') \<and> map_of opcode_table b = Some i
    \<and> items_at m' (target_addr (\<lambda>i. getSection seg i (code (gen g))) c1 p)
        (bytePtr (sections c4 ! sec) + of_nat (bytePos (sections (code (gen g)) ! sec)))
        (Raw [b] # operands_items (gen g') (srcs @ [dst]))
    \<and> bytePos (sections (code (gen g')) ! sec) = bytePos (sections (code (gen g)) ! sec)
        + length (item_bytes (Raw [b] # operands_items (gen g') (srcs @ [dst])))"
proof -
  obtain b where b: "genInstruction ins g = gen_ins b (srcs @ [dst]) g" "map_of opcode_table b = Some i"
    using computation_code [OF ins(1,2)] by blast
  have "list_all plain (srcs @ [dst])"
    using ins(4,5) reads_plain writes_plain by (auto simp: list_all2_conv_all_nth list_all_length nth_append)
  from compile_no_labels [OF gen(1) b(1) gen(2) this gen(3)]
  have "emitted (Raw [b] # operands_items (gen g') (srcs @ [dst])) (code (gen g)) (code (gen g'))"
    by (simp add: generates_def)
  from emitted_linked [OF this gen(2) later earlier link kept] b(2) show ?thesis by blast
qed

lemma linked_executes:
  assumes "items_at m T (a + of_nat pos) (Raw [b] # operands_items st (srcs @ [dst]))" "intact m a n s"
    and "pos' = pos + length (item_bytes (Raw [b] # operands_items st (srcs @ [dst])))" "pos' \<le> n"
    and "map_of opcode_table b = Some i" "shape i = Some (ts, t)" "list_all2 reads ts srcs" "writes t dst"
  shows "exec_instr h s (a + of_nat pos) = map_option (\<lambda>s'. Next s' (a + of_nat pos')) (effect T st h s i srcs dst)"
  using code_executes [OF items_at_intact [OF assms(1,2) assms(4) [unfolded assms(3)]] assms(5-8), where h = h]
  by (simp add: assms(3) ac_simps)

subsection \<open>Compiling a sequence\<close>

lemma compile_instructions_append:
  "compile_instructions (xs @ ys) g = do { g \<leftarrow> compile_instructions xs g; compile_instructions ys g }"
  by (induction xs arbitrary: g) (simp_all add: bind_assoc)

text \<open>The generator after the first instructions.\<close>

definition gen_after :: "Instruction list \<Rightarrow> InsGen \<Rightarrow> nat \<Rightarrow> InsGen" where
  "gen_after inss g k = the (compile_instructions (take k inss) g)"

lemma compile_split:
  assumes "compile_instructions inss g = Some g'"
  shows "compile_instructions (take k inss) g = Some (gen_after inss g k)"
    "compile_instructions (drop k inss) (gen_after inss g k) = Some g'"
    "k < length inss \<Longrightarrow> compile_instruction (inss ! k) (gen_after inss g k) = Some (gen_after inss g (Suc k))"
proof -
  from assms have "compile_instructions (take k inss @ drop k inss) g = Some g'" by simp
  then obtain g1 where g1: "compile_instructions (take k inss) g = Some g1" "compile_instructions (drop k inss) g1 = Some g'"
    unfolding compile_instructions_append by (auto simp: bind_simps)
  then show a: "compile_instructions (take k inss) g = Some (gen_after inss g k)"
    "compile_instructions (drop k inss) (gen_after inss g k) = Some g'"
    by (simp_all add: gen_after_def)
  show "compile_instruction (inss ! k) (gen_after inss g k) = Some (gen_after inss g (Suc k))" if k: "k < length inss"
  proof -
    from assms have "compile_instructions (take (Suc k) inss @ drop (Suc k) inss) g = Some g'" by simp
    then have "compile_instructions (take (Suc k) inss) g = Some (gen_after inss g (Suc k))"
      unfolding compile_instructions_append by (auto simp: bind_simps gen_after_def)
    then show ?thesis unfolding take_Suc_conv_app_nth [OF k] compile_instructions_append a(1) by (simp add: bind_simps)
  qed
qed

subsection \<open>An example\<close>

text \<open>A loop that counts down, a push of a global and the return.\<close>

definition demo_program :: "Instruction list" where
  "demo_program =
    [LabelInstruction 7 None False,
     DyadicOpInstruction SUB_OP OP_TYPE_INT (LocOperand (Register 9) (Basic REPR_INT)) None (Some (ConstOperand (IntConst 1))) None
       (LocOperand (Register 9) (Basic REPR_INT)),
     ConditionalInstruction GT_OP OP_TYPE_INT (LocOperand (Register 9) (Basic REPR_INT)) None (Some (ConstOperand (IntConst 0))) None
       (LabelOperand 7),
     StackAdjustInstruction 4,
     MoveInstruction (LocOperand (StaticLoc 0) (Basic REPR_EXPR)) (LocOperand (StackLoc False 0 4) (Basic REPR_EXPR)),
     ReturnInstruction EXIT_FORM]"

definition demo_gen :: InsGen where
  "demo_gen = \<lparr>gen = global_demo\<lparr>code := (code global_demo)\<lparr>codeSection := None\<rparr>\<rparr>, rackOffsets = (\<lambda>_. 0), pointees = (\<lambda>_. Basic REPR_EXPR),
     useName = (\<lambda>_. 0), branchBackPatchFlag = False, entryPoint = None\<rparr>"

abbreviation demo_code :: "nat \<Rightarrow> InsGen" where
  "demo_code k \<equiv> gen_after demo_program demo_gen k"

definition demo_c :: ByteCode where "demo_c = code (gen (demo_code 6))"
definition demo_c1 :: ByteCode where "demo_c1 = fst (setSectionOrigins demo_c)"
definition demo_c2 :: ByteCode where "demo_c2 = the (setSegmentLengths [] demo_c1)"
definition demo_c3 :: ByteCode where "demo_c3 = the (apply_patches (backPatchList demo_c) (demo_c2\<lparr>backPatchList := []\<rparr>))"


lemma demo_compiled: "compile_instructions demo_program demo_gen = Some (demo_code 6)"
proof -
  have "\<not> Option.is_none (compile_instructions demo_program demo_gen)" by code_simp
  moreover have "take 6 demo_program = demo_program" by (simp add: demo_program_def)
  ultimately show ?thesis using some_the unfolding gen_after_def by metis
qed

lemma demo_instruction: "k < 6 \<Longrightarrow> compile_instruction (demo_program ! k) (demo_code k) = Some (demo_code (Suc k))"
  using compile_split(3) [OF demo_compiled, of k] by (simp add: demo_program_def)

lemma demo_in_code: "in_code (code (gen (demo_code k))) 2 0" if "k \<le> 6"
proof -
  have "list_all (\<lambda>k. case code (gen (demo_code k)) of c \<Rightarrow> currSection c = Some 2 \<and> currSegment c = Some 0 \<and> length (sections c) = 3
     \<and> length (segments c) = 1 \<and> getSection 0 2 c = Some 1 \<and> getSection 0 7 c = None \<and> insBackPatchList c = [] \<and> codeSection c = None
     \<and> list_all (\<lambda>s. seg_sections s = Some 0) (segments c)) [0..<7]"
    by code_simp
  then have "case code (gen (demo_code k)) of c \<Rightarrow> currSection c = Some 2 \<and> currSegment c = Some 0 \<and> length (sections c) = 3
     \<and> length (segments c) = 1 \<and> getSection 0 2 c = Some 1 \<and> getSection 0 7 c = None \<and> insBackPatchList c = [] \<and> codeSection c = None
     \<and> list_all (\<lambda>s. seg_sections s = Some 0) (segments c)"
    using that unfolding list_all_iff by force
  then show ?thesis by (auto simp: in_code_def segments_ok_def list_all_iff)
qed

definition demo_ram :: memory where "demo_ram = flash 0x100 (replicate 64 0)"

lemma demo_link:
  "setSectionOrigins demo_c = (demo_c1, 30)" "setSegmentLengths [] demo_c1 = Some demo_c2"
  "apply_patches (backPatchList demo_c2) (demo_c2\<lparr>backPatchList := []\<rparr>) = Some demo_c3"
  "sorted_wrt apart (backPatchList demo_c)" "\<forall>e \<in> set (backPatchList demo_c). patch_ok demo_c e" "segments_ok demo_c"
  "(0x100 :: addr) AND 3 = 0" "(30::nat) < 2 ^ 32" "span 0x100 30 \<subseteq> dom demo_ram"
  "bytes (sections demo_c2 ! 2) = bytes (sections demo_c ! 2)" "2 < length (sections demo_c)"
proof -
  have "snd (setSectionOrigins demo_c) = 30" by code_simp
  then show o: "setSectionOrigins demo_c = (demo_c1, 30)" unfolding demo_c1_def by (metis prod.collapse)
  show sl: "setSegmentLengths [] demo_c1 = Some demo_c2" unfolding demo_c2_def by (rule some_the) code_simp
  have b: "backPatchList demo_c2 = backPatchList demo_c"
    using setSegmentLengths_layout [OF sl] origins_layout [OF o] by (simp add: same_layout_def)
  show "apply_patches (backPatchList demo_c2) (demo_c2\<lparr>backPatchList := []\<rparr>) = Some demo_c3"
    unfolding b demo_c3_def by (rule some_the) code_simp
  show "sorted_wrt apart (backPatchList demo_c)" by code_simp
  show "\<forall>e \<in> set (backPatchList demo_c). patch_ok demo_c e" by (code_simp, simp add: patch_ok_def)
  show "segments_ok demo_c" by (code_simp, simp)
  have "read_n 30 demo_ram 0x100 = Some (replicate 30 0)" by code_simp
  then show "span 0x100 30 \<subseteq> dom demo_ram" by (rule read_n_span)
  show "bytes (sections demo_c2 ! 2) = bytes (sections demo_c ! 2)" "2 < length (sections demo_c)" by code_simp+
qed simp_all

subsection \<open>The code of an instruction\<close>



text \<open>C36: a byte is moved by the instruction for bytes, but assigned to an element of an array by the one for
  32-bit words, which overwrites the three bytes behind it.\<close>

theorem byte_element_assigned_as_word:
  "genInstruction (MoveInstruction src (LocOperand l (Basic REPR_BYTE))) g = gen_ins 21 [src, LocOperand l (Basic REPR_BYTE)] g
   \<and> genInstruction (PtrArrayAssignInstruction src (LocOperand l (Basic REPR_BYTE))) g = gen_ins 215 [src, LocOperand l (Basic REPR_BYTE)] g
   \<and> map_of opcode_table 21 = Some (MOV TByte) \<and> map_of opcode_table 215 = Some (MOV TBits)
   \<and> store_mem TByte v a s = map_option (\<lambda>m. s\<lparr>mem := m\<rparr>) (write_n [ucast v] a (mem s))
   \<and> store_mem TBits v a s = map_option (\<lambda>m. s\<lparr>mem := m\<rparr>)
       (write_n [ucast v, ucast (drop_bit 8 v), ucast (drop_bit 16 v), ucast (drop_bit 24 v)] a (mem s))"
proof -
  have "move_opcode c r (Basic REPR_BYTE) = 21" "assign_opcode c r (Basic REPR_BYTE) = 215" for c r
    by (simp_all add: move_opcode_def assign_opcode_def by_repr_def move_table_def assign_table_def)
  moreover have "map_of opcode_table 21 = Some (MOV TByte)" "map_of opcode_table 215 = Some (MOV TBits)" by code_simp+
  ultimately show ?thesis
    by (simp add: genMove_def genPtrArrayAssign_def Let_def store_mem_def store_n_def le_bytes_cases le_bytes_cases(1) [simplified])
qed

end
