(* ===== verification/Branches.thy ===== *)
theory Branches
  imports Compiled
begin

text \<open>
  Jumps and branches: the byte code of an instruction that ends in a label. The field of the label gets its
  origin at the end of the instruction and is filled in by the linker, so that the interpreter goes on where
  the label has been bound, in whichever section and segment of the code.
\<close>

subsection \<open>What a jump tests\<close>

definition jump_shape :: "instr \<Rightarrow> ctype list option" where
  "jump_shape i = (case i of BRA \<Rightarrow> Some [] | TEST_NULL op \<Rightarrow> Some [TPtr] | COND_BRANCH op t \<Rightarrow> Some [t, t] | _ \<Rightarrow> None)"

definition taken :: "host \<Rightarrow> instr \<Rightarrow> u64 list \<Rightarrow> bool" where
  "taken h i vs \<longleftrightarrow> (case i of TEST_NULL op \<Rightarrow> compare h op TPtr (vs ! 0) 0
     | COND_BRANCH op t \<Rightarrow> compare h op t (vs ! 0) (vs ! 1) | _ \<Rightarrow> True)"

lemma exec_jump_shape:
  assumes "jump_shape i = Some ts"
  shows "exec_opcode h b i s pc = do {
     (vs, pc) \<leftarrow> loads ts h s pc;
     (offset, pc) \<leftarrow> extInt4 (mem s) pc;
     Some (Next s (if taken h i vs then pc + offset else pc)) }"
  using assms
  by (cases i) (auto simp: jump_shape_def exec_opcode_def execBRA_def execTestBranch_def execCondBranch_def taken_def
    bind_assoc split_def)

text \<open>The jump an instruction stands for, with the operands it compares and its label.\<close>

definition relation_instr :: "op_kind \<Rightarrow> op_type \<Rightarrow> instr option" where
  "relation_instr kind ty = (case (op_rel kind, op_ctype ty) of
     (Some r, Some t) \<Rightarrow>
       if t \<in> {TInt, TFloat, TDouble, TTag, TChar} then Some (COND_BRANCH r t) else None
   | _ \<Rightarrow> None)"

definition jump_of :: "Instruction \<Rightarrow> (instr \<times> Operand list \<times> nat) option" where
  "jump_of ins = (case ins of
     GoToInstruction (LabelOperand lab) altEntry \<Rightarrow> Some (BRA, [], lab)
   | ConditionalInstruction kind ty x None None None (LabelOperand lab) \<Rightarrow>
       if kind = EQ_NULL_OP then Some (TEST_NULL REq, [x], lab)
       else if kind = NEQ_NULL_OP then Some (TEST_NULL RNe, [x], lab) else None
   | ConditionalInstruction kind ty x None (Some y) None (LabelOperand lab) \<Rightarrow>
       map_option (\<lambda>i. (i, [x, y], lab)) (relation_instr kind ty)
   | _ \<Rightarrow> None)"

lemma null_opcodes:
  "map_of opcode_table 147 = Some BRA"
  "map_of opcode_table (branchByteCode EQ_NULL_OP ty) = Some (TEST_NULL REq)"
  "map_of opcode_table (branchByteCode NEQ_NULL_OP ty) = Some (TEST_NULL RNe)"
  "map_of opcode_table (branchByteCode SPECIAL_EXPR_OP OP_TYPE_EXPR) = Some BSE"
proof -
  have b: "branchByteCode EQ_NULL_OP ty = 181" "branchByteCode NEQ_NULL_OP ty = 182"
    by (simp_all add: branchByteCode_def at_label_def branchByteCode_cases_def)
  show "map_of opcode_table 147 = Some BRA" "map_of opcode_table (branchByteCode EQ_NULL_OP ty) = Some (TEST_NULL REq)"
    "map_of opcode_table (branchByteCode NEQ_NULL_OP ty) = Some (TEST_NULL RNe)"
    "map_of opcode_table (branchByteCode SPECIAL_EXPR_OP OP_TYPE_EXPR) = Some BSE"
    unfolding b by code_simp+
qed

lemma relation_opcode:
  "relation_instr kind ty = Some i \<Longrightarrow> (kind, ty) \<noteq> (LTEQ_OP, OP_TYPE_TAG) \<Longrightarrow> map_of opcode_table (branchByteCode kind ty) = Some i"
  using branch_opcode [of kind _ ty] by (auto simp: relation_instr_def split: option.splits if_splits)

text \<open>Its code: the opcode and the operands, then the field of the label.\<close>

lemma jump_code:
  assumes "jump_of ins = Some (i, srcs, lab)" "\<not> miscompiled ins" "genInstruction ins g = Some g'"
  shows "\<exists>b flag g1 g2. gen_ins b srcs g = Some g1 \<and> asm (label_field lab flag True) g1 = Some g2 \<and> gen g' = gen g2
    \<and> map_of opcode_table b = Some i"
proof (cases ins)
  case (GoToInstruction target altEntry)
  with assms(1) obtain l where "target = LabelOperand l" "i = BRA" "srcs = []" "lab = l"
    by (auto simp: jump_of_def split: Operand.splits)
  with assms(3) GoToInstruction obtain g1 g2 where "genOpCode 147 g = Some g1"
    "asm (label_field lab True True) (g1\<lparr>branchBackPatchFlag := True\<rparr>) = Some g2" "gen g' = gen g2"
    by (auto simp: bind_simps)
  then show ?thesis
    using null_opcodes(1) \<open>srcs = []\<close> \<open>i = BRA\<close>
    by (intro exI [of _ 147] exI [of _ True] exI [of _ g1] exI [of _ "g1\<lparr>gen := gen g2\<rparr>"])
      (auto simp: gen_ins_def asm_def on_gen_def)
next
  case (ConditionalInstruction kind ty x xe y ye z)
  with assms(1,2) have e: "xe = None" "ye = None" "z = LabelOperand lab" "srcs = x # opt y" "kind \<noteq> SPECIAL_EXPR_OP"
      "map_of opcode_table (branchByteCode kind ty) = Some i"
    using null_opcodes relation_opcode [of kind ty i]
    by (auto simp: jump_of_def miscompiled_def opt_def relation_instr_def op_rel_def split: option.splits Operand.splits if_splits)
  have two: "gen_operands (xs @ [l]) g = do { g \<leftarrow> gen_operands xs g; genOperand l g }" for xs l g
    by (induction xs arbitrary: g) (simp_all add: bind_assoc)
  have "gen_ins b (xs @ [l]) g = do { g \<leftarrow> gen_ins b xs g; genOperand l g }" for b xs l
    by (simp add: gen_ins_def bind_assoc two)
  from this [of "branchByteCode kind ty" "x # opt y"] assms(3) ConditionalInstruction e show ?thesis
    by (auto simp: genConditional_def opt_def bind_simps)
qed (use assms in \<open>simp_all add: jump_of_def\<close>)

subsection \<open>The field of the label\<close>

definition label_patch :: "nat \<Rightarrow> nat \<Rightarrow> nat \<Rightarrow> bool \<Rightarrow> BackPatchElement" where
  "label_patch sec pos lab flag = \<lparr>bp_pos = pos, posSection = sec, bp_origin = pos + 4, originSection = Some sec,
     bp_target = Label lab flag\<rparr>"

lemma label_compiled:
  assumes "label_field lab flag True c = Some c2" "end_of_instruction (insBackPatchList c2) (c2\<lparr>insBackPatchList := []\<rparr>) = Some c'"
    and "in_code c sec seg" "insBackPatchList c = []" "codeSection c = None"
  shows "grown c c'" "bytes (sections c' ! sec) = bytes (sections c ! sec) @ [0, 0, 0, 0]"
    "backPatchList c' = label_patch sec (bytePos (sections c ! sec)) lab flag # backPatchList c"
proof -
  let ?c1 = "on_section sec (\<lambda>s. s\<lparr>bytes := bytes s @ [0, 0, 0, 0]\<rparr>) c"
  have i: "currSection c = Some sec" "sec < length (sections c)" using assms(3) by (simp_all add: in_code_def)
  have "putBits32 0 c = putBytes [0, 0, 0, 0] c" by (simp add: put_words le_bytes_cases)
  also have "... = Some ?c1" by (simp add: putBytes_on_section i del: putBytes.simps)
  finally have p: "putBits32 0 c = Some ?c1" .
  have k: "currSection ?c1 = Some sec" "codeSection ?c1 = None" "insBackPatchList ?c1 = []" "backPatchList ?c1 = backPatchList c"
    "bytes (sections ?c1 ! sec) = bytes (sections c ! sec) @ [0, 0, 0, 0]"
    using i assms(4,5) by (simp_all add: on_section_def)
  have c2: "c2 = add_ins_patch \<lparr>bp_pos = bytePos (sections c ! sec), posSection = sec, bp_origin = 0, originSection = Some sec,
      bp_target = Label lab flag\<rparr> ?c1"
    using assms(1) p i k by (simp add: label_field_def code_bytePos_def addLabelBackPatch_def)
  have c': "c' = ?c1\<lparr>backPatchList := label_patch sec (bytePos (sections c ! sec)) lab flag # backPatchList c, insBackPatchList := []\<rparr>"
    using assms(2) k unfolding c2 by (auto simp: add_ins_patch_def add_patch_def label_patch_def eval_nat_numeral)
  have g: "grown c ?c1" by (rule grown_on_section) simp
  show "grown c c'" using g assms(4) by (simp add: grown_def c')
  show "bytes (sections c' ! sec) = bytes (sections c ! sec) @ [0, 0, 0, 0]" using k(5) by (simp add: c')
  show "backPatchList c' = label_patch sec (bytePos (sections c ! sec)) lab flag # backPatchList c" by (simp add: c')
qed

text \<open>Where a label has been placed.\<close>

definition label_addr :: "ByteCode \<Rightarrow> addr \<Rightarrow> nat \<Rightarrow> addr" where
  "label_addr c p lab = (case labels c lab of None \<Rightarrow> p | Some (pos, sec) \<Rightarrow> p + of_nat (origin (sections c ! sec)) + of_nat pos)"

lemma jump_executes:
  assumes "items_at (mem s) T pc (Raw [b] # operands_items st srcs)"
    and "extInt4 (mem s) (pc + item_length (Raw [b] # operands_items st srcs)) = Some (v, pc')"
    and "map_of opcode_table b = Some i" "jump_shape i = Some ts" "list_all2 reads ts srcs"
  shows "exec_instr h s pc = map_option (\<lambda>vs. Next s (if taken h i vs then pc' + v else pc')) (vals T st s ts srcs)"
proof -
  have it: "mem s pc = Some b" "items_at (mem s) T (pc + 1) (operands_items st srcs)" using assms(1) by simp_all
  have x: "extInt4 (mem s) (pc + 1 + item_length (operands_items st srcs)) = Some (v, pc')"
    using assms(2) by (simp add: add.assoc)
  have "exec_instr h s pc = exec_opcode h b i s (pc + 1)" by (rule exec_fetch [OF it(1) assms(3)])
  then show ?thesis
    unfolding exec_jump_shape [OF assms(4)] loads_vals [OF assms(5) it(2)]
    by (cases "vals T st s ts srcs") (simp_all add: x [unfolded add.assoc] add.assoc)
qed

lemma compile_jump:
  assumes "compile_instruction ins g = Some g'" "jump_of ins = Some (i, srcs, lab)" "\<not> miscompiled ins"
    and "in_code (code (gen g)) sec seg" "list_all plain srcs" "insBackPatchList (code (gen g)) = []" "codeSection (code (gen g)) = None"
  shows "\<exists>b flag. map_of opcode_table b = Some i \<and> grown (code (gen g)) (code (gen g'))
    \<and> bytes (sections (code (gen g')) ! sec)
        = bytes (sections (code (gen g)) ! sec) @ item_bytes (Raw [b] # operands_items (gen g') srcs) @ [0, 0, 0, 0]
    \<and> backPatchList (code (gen g'))
        = label_patch sec (bytePos (sections (code (gen g)) ! sec) + length (item_bytes (Raw [b] # operands_items (gen g') srcs))) lab flag
          # item_patches (\<lambda>j. getSection seg j (code (gen g))) sec (bytePos (sections (code (gen g)) ! sec))
              (Raw [b] # operands_items (gen g') srcs)
          @ backPatchList (code (gen g))"
proof -
  from assms(1) obtain g0 where g0: "genInstruction ins g = Some g0"
    "asm (\<lambda>c. end_of_instruction (insBackPatchList c) (c\<lparr>insBackPatchList := []\<rparr>)) g0 = Some g'"
    by (auto simp: compile_instruction_def bind_simps)
  from jump_code [OF assms(2,3) g0(1)] obtain b flag g1 g2 where b: "gen_ins b srcs g = Some g1"
    "asm (label_field lab flag True) g1 = Some g2" "gen g0 = gen g2" "map_of opcode_table b = Some i" by blast
  have e: "generates g g1 (\<lambda>st. Raw [b] # operands_items st srcs)" by (rule gen_ins_generates [OF b(1) assms(4,5)])
  then have e1: "emitted (Raw [b] # operands_items (gen g1) srcs) (code (gen g)) (code (gen g1))"
    and i1: "in_code (code (gen g1)) sec seg"
    using generates_in_code [OF e assms(4)] by (simp_all add: generates_def)
  have k: "insBackPatchList (code (gen g1)) = []" "codeSection (code (gen g1)) = None"
    using emitted_grown [OF e1] assms(6,7) by (simp_all add: grown_def)
  from b(2) have l: "label_field lab flag True (code (gen g1)) = Some (code (gen g2))" "gen g2 = (gen g1)\<lparr>code := code (gen g2)\<rparr>"
    by (auto simp: asm_def on_gen_def emit_def)
  from g0(2) b(3) have f: "end_of_instruction (insBackPatchList (code (gen g2))) (code (gen g2)\<lparr>insBackPatchList := []\<rparr>)
      = Some (code (gen g'))" "gen g' = (gen g2)\<lparr>code := code (gen g')\<rparr>"
    by (auto simp: asm_def on_gen_def emit_def)
  note lc = label_compiled [OF l(1) f(1) i1 k]
  have s: "stable (gen g1) (gen g')"
  proof -
    have "gen g' = (gen g1)\<lparr>code := code (gen g')\<rparr>" using l(2) f(2) by (metis CodeGen.update_convs(1) CodeGen.surjective)
    then have "stackPtr (gen g') = stackPtr (gen g1)" "slots (gen g') = slots (gen g1)" by (metis CodeGen.select_convs CodeGen.surjective CodeGen.update_convs(1))+
    then show ?thesis using lc(1) by (simp add: stable_def)
  qed
  have "settled (\<lambda>st. Raw [b] # operands_items st srcs) (gen g1)" using e by (simp add: generates_def)
  from settled_later [OF this s] have its: "operands_items (gen g1) srcs = operands_items (gen g') srcs" by simp
  from e1 assms(4) have e2: "bytes (sections (code (gen g1)) ! sec)
        = bytes (sections (code (gen g)) ! sec) @ item_bytes (Raw [b] # operands_items (gen g1) srcs)"
    "backPatchList (code (gen g1)) = item_patches (\<lambda>j. getSection seg j (code (gen g))) sec
        (bytePos (sections (code (gen g)) ! sec)) (Raw [b] # operands_items (gen g1) srcs) @ backPatchList (code (gen g))"
    unfolding emitted_def by blast+
  show ?thesis
    using b(4) lc(2,3) e2 grown_trans [OF emitted_grown [OF e1] lc(1)] unfolding its
    by (intro exI [of _ b] exI [of _ flag]) simp
qed

text \<open>Its code, linked: the field of the label holds the distance to where the label has been placed.\<close>

lemma jump_linked:
  assumes gen: "compile_instruction ins g = Some g'" "in_code (code (gen g)) sec seg" "insBackPatchList (code (gen g)) = []"
      "codeSection (code (gen g)) = None"
    and ins: "jump_of ins = Some (i, srcs, lab)" "\<not> miscompiled ins" "jump_shape i = Some ts" "list_all2 reads ts srcs"
    and later: "sec < length (sections c)" "extends (bytes (sections (code (gen g')) ! sec)) (bytes (sections c ! sec))"
      "set (backPatchList (code (gen g'))) \<subseteq> set (backPatchList c)"
      "\<forall>e \<in> set (backPatchList c). posSection e = sec \<longrightarrow>
         e \<in> set (backPatchList (code (gen g'))) \<or> bytePos (sections (code (gen g')) ! sec) \<le> bp_pos e"
    and earlier: "\<forall>e \<in> set (backPatchList (code (gen g))). posSection e = sec \<longrightarrow>
         bp_pos e + 4 \<le> bytePos (sections (code (gen g)) ! sec)"
    and link: "setSectionOrigins c = (c1, sz)" "setSegmentLengths segs c1 = Some c2"
      "apply_patches (backPatchList c2) (c2\<lparr>backPatchList := []\<rparr>) = Some c3"
      "sorted_wrt apart (backPatchList c)" "\<forall>e \<in> set (backPatchList c). patch_ok c e" "segments_ok c"
      "p AND 3 = 0" "sz < 2 ^ 32" "span p sz \<subseteq> dom m"
    and kept: "bytes (sections c2 ! sec) = bytes (sections c ! sec)"
  shows "\<exists>c4 m' b v. copySections p c3 m = Some (c4, m') \<and> map_of opcode_table b = Some i
    \<and> items_at m' (target_addr (\<lambda>i. getSection seg i (code (gen g))) c1 p)
        (bytePtr (sections c4 ! sec) + of_nat (bytePos (sections (code (gen g)) ! sec)))
        (Raw [b] # operands_items (gen g') srcs)
    \<and> extInt4 m' (bytePtr (sections c4 ! sec) + of_nat (bytePos (sections (code (gen g)) ! sec))
          + item_length (Raw [b] # operands_items (gen g') srcs))
        = Some (v, bytePtr (sections c4 ! sec) + of_nat (bytePos (sections (code (gen g)) ! sec))
          + item_length (Raw [b] # operands_items (gen g') srcs) + 4)
    \<and> bytePtr (sections c4 ! sec) + of_nat (bytePos (sections (code (gen g)) ! sec))
          + item_length (Raw [b] # operands_items (gen g') srcs) + 4 + v = label_addr c1 p lab
    \<and> bytePos (sections (code (gen g')) ! sec) = bytePos (sections (code (gen g)) ! sec)
        + length (item_bytes (Raw [b] # operands_items (gen g') srcs)) + 4"
proof -
  let ?look = "\<lambda>i. getSection seg i (code (gen g))" and ?pos = "bytePos (sections (code (gen g)) ! sec)"
  have pl: "list_all plain srcs" using ins(4) reads_plain by (auto simp: list_all2_conv_all_nth list_all_length)
  obtain b flag where b: "map_of opcode_table b = Some i"
    and bytes': "bytes (sections (code (gen g')) ! sec)
        = bytes (sections (code (gen g)) ! sec) @ item_bytes (Raw [b] # operands_items (gen g') srcs) @ [0, 0, 0, 0]"
    and patches': "backPatchList (code (gen g'))
        = label_patch sec (?pos + length (item_bytes (Raw [b] # operands_items (gen g') srcs))) lab flag
          # item_patches ?look sec ?pos (Raw [b] # operands_items (gen g') srcs) @ backPatchList (code (gen g))"
    using compile_jump [OF gen(1) ins(1,2) gen(2) pl gen(3,4)] by blast
  define its where "its = Raw [b] # operands_items (gen g') srcs"
  note bytes'' = bytes' [folded its_def] and patches'' = patches' [folded its_def]
  define e where "e = label_patch sec (?pos + length (item_bytes its)) lab flag"
  have ep: "posSection e = sec" "bp_pos e = ?pos + length (item_bytes its)" "bp_origin e = ?pos + length (item_bytes its) + 4"
    "originSection e = Some sec" "bp_target e = Label lab flag" by (simp_all add: e_def label_patch_def)
  have ec: "e \<in> set (backPatchList c)" using patches'' later(3) by (simp add: e_def)
  define cx where "cx = (code (gen g))\<lparr>sections := (sections (code (gen g)))[sec := (sections (code (gen g)) ! sec)
      \<lparr>bytes := bytes (sections (code (gen g)) ! sec) @ item_bytes its\<rparr>]\<rparr>"
  have bx: "bytes (sections cx ! sec) = bytes (sections (code (gen g)) ! sec) @ item_bytes its"
    using gen(2) by (simp add: cx_def in_code_def)
  have ex: "extends (bytes (sections cx ! sec)) (bytes (sections c ! sec))"
    using later(2) bx bytes'' by (auto simp: extends_def)
  have "set (item_patches ?look sec ?pos its) \<subseteq> set (backPatchList c)" using patches'' later(3) by auto
  moreover have "\<forall>e \<in> set (backPatchList c). posSection e = sec \<longrightarrow> e \<in> set (item_patches ?look sec ?pos its)
      \<or> bytePos (sections cx ! sec) \<le> bp_pos e \<or> bp_pos e + 4 \<le> ?pos"
    using later(4) earlier patches'' bytes'' bx ep(2) by (fastforce simp: e_def)
  ultimately obtain c4 m' where cp: "copySections p c3 m = Some (c4, m')"
    and bp: "bytePtr (sections c4 ! sec) = p + of_nat (origin (sections c1 ! sec))"
    and it: "items_at m' (target_addr ?look c1 p) (bytePtr (sections c4 ! sec) + of_nat ?pos) its"
    using items_linked [OF bx _ later(1) ex _ link kept, where look = ?look] by blast
  let ?pc = "bytePtr (sections c4 ! sec) + of_nat ?pos"
  from link_resolves [OF link] cp ec obtain v t where v: "extInt4 m' (bytePtr (sections c4 ! sec) + of_nat (bp_pos e))
      = Some (v, bytePtr (sections c4 ! sec) + of_nat (bp_pos e) + 4)"
    "target_pos c1 e = Some t" "(p + of_nat (origin_pos c1 e)) + v = p + of_nat t"
    using ep(1) by fastforce
  have end': "bytePtr (sections c4 ! sec) + of_nat (bp_pos e) = ?pc + item_length its"
    "?pc + item_length its + 4 = bytePtr (sections c4 ! sec) + of_nat (bytePos (sections (code (gen g')) ! sec))"
    using bytes'' by (simp_all add: ep(2) ac_simps)
  have tgt: "?pc + item_length its + 4 + v = label_addr c1 p lab"
  proof -
    have "?pc + item_length its + 4 = p + of_nat (origin_pos c1 e)"
      by (simp add: origin_pos_def ep bp ac_simps)
    moreover have "p + of_nat t = label_addr c1 p lab"
      using v(2) by (auto simp: target_pos_def ep label_addr_def bind_simps ac_simps)
    ultimately show ?thesis using v(3) by simp
  qed
  have "bytePos (sections (code (gen g')) ! sec) = ?pos + length (item_bytes its) + 4" using bytes'' by simp
  then show ?thesis
    using cp b it v(1) tgt unfolding its_def end'(1) [unfolded its_def] its_def
    by (intro exI [of _ c4] exI [of _ m'] exI [of _ b] exI [of _ v]) simp
qed

lemma linked_jumps:
  assumes "items_at m T (a + of_nat pos) (Raw [b] # operands_items st srcs)" "intact m a n s"
    and "extInt4 m (a + of_nat pos + item_length (Raw [b] # operands_items st srcs))
      = Some (v, a + of_nat pos + item_length (Raw [b] # operands_items st srcs) + 4)"
    and "a + of_nat pos + item_length (Raw [b] # operands_items st srcs) + 4 + v = l"
    and "pos' = pos + length (item_bytes (Raw [b] # operands_items st srcs)) + 4" "pos' \<le> n"
    and "map_of opcode_table b = Some i" "jump_shape i = Some ts" "list_all2 reads ts srcs"
  shows "exec_instr h s (a + of_nat pos)
    = map_option (\<lambda>vs. Next s (if taken h i vs then l else a + of_nat pos')) (vals T st s ts srcs)"
proof -
  define its where "its = Raw [b] # operands_items st srcs"
  note d = its_def [symmetric]
  have le: "pos + length (item_bytes its) + 4 \<le> n" using assms(5,6) by (simp add: d)
  have e: "a + of_nat pos + item_length its = a + of_nat (pos + length (item_bytes its))" by (simp add: add.assoc)
  have it: "items_at (mem s) T (a + of_nat pos) its"
    by (rule items_at_intact [OF assms(1) [unfolded d] assms(2)]) (use le in simp)
  have "extInt4 (mem s) (a + of_nat pos + item_length its) = extInt4 m (a + of_nat pos + item_length its)"
    unfolding e by (rule extInt4_cong, rule intact_span [OF assms(2) le])
  then have "extInt4 (mem s) (a + of_nat pos + item_length its) = Some (v, a + of_nat pos + item_length its + 4)"
    using assms(3) unfolding d by simp
  note j = jump_executes [OF it [unfolded its_def] this [unfolded its_def] assms(7-9), where h = h]
  have p': "a + of_nat pos + item_length its + 4 = a + of_nat pos'" by (simp add: assms(5) d ac_simps)
  show ?thesis using j unfolding d p' assms(4) [unfolded d p'] .
qed

text \<open>C4: the byte code of a jump to a label, or of a branch on a null pointer or on a relation between integers,
  floats, doubles, tags or characters (but for <= between tags), linked and copied to memory with all the code
  generated before and after it, makes the interpreter go on where the label has been bound when the relation
  holds between what the operands' places hold, and behind the code otherwise. The operands are those of the
  instructions that compute.\<close>

theorem compiled_branch_executes:
  assumes gen: "compile_instruction ins g = Some g'" "in_code (code (gen g)) sec seg" "insBackPatchList (code (gen g)) = []"
      "codeSection (code (gen g)) = None"
    and ins: "jump_of ins = Some (i, srcs, lab)" "\<not> miscompiled ins" "jump_shape i = Some ts" "list_all2 reads ts srcs"
    and later: "sec < length (sections c)" "extends (bytes (sections (code (gen g')) ! sec)) (bytes (sections c ! sec))"
      "set (backPatchList (code (gen g'))) \<subseteq> set (backPatchList c)"
      "\<forall>e \<in> set (backPatchList c). posSection e = sec \<longrightarrow>
         e \<in> set (backPatchList (code (gen g'))) \<or> bytePos (sections (code (gen g')) ! sec) \<le> bp_pos e"
    and earlier: "\<forall>e \<in> set (backPatchList (code (gen g))). posSection e = sec \<longrightarrow>
         bp_pos e + 4 \<le> bytePos (sections (code (gen g)) ! sec)"
    and link: "setSectionOrigins c = (c1, sz)" "setSegmentLengths segs c1 = Some c2"
      "apply_patches (backPatchList c2) (c2\<lparr>backPatchList := []\<rparr>) = Some c3"
      "sorted_wrt apart (backPatchList c)" "\<forall>e \<in> set (backPatchList c). patch_ok c e" "segments_ok c"
      "p AND 3 = 0" "sz < 2 ^ 32" "span p sz \<subseteq> dom m"
    and kept: "bytes (sections c2 ! sec) = bytes (sections c ! sec)"
  shows "\<exists>c4 m'. copySections p c3 m = Some (c4, m')
    \<and> (\<forall>h s. intact m' (bytePtr (sections c4 ! sec)) (bytePos (sections c ! sec)) s \<longrightarrow>
      exec_instr h s (bytePtr (sections c4 ! sec) + of_nat (bytePos (sections (code (gen g)) ! sec)))
        = map_option (\<lambda>vs. Next s (if taken h i vs then label_addr c1 p lab
              else bytePtr (sections c4 ! sec) + of_nat (bytePos (sections (code (gen g')) ! sec))))
            (vals (target_addr (\<lambda>i. getSection seg i (code (gen g))) c1 p) (gen g') s ts srcs))"
proof -
  let ?T = "target_addr (\<lambda>i. getSection seg i (code (gen g))) c1 p" and ?pos = "bytePos (sections (code (gen g)) ! sec)"
  have "bytePos (sections (code (gen g')) ! sec) \<le> bytePos (sections c ! sec)" using later(2) by (auto simp: extends_def)
  moreover note jump_linked [OF assms]
  ultimately show ?thesis using linked_jumps [OF _ _ _ _ _ _ _ ins(3,4)] by blast
qed

lemma compiled_branch_executes_witness:
  "\<exists>c4 m'. copySections 0x100 demo_c3 demo_ram = Some (c4, m') \<and> (\<forall>h s. intact m' (bytePtr (sections c4 ! 2)) 22 s \<longrightarrow>
     exec_instr h s (bytePtr (sections c4 ! 2) + 5) = map_option (\<lambda>vs. Next s
         (if taken h (COND_BRANCH RGt TInt) vs then 0x109 else bytePtr (sections c4 ! 2) + 12))
       (vals (target_addr (\<lambda>i. getSection 0 i (code (gen (demo_code 2)))) demo_c1 0x100) (gen (demo_code 3)) s [TInt, TInt]
          [LocOperand (Register 9) (Basic REPR_INT), ConstOperand (IntConst 0)]))"
proof -
  have i: "compile_instruction (demo_program ! 2) (demo_code 2) = Some (demo_code 3)" using demo_instruction [of 2] by simp
  have p: "bytePos (sections (code (gen (demo_code 2))) ! 2) = 5" "bytePos (sections (code (gen (demo_code 3))) ! 2) = 12"
    "bytePos (sections demo_c ! 2) = 22" "label_addr demo_c1 0x100 7 = 0x109" by code_simp+
  have "relation_instr GT_OP OP_TYPE_INT = Some (COND_BRANCH RGt TInt)" by (simp add: relation_instr_def op_rel_def op_ctype_def)
  then have c: "jump_of (demo_program ! 2) = Some (COND_BRANCH RGt TInt,
      [LocOperand (Register 9) (Basic REPR_INT), ConstOperand (IntConst 0)], 7)"
    by (simp add: demo_program_def jump_of_def)
  have u: "\<not> miscompiled (demo_program ! 2)" by (simp add: demo_program_def miscompiled_def)
  have s: "jump_shape (COND_BRANCH RGt TInt) = Some [TInt, TInt]" by (simp add: jump_shape_def)
  have r: "list_all2 reads [TInt, TInt] [LocOperand (Register 9) (Basic REPR_INT), ConstOperand (IntConst 0)]"
    by (simp add: loadable_def)
  have ib: "insBackPatchList (code (gen (demo_code 2))) = []" "codeSection (code (gen (demo_code 2))) = None" by code_simp+
  have "extends (bytes (sections (code (gen (demo_code 3))) ! 2)) (bytes (sections demo_c ! 2))"
    unfolding extends_def by (rule exI [of _ "drop 12 (bytes (sections demo_c ! 2))"]) code_simp
  moreover have "set (backPatchList (code (gen (demo_code 3)))) \<subseteq> set (backPatchList demo_c)"
    "\<forall>e \<in> set (backPatchList demo_c). posSection e = 2 \<longrightarrow>
       e \<in> set (backPatchList (code (gen (demo_code 3)))) \<or> bytePos (sections (code (gen (demo_code 3))) ! 2) \<le> bp_pos e"
    "\<forall>e \<in> set (backPatchList (code (gen (demo_code 2)))). posSection e = 2 \<longrightarrow>
       bp_pos e + 4 \<le> bytePos (sections (code (gen (demo_code 2))) ! 2)" by code_simp+
  ultimately show ?thesis
    using compiled_branch_executes [OF i demo_in_code [of 2] ib c u s r demo_link(11) _ _ _ _ demo_link(1-10)] unfolding p by auto
qed

end
