(* ===== verification/Programs.thy ===== *)
theory Programs
  imports Branches
begin

text \<open>
  Sequences of instructions: their meaning as steps of a machine that counts instructions, with labels as
  numbers of instructions, and the simulation of these steps by the interpreter on the byte code.
\<close>

subsection \<open>Instructions and their labels\<close>

definition label_of :: "Instruction \<Rightarrow> nat option" where
  "label_of ins = (case ins of LabelInstruction lab _ _ \<Rightarrow> Some lab | _ \<Rightarrow> None)"

definition supported :: "Instruction \<Rightarrow> bool" where
  "supported ins \<longleftrightarrow> \<not> miscompiled ins \<and> (case computation ins of
     Some (i, srcs, dst) \<Rightarrow> (case shape i of Some (ts, t) \<Rightarrow> list_all2 reads ts srcs \<and> writes t dst | None \<Rightarrow> False)
   | None \<Rightarrow> (case jump_of ins of
       Some (i, srcs, lab) \<Rightarrow> (case jump_shape i of Some ts \<Rightarrow> list_all2 reads ts srcs | None \<Rightarrow> False)
     | None \<Rightarrow> (case ins of LabelInstruction _ _ _ \<Rightarrow> True | StackAdjustInstruction _ \<Rightarrow> True | ReturnInstruction _ \<Rightarrow> True
         | _ \<Rightarrow> False)))"

lemma supported_cases:
  assumes "supported ins"
  obtains i srcs dst ts t where "computation ins = Some (i, srcs, dst)" "\<not> miscompiled ins" "shape i = Some (ts, t)" "list_all2 reads ts srcs" "writes t dst"
  | i srcs lab ts where "jump_of ins = Some (i, srcs, lab)" "\<not> miscompiled ins" "jump_shape i = Some ts" "list_all2 reads ts srcs"
  | lab blkSp e where "ins = LabelInstruction lab blkSp e"
  | d where "ins = StackAdjustInstruction d"
  | form where "ins = ReturnInstruction form"
  using assms by (auto simp: supported_def split: option.splits Instruction.splits)

lemma supported_parts:
  "supported ins \<Longrightarrow> computation ins = Some (i, srcs, dst) \<Longrightarrow>
     \<exists>ts t. shape i = Some (ts, t) \<and> list_all2 reads ts srcs \<and> writes t dst"
  "supported ins \<Longrightarrow> jump_of ins = Some (i', srcs', lab) \<Longrightarrow> jump_shape i' = Some ts' \<Longrightarrow> list_all2 reads ts' srcs'"
  by (auto simp: supported_def computation_def jump_of_def split: option.splits Instruction.splits)

lemma no_label: "computation ins \<noteq> None \<Longrightarrow> label_of ins = None" "jump_of ins \<noteq> None \<Longrightarrow> label_of ins = None"
  by (auto simp: computation_def jump_of_def label_of_def split: Instruction.splits)

subsection \<open>What generation does to the code\<close>

definition ready :: "nat \<Rightarrow> nat \<Rightarrow> InsGen \<Rightarrow> bool" where
  "ready sec seg g \<longleftrightarrow> in_code (code (gen g)) sec seg \<and> insBackPatchList (code (gen g)) = [] \<and> codeSection (code (gen g)) = None"

definition advances :: "nat \<Rightarrow> nat \<Rightarrow> InsGen \<Rightarrow> InsGen \<Rightarrow> bool" where
  "advances sec seg g g' \<longleftrightarrow> ready sec seg g'
     \<and> (\<forall>i. getSection seg i (code (gen g')) = getSection seg i (code (gen g)))
     \<and> extends (bytes (sections (code (gen g)) ! sec)) (bytes (sections (code (gen g')) ! sec))
     \<and> set (backPatchList (code (gen g))) \<subseteq> set (backPatchList (code (gen g')))
     \<and> (\<forall>e \<in> set (backPatchList (code (gen g'))). e \<in> set (backPatchList (code (gen g)))
         \<or> posSection e = sec \<and> bytePos (sections (code (gen g)) ! sec) \<le> bp_pos e
           \<and> bp_pos e + 4 \<le> bytePos (sections (code (gen g')) ! sec))"

lemma advances_pos: "advances sec seg g g' \<Longrightarrow> bytePos (sections (code (gen g)) ! sec) \<le> bytePos (sections (code (gen g')) ! sec)"
  by (auto simp: advances_def extends_def)

lemma advances_refl: "ready sec seg g \<Longrightarrow> advances sec seg g g"
  by (simp add: advances_def)

lemma advances_trans:
  assumes "advances sec seg a b" "advances sec seg b c"
  shows "advances sec seg a c"
proof -
  have "extends (bytes (sections (code (gen a)) ! sec)) (bytes (sections (code (gen c)) ! sec))"
    using assms extends_trans unfolding advances_def by blast
  then show ?thesis
    using assms advances_pos [OF assms(1)] advances_pos [OF assms(2)] unfolding advances_def
    by (intro conjI; simp?) (fastforce+)
qed

lemma grown_advances:
  assumes "grown (code (gen g)) (code (gen g'))" "ready sec seg g"
    and "bytes (sections (code (gen g')) ! sec) = bytes (sections (code (gen g)) ! sec) @ bs"
    and "backPatchList (code (gen g')) = ps @ backPatchList (code (gen g))"
    and "\<And>e. e \<in> set ps \<Longrightarrow> posSection e = sec \<and> bytePos (sections (code (gen g)) ! sec) \<le> bp_pos e
      \<and> bp_pos e + 4 \<le> bytePos (sections (code (gen g)) ! sec) + length bs"
  shows "advances sec seg g g'" "labels (code (gen g')) = labels (code (gen g))"
proof -
  have i: "in_code (code (gen g)) sec seg" using assms(2) by (simp add: ready_def)
  have "ready sec seg g'" using in_code_grown [OF i assms(1)] assms(1,2) by (simp add: ready_def grown_def)
  moreover have "getSection seg j (code (gen g')) = getSection seg j (code (gen g))" for j
    using grown_getSection [OF assms(1)] i by (simp add: in_code_def)
  ultimately show "advances sec seg g g'" using assms(3-5) by (auto simp: advances_def)
  show "labels (code (gen g')) = labels (code (gen g))" using assms(1) by (simp add: grown_def)
qed

lemma emitted_advances:
  assumes "emitted its (code (gen g)) (code (gen g'))" "ready sec seg g"
  shows "advances sec seg g g'" "labels (code (gen g')) = labels (code (gen g))"
proof -
  have b: "bytes (sections (code (gen g')) ! sec) = bytes (sections (code (gen g)) ! sec) @ item_bytes its"
    "backPatchList (code (gen g')) = item_patches (\<lambda>i. getSection seg i (code (gen g))) sec (bytePos (sections (code (gen g)) ! sec)) its
      @ backPatchList (code (gen g))"
    using assms unfolding emitted_def ready_def by blast+
  note e = grown_advances [OF emitted_grown [OF assms(1)] assms(2) b]
  have q: "posSection e = sec \<and> bytePos (sections (code (gen g)) ! sec) \<le> bp_pos e
      \<and> bp_pos e + 4 \<le> bytePos (sections (code (gen g)) ! sec) + length (item_bytes its)"
    if "e \<in> set (item_patches (\<lambda>i. getSection seg i (code (gen g))) sec (bytePos (sections (code (gen g)) ! sec)) its)" for e
    using item_patches_pos [OF that] by blast
  show "advances sec seg g g'" "labels (code (gen g')) = labels (code (gen g))" using e q by blast+
qed

text \<open>The end of an instruction without labels.\<close>

lemma compile_plain:
  assumes "compile_instruction ins g = Some g'" "genInstruction ins g = Some g1" "insBackPatchList (code (gen g1)) = []"
  shows "g' = g1"
  using assms by (auto simp: compile_instruction_def asm_def on_gen_def emit_def)

lemma adjust_code:
  assumes "compile_instruction (StackAdjustInstruction d) g = Some g'" "ready sec seg g"
  shows "stackPtr (gen g') = stackPtr (gen g) + d \<and> (\<exists>v. packVLU (if 0 < sint d then d else - d) = Some v
    \<and> emitted [Raw [if 0 < sint d then 146 else 145], Raw v] (code (gen g)) (code (gen g')))"
proof -
  let ?b = "if 0 < sint d then 146 else 145 :: byte" and ?n = "if 0 < sint d then d else - d"
  let ?g = "g\<lparr>gen := (gen g)\<lparr>stackPtr := stackPtr (gen g) + d\<rparr>\<rparr>"
  from assms(1) obtain g1 g2 where g: "genOpCode ?b ?g = Some g1" "asm (putVLU ?n) g1 = Some g2"
    "genInstruction (StackAdjustInstruction d) g = Some g2"
    by (auto simp: compile_instruction_def genStackAdjust_def bind_simps)
  from g(2) obtain v where v: "packVLU ?n = Some v" by (auto simp: asm_def on_gen_def emit_def putVLU_def bind_simps)
  have "generates g1 g2 (\<lambda>_. [Raw v])" by (rule asm_generates [OF g(2)]) (use putVLU_emitted v in fastforce)
  from generates_append [OF genOpCode_generates [OF g(1)] this]
  have e: "emitted [Raw [?b], Raw v] (code (gen ?g)) (code (gen g2))" "stable (gen ?g) (gen g2)" by (simp_all add: generates_def)
  have "insBackPatchList (code (gen g2)) = []"
    using emitted_grown [OF e(1)] assms(2) by (simp add: grown_def ready_def)
  from compile_plain [OF assms(1) g(3) this] e v show ?thesis by (auto simp: stable_def)
qed

lemma getSection_labels [simp]: "getSection seg i (c\<lparr>labels := l\<rparr>) = getSection seg i c"
  by (simp add: getSection_def split: option.split)

lemma label_code:
  assumes "compile_instruction (LabelInstruction l blkSp e) g = Some g'" "ready sec seg g"
  shows "code (gen g') = (code (gen g))\<lparr>labels := (labels (code (gen g)))(l \<mapsto> (bytePos (sections (code (gen g)) ! sec), sec))\<rparr>"
proof -
  let ?c = "(code (gen g))\<lparr>labels := (labels (code (gen g)))(l \<mapsto> (bytePos (sections (code (gen g)) ! sec), sec))\<rparr>"
  from assms(1) obtain g1 where g1: "genLabel l blkSp e g = Some g1" by (auto simp: compile_instruction_def bind_simps)
  have c: "code (gen g1) = ?c"
    using g1 assms(2)
    by (cases blkSp; cases e)
      (auto simp: genLabel_def asm_def on_gen_def emit_def bind_label_def ready_def in_code_def bind_simps Let_def)
  have "g' = g1" by (rule compile_plain [OF assms(1)]) (use g1 c assms(2) in \<open>simp_all add: ready_def\<close>)
  then show ?thesis using c by simp
qed

lemma instruction_advances:
  assumes "compile_instruction ins g = Some g'" "ready sec seg g" "supported ins"
  shows "advances sec seg g g'" "label_of ins \<noteq> Some lab \<Longrightarrow> labels (code (gen g')) lab = labels (code (gen g)) lab"
proof -
  have r: "in_code (code (gen g)) sec seg" "insBackPatchList (code (gen g)) = []" "codeSection (code (gen g)) = None"
    using assms(2) by (simp_all add: ready_def)
  have "advances sec seg g g' \<and> (label_of ins \<noteq> Some lab \<longrightarrow> labels (code (gen g')) lab = labels (code (gen g)) lab)"
    using assms(3)
  proof (cases rule: supported_cases)
    case (1 i srcs dst ts t)
    obtain b where b: "genInstruction ins g = gen_ins b (srcs @ [dst]) g" using computation_code [OF 1(1,2)] by blast
    have "list_all plain (srcs @ [dst])"
      using 1(4,5) reads_plain writes_plain by (auto simp: list_all2_conv_all_nth list_all_length nth_append)
    from compile_no_labels [OF assms(1) b r(1) this r(2)]
    have "emitted (Raw [b] # operands_items (gen g') (srcs @ [dst])) (code (gen g)) (code (gen g'))" by (simp add: generates_def)
    from emitted_advances [OF this assms(2)] show ?thesis by simp
  next
    case (2 i srcs l ts)
    have "list_all plain srcs" using 2(4) reads_plain by (auto simp: list_all2_conv_all_nth list_all_length)
    from compile_jump [OF assms(1) 2(1,2) r(1) this r(2,3)] obtain b flag where c: "grown (code (gen g)) (code (gen g'))"
      "bytes (sections (code (gen g')) ! sec)
        = bytes (sections (code (gen g)) ! sec) @ item_bytes (Raw [b] # operands_items (gen g') srcs) @ [0, 0, 0, 0]"
      "backPatchList (code (gen g'))
        = (label_patch sec (bytePos (sections (code (gen g)) ! sec) + length (item_bytes (Raw [b] # operands_items (gen g') srcs))) l flag
          # item_patches (\<lambda>j. getSection seg j (code (gen g))) sec (bytePos (sections (code (gen g)) ! sec))
              (Raw [b] # operands_items (gen g') srcs)) @ backPatchList (code (gen g))"
      by auto
    have "posSection e = sec \<and> bytePos (sections (code (gen g)) ! sec) \<le> bp_pos e
      \<and> bp_pos e + 4 \<le> bytePos (sections (code (gen g)) ! sec) + length (item_bytes (Raw [b] # operands_items (gen g') srcs) @ [0, 0, 0, 0])"
      if "e \<in> set (label_patch sec (bytePos (sections (code (gen g)) ! sec) + length (item_bytes (Raw [b] # operands_items (gen g') srcs))) l flag
          # item_patches (\<lambda>j. getSection seg j (code (gen g))) sec (bytePos (sections (code (gen g)) ! sec))
              (Raw [b] # operands_items (gen g') srcs))" for e
      using that item_patches_pos [of e] by (fastforce simp: label_patch_def simp del: item_patches.simps item_bytes.simps)
    from grown_advances [OF c(1) assms(2) c(2,3) this] show ?thesis by simp
  next
    case (3 l blkSp e)
    note c = label_code [OF assms(1) [unfolded 3] assms(2)]
    then have "ready sec seg g'" using assms(2) by (simp add: ready_def in_code_def segments_ok_def)
    then show ?thesis using c 3 by (auto simp: advances_def label_of_def)
  next
    case (4 d)
    obtain v where "emitted [Raw [if 0 < sint d then 146 else 145], Raw v] (code (gen g)) (code (gen g'))"
      using adjust_code [OF assms(1) [unfolded 4] assms(2)] by blast
    from emitted_advances [OF this assms(2)] show ?thesis by simp
  next
    case (5 form)
    with assms(1) obtain g1 where g1: "genOpCode (return_opcode form) g = Some g1" "genInstruction ins g = Some g1"
      by (auto simp: compile_instruction_def bind_simps)
    have e: "emitted [Raw [return_opcode form]] (code (gen g)) (code (gen g1))"
      using genOpCode_generates [OF g1(1)] by (simp add: generates_def)
    have "g' = g1" by (rule compile_plain [OF assms(1) g1(2)]) (use emitted_grown [OF e] r in \<open>simp add: grown_def\<close>)
    with emitted_advances [OF e assms(2)] show ?thesis by simp
  qed
  then show "advances sec seg g g'" "label_of ins \<noteq> Some lab \<Longrightarrow> labels (code (gen g')) lab = labels (code (gen g)) lab" by blast+
qed

subsection \<open>Compiling a sequence\<close>

definition pos_of :: "nat \<Rightarrow> Instruction list \<Rightarrow> InsGen \<Rightarrow> nat \<Rightarrow> nat" where
  "pos_of sec inss g k = bytePos (sections (code (gen (gen_after inss g k))) ! sec)"

lemma instructions_advance:
  "compile_instructions inss g = Some g' \<Longrightarrow> ready sec seg g \<Longrightarrow> list_all supported inss \<Longrightarrow> advances sec seg g g'"
proof (induction inss arbitrary: g)
  case (Cons ins inss)
  then obtain g1 where g1: "compile_instruction ins g = Some g1" "compile_instructions inss g1 = Some g'" by (auto simp: bind_simps)
  have a: "advances sec seg g g1" using instruction_advances(1) [OF g1(1)] Cons.prems by simp
  then have "advances sec seg g1 g'" using Cons.IH [OF g1(2)] Cons.prems(3) by (simp add: advances_def)
  with a show ?case by (rule advances_trans)
qed (simp add: advances_refl)

lemma advances_after:
  assumes "compile_instructions inss g = Some g'" "ready sec seg g" "list_all supported inss"
  shows "advances sec seg g (gen_after inss g k)" "advances sec seg (gen_after inss g k) g'"
proof -
  note s = compile_split [OF assms(1), of k]
  have sup: "list_all supported (take k inss)" "list_all supported (drop k inss)"
    using assms(3) by (metis append_take_drop_id list_all_append)+
  show a: "advances sec seg g (gen_after inss g k)" by (rule instructions_advance [OF s(1) assms(2) sup(1)])
  show "advances sec seg (gen_after inss g k) g'"
    by (rule instructions_advance [OF s(2) _ sup(2)]) (use a in \<open>simp add: advances_def\<close>)
qed

text \<open>The instruction that binds a label: the last one, when there are several.\<close>

definition binds :: "Instruction list \<Rightarrow> nat \<Rightarrow> nat \<Rightarrow> bool" where
  "binds inss lab j \<longleftrightarrow> j < length inss \<and> label_of (inss ! j) = Some lab \<and> (\<forall>k < length inss. j < k \<longrightarrow> label_of (inss ! k) \<noteq> Some lab)"

lemma labels_kept:
  "compile_instructions inss g = Some g' \<Longrightarrow> ready sec seg g \<Longrightarrow> list_all supported inss \<Longrightarrow>
     \<forall>ins \<in> set inss. label_of ins \<noteq> Some lab \<Longrightarrow> labels (code (gen g')) lab = labels (code (gen g)) lab"
proof (induction inss arbitrary: g)
  case (Cons ins inss)
  then obtain g1 where g1: "compile_instruction ins g = Some g1" "compile_instructions inss g1 = Some g'" by (auto simp: bind_simps)
  have "ready sec seg g1" using instruction_advances(1) [OF g1(1)] Cons.prems by (simp add: advances_def)
  then show ?case
    using Cons.IH [OF g1(2)] instruction_advances(2) [OF g1(1), of sec seg lab] Cons.prems by simp
qed simp

lemma label_bound:
  assumes "compile_instructions inss g = Some g'" "ready sec seg g" "list_all supported inss" "binds inss lab j"
  shows "labels (code (gen g')) lab = Some (pos_of sec inss g j, sec)"
proof -
  have j: "j < length inss" "label_of (inss ! j) = Some lab" using assms(4) by (simp_all add: binds_def)
  obtain blkSp e where l: "inss ! j = LabelInstruction lab blkSp e" using j(2) by (auto simp: label_of_def split: Instruction.splits)
  have r: "ready sec seg (gen_after inss g k)" for k using advances_after(1) [OF assms(1-3)] by (simp add: advances_def)
  have "labels (code (gen (gen_after inss g (Suc j)))) lab = Some (pos_of sec inss g j, sec)"
    using label_code [OF compile_split(3) [OF assms(1) j(1), unfolded l] r] by (simp add: pos_of_def)
  moreover have "\<forall>ins \<in> set (drop (Suc j) inss). label_of ins \<noteq> Some lab"
    using assms(4) by (fastforce simp: binds_def in_set_conv_nth)
  moreover have "list_all supported (drop (Suc j) inss)" using assms(3) by (metis append_take_drop_id list_all_append)
  ultimately show ?thesis using labels_kept [OF compile_split(2) [OF assms(1), of "Suc j"] r] by simp
qed

subsection \<open>Meaning\<close>

text \<open>The steps of a sequence of instructions, while its code is intact. The state of the generator behind an
  instruction says where the operands are: the stack pointer it tracks, the constants and the globals.\<close>

inductive pstep :: "Instruction list \<Rightarrow> (nat \<Rightarrow> CodeGen) \<Rightarrow> (nat \<Rightarrow> nat \<Rightarrow> addr) \<Rightarrow> (machine \<Rightarrow> bool) \<Rightarrow> host
    \<Rightarrow> nat \<times> machine \<Rightarrow> nat \<times> machine \<Rightarrow> bool" for inss sts T ok h where
  compute: "k < length inss \<Longrightarrow> ok s \<Longrightarrow> computation (inss ! k) = Some (i, srcs, dst) \<Longrightarrow>
     effect T (sts (Suc k)) h s i srcs dst = Some s' \<Longrightarrow> pstep inss sts T ok h (k, s) (Suc k, s')"
| jump: "k < length inss \<Longrightarrow> ok s \<Longrightarrow> jump_of (inss ! k) = Some (i, srcs, lab) \<Longrightarrow> jump_shape i = Some ts \<Longrightarrow>
     vals T (sts (Suc k)) s ts srcs = Some vs \<Longrightarrow> taken h i vs \<Longrightarrow> binds inss lab j \<Longrightarrow> pstep inss sts T ok h (k, s) (j, s)"
| no_jump: "k < length inss \<Longrightarrow> ok s \<Longrightarrow> jump_of (inss ! k) = Some (i, srcs, lab) \<Longrightarrow> jump_shape i = Some ts \<Longrightarrow>
     vals T (sts (Suc k)) s ts srcs = Some vs \<Longrightarrow> \<not> taken h i vs \<Longrightarrow> pstep inss sts T ok h (k, s) (Suc k, s)"
| at_label: "k < length inss \<Longrightarrow> label_of (inss ! k) = Some lab \<Longrightarrow> pstep inss sts T ok h (k, s) (Suc k, s)"
| adjust: "k < length inss \<Longrightarrow> ok s \<Longrightarrow> inss ! k = StackAdjustInstruction d \<Longrightarrow>
     pstep inss sts T ok h (k, s) (Suc k, s\<lparr>sp := sp s - d\<rparr>)"

inductive_cases pstepE: "pstep inss sts T ok h (k, s) (k', s')"

abbreviation psteps :: "Instruction list \<Rightarrow> (nat \<Rightarrow> CodeGen) \<Rightarrow> (nat \<Rightarrow> nat \<Rightarrow> addr) \<Rightarrow> (machine \<Rightarrow> bool) \<Rightarrow> host
    \<Rightarrow> nat \<times> machine \<Rightarrow> nat \<times> machine \<Rightarrow> bool" where
  "psteps inss sts T ok h \<equiv> (pstep inss sts T ok h)\<^sup>*\<^sup>*"

subsection \<open>Simulation\<close>

text \<open>In the linked code of a sequence, the code of each instruction is where its position says.\<close>

lemma placed_instruction:
  assumes compile: "compile_instructions inss g = Some g'" "ready sec seg g" "list_all supported inss" and k: "k < length inss"
    and later: "extends (bytes (sections (code (gen g')) ! sec)) (bytes (sections c ! sec))"
      "set (backPatchList (code (gen g'))) \<subseteq> set (backPatchList c)"
      "\<forall>e \<in> set (backPatchList c). posSection e = sec \<longrightarrow>
         e \<in> set (backPatchList (code (gen g'))) \<or> bytePos (sections (code (gen g')) ! sec) \<le> bp_pos e"
    and earlier: "\<forall>e \<in> set (backPatchList (code (gen g))). posSection e = sec \<longrightarrow>
         bp_pos e + 4 \<le> bytePos (sections (code (gen g)) ! sec)"
  shows "ready sec seg (gen_after inss g k)"
    "\<And>i. getSection seg i (code (gen (gen_after inss g k))) = getSection seg i (code (gen g))"
    "extends (bytes (sections (code (gen (gen_after inss g (Suc k)))) ! sec)) (bytes (sections c ! sec))"
    "set (backPatchList (code (gen (gen_after inss g (Suc k))))) \<subseteq> set (backPatchList c)"
    "\<forall>e \<in> set (backPatchList c). posSection e = sec \<longrightarrow> e \<in> set (backPatchList (code (gen (gen_after inss g (Suc k)))))
       \<or> bytePos (sections (code (gen (gen_after inss g (Suc k)))) ! sec) \<le> bp_pos e"
    "\<forall>e \<in> set (backPatchList (code (gen (gen_after inss g k)))). posSection e = sec \<longrightarrow>
       bp_pos e + 4 \<le> bytePos (sections (code (gen (gen_after inss g k))) ! sec)"
proof -
  note a = advances_after [OF compile]
  note p = advances_pos [OF a(1), of k] advances_pos [OF a(2), of "Suc k"]
  show "ready sec seg (gen_after inss g k)" "\<And>i. getSection seg i (code (gen (gen_after inss g k))) = getSection seg i (code (gen g))"
    using a(1) [of k] by (simp_all add: advances_def)
  show "extends (bytes (sections (code (gen (gen_after inss g (Suc k)))) ! sec)) (bytes (sections c ! sec))"
    using a(2) [of "Suc k"] later(1) extends_trans unfolding advances_def by blast
  show "set (backPatchList (code (gen (gen_after inss g (Suc k))))) \<subseteq> set (backPatchList c)"
    using a(2) [of "Suc k"] later(2) unfolding advances_def by blast
  show "\<forall>e \<in> set (backPatchList c). posSection e = sec \<longrightarrow> e \<in> set (backPatchList (code (gen (gen_after inss g (Suc k)))))
       \<or> bytePos (sections (code (gen (gen_after inss g (Suc k)))) ! sec) \<le> bp_pos e"
    using a(2) [of "Suc k"] later(3) p(2) unfolding advances_def by (meson order_trans)
  show "\<forall>e \<in> set (backPatchList (code (gen (gen_after inss g k)))). posSection e = sec \<longrightarrow>
       bp_pos e + 4 \<le> bytePos (sections (code (gen (gen_after inss g k))) ! sec)"
    using a(1) [of k] earlier p(1) unfolding advances_def by (meson order_trans)
qed

text \<open>A stack adjustment, linked: an addition or a subtraction, by its sign.\<close>

lemma adjust_linked:
  assumes gen: "compile_instruction (StackAdjustInstruction d) g = Some g'" "ready sec seg g"
    and later: "sec < length (sections c)" "extends (bytes (sections (code (gen g')) ! sec)) (bytes (sections c ! sec))"
      "set (backPatchList (code (gen g'))) \<subseteq> set (backPatchList c)"
      "\<forall>e \<in> set (backPatchList c). posSection e = sec \<longrightarrow>
         e \<in> set (backPatchList (code (gen g'))) \<or> bytePos (sections (code (gen g')) ! sec) \<le> bp_pos e"
    and earlier: "\<forall>e \<in> set (backPatchList (code (gen g))). posSection e = sec \<longrightarrow>
         bp_pos e + 4 \<le> bytePos (sections (code (gen g)) ! sec)"
    and link: "setSectionOrigins c = (c1, sz)" "setSegmentLengths segs c1 = Some c2"
      "apply_patches (backPatchList c2) (c2\<lparr>backPatchList := []\<rparr>) = Some c3"
      "sorted_wrt apart (backPatchList c)" "\<forall>e \<in> set (backPatchList c). patch_ok c e" "segments_ok c"
      "p AND 3 = 0" "sz < 2 ^ 32" "span p sz \<subseteq> dom m"
    and kept: "bytes (sections c2 ! sec) = bytes (sections c ! sec)"
  shows "\<exists>c4 m'. copySections p c3 m = Some (c4, m')
    \<and> (\<forall>h s. intact m' (bytePtr (sections c4 ! sec)) (bytePos (sections c ! sec)) s \<longrightarrow>
      exec_instr h s (bytePtr (sections c4 ! sec) + of_nat (bytePos (sections (code (gen g)) ! sec)))
        = Some (Next (s\<lparr>sp := sp s - d\<rparr>) (bytePtr (sections c4 ! sec) + of_nat (bytePos (sections (code (gen g')) ! sec)))))"
proof -
  let ?pos = "bytePos (sections (code (gen g)) ! sec)" and ?pos' = "bytePos (sections (code (gen g')) ! sec)"
  let ?b = "if 0 < sint d then 146 else 145 :: byte" and ?v = "if 0 < sint d then d else - d"
  let ?T = "target_addr (\<lambda>i. getSection seg i (code (gen g))) c1 p"
  from adjust_code [OF gen] obtain v where v: "packVLU ?v = Some v"
    "emitted [Raw [?b], Raw v] (code (gen g)) (code (gen g'))" by blast
  have r: "in_code (code (gen g)) sec seg" using gen(2) by (simp add: ready_def)
  from emitted_linked [OF v(2) r later earlier link kept] obtain c4 m' where cp: "copySections p c3 m = Some (c4, m')"
    and it: "items_at m' ?T (bytePtr (sections c4 ! sec) + of_nat ?pos) [Raw [?b], Raw v]"
    and pos: "?pos' = ?pos + length (item_bytes [Raw [?b], Raw v])" by blast
  have le: "?pos' \<le> bytePos (sections c ! sec)" using later(2) by (auto simp: extends_def)
  have "exec_instr h s (bytePtr (sections c4 ! sec) + of_nat ?pos)
      = Some (Next (s\<lparr>sp := sp s - d\<rparr>) (bytePtr (sections c4 ! sec) + of_nat ?pos'))"
    if ok: "intact m' (bytePtr (sections c4 ! sec)) (bytePos (sections c ! sec)) s" for h s
  proof -
    have "items_at (mem s) ?T (bytePtr (sections c4 ! sec) + of_nat ?pos) [Raw [?b], Raw v]"
      by (rule items_at_intact [OF it ok]) (use pos le in simp)
    then have c: "mem s (bytePtr (sections c4 ! sec) + of_nat ?pos) = Some ?b"
      "read_n (length v) (mem s) (bytePtr (sections c4 ! sec) + of_nat ?pos + 1) = Some v"
      by (auto simp: code_at_def bind_simps)
    have "map_of opcode_table 146 = Some SUB_SP" "map_of opcode_table 145 = Some ADD_SP" by code_simp+
    then show ?thesis
      using exec_fetch [OF c(1)] fetchVLU_read [OF v(1) c(2)] pos
      by (simp add: exec_opcode_def execADD_SP_def execSUB_SP_def add.assoc split: if_splits)
  qed
  then show ?thesis using cp by blast
qed

lemma step_simulated:
  assumes compile: "compile_instructions inss g = Some g'" "ready sec seg g" "list_all supported inss"
    and later: "extends (bytes (sections (code (gen g')) ! sec)) (bytes (sections c ! sec))"
      "set (backPatchList (code (gen g'))) \<subseteq> set (backPatchList c)"
      "\<forall>e \<in> set (backPatchList c). posSection e = sec \<longrightarrow>
         e \<in> set (backPatchList (code (gen g'))) \<or> bytePos (sections (code (gen g')) ! sec) \<le> bp_pos e"
    and earlier: "\<forall>e \<in> set (backPatchList (code (gen g))). posSection e = sec \<longrightarrow>
         bp_pos e + 4 \<le> bytePos (sections (code (gen g)) ! sec)"
    and sec: "sec < length (sections c)" and labels: "labels c = labels (code (gen g'))"
    and link: "setSectionOrigins c = (c1, sz)" "setSegmentLengths segs c1 = Some c2"
      "apply_patches (backPatchList c2) (c2\<lparr>backPatchList := []\<rparr>) = Some c3"
      "sorted_wrt apart (backPatchList c)" "\<forall>e \<in> set (backPatchList c). patch_ok c e" "segments_ok c"
      "p AND 3 = 0" "sz < 2 ^ 32" "span p sz \<subseteq> dom m"
    and kept: "bytes (sections c2 ! sec) = bytes (sections c ! sec)"
    and cp: "copySections p c3 m = Some (c4, m')"
    and st: "pstep inss (\<lambda>k. gen (gen_after inss g k)) (target_addr (\<lambda>i. getSection seg i (code (gen g))) c1 p)
       (intact m' (bytePtr (sections c4 ! sec)) (bytePos (sections c ! sec))) h (k, s) (k', s')"
  shows "runs h (s, bytePtr (sections c4 ! sec) + of_nat (pos_of sec inss g k))
     (s', bytePtr (sections c4 ! sec) + of_nat (pos_of sec inss g k'))"
proof -
  let ?a = "bytePtr (sections c4 ! sec)" and ?n = "bytePos (sections c ! sec)" and ?gk = "gen_after inss g k" and ?gk' = "gen_after inss g (Suc k)"
  let ?T = "target_addr (\<lambda>i. getSection seg i (code (gen g))) c1 p"
  have one: "runs h (s, ?a + of_nat (pos_of sec inss g k)) (s', pc)"
    if "exec_instr h s (?a + of_nat (pos_of sec inss g k)) = Some (Next s' pc)" for pc
    by (rule runs_step [OF _ runs_refl]) (simp add: istep_iff that)
  have k: "k < length inss" using st by (auto elim: pstepE)
  note pl = placed_instruction [OF compile k later earlier]
  have r: "in_code (code (gen ?gk)) sec seg" "insBackPatchList (code (gen ?gk)) = []" "codeSection (code (gen ?gk)) = None"
    using pl(1) by (simp_all add: ready_def)
  have le: "pos_of sec inss g (Suc k) \<le> ?n" using pl(3) by (auto simp: extends_def pos_of_def)
  note ci = compile_split(3) [OF compile(1) k]
  have T: "(\<lambda>i. getSection seg i (code (gen ?gk))) = (\<lambda>i. getSection seg i (code (gen g)))" using pl(2) by blast
  have sup: "supported (inss ! k)" using compile(3) k by (simp add: list_all_length)
  then have ok_op: "\<not> miscompiled (inss ! k)" by (simp add: supported_def)
  note hyps = sec pl(3-6) link kept
  have to: "label_addr c1 p lab = ?a + of_nat (pos_of sec inss g j)" if "binds inss lab j" for lab j
  proof -
    have "labels c1 lab = Some (pos_of sec inss g j, sec)"
      using label_bound [OF compile that] labels origins_layout [OF link(1)] by simp
    moreover have "?a = p + of_nat (origin (sections c1 ! sec))" using link_resolves [OF link] cp sec by auto
    ultimately show ?thesis by (simp add: label_addr_def)
  qed
  have jumps: "exec_instr h s (?a + of_nat (pos_of sec inss g k))
      = Some (Next s (if taken h i vs then label_addr c1 p lab else ?a + of_nat (pos_of sec inss g (Suc k))))"
    if ok: "intact m' ?a ?n s" and j: "jump_of (inss ! k) = Some (i, srcs, lab)" "jump_shape i = Some ts"
      and vs: "vals ?T (gen ?gk') s ts srcs = Some vs" for i srcs lab ts vs
  proof -
    have rd: "list_all2 reads ts srcs" by (rule supported_parts(2) [OF sup j])
    from jump_linked [OF ci r j(1) ok_op j(2) rd hyps] cp obtain b v where b: "map_of opcode_table b = Some i"
      "items_at m' ?T (?a + of_nat (pos_of sec inss g k)) (Raw [b] # operands_items (gen ?gk') srcs)"
      "extInt4 m' (?a + of_nat (pos_of sec inss g k) + item_length (Raw [b] # operands_items (gen ?gk') srcs))
        = Some (v, ?a + of_nat (pos_of sec inss g k) + item_length (Raw [b] # operands_items (gen ?gk') srcs) + 4)"
      "?a + of_nat (pos_of sec inss g k) + item_length (Raw [b] # operands_items (gen ?gk') srcs) + 4 + v = label_addr c1 p lab"
      "pos_of sec inss g (Suc k) = pos_of sec inss g k + length (item_bytes (Raw [b] # operands_items (gen ?gk') srcs)) + 4"
      unfolding T pos_of_def by auto
    from linked_jumps [OF b(2) ok b(3-5) le b(1) j(2) rd, where h = h] vs show ?thesis by simp
  qed
  from st show ?thesis
  proof (cases rule: pstepE [consumes 1])
    case (1 i srcs dst)
    obtain ts t where sh: "shape i = Some (ts, t)" "list_all2 reads ts srcs" "writes t dst"
      using supported_parts(1) [OF sup 1(4)] by blast
    from instruction_linked [OF ci r(1,2) 1(4) ok_op sh hyps] cp obtain b where b: "map_of opcode_table b = Some i"
      "items_at m' ?T (?a + of_nat (pos_of sec inss g k)) (Raw [b] # operands_items (gen ?gk') (srcs @ [dst]))"
      "pos_of sec inss g (Suc k) = pos_of sec inss g k + length (item_bytes (Raw [b] # operands_items (gen ?gk') (srcs @ [dst])))"
      unfolding T pos_of_def by auto
    from linked_executes [OF b(2) 1(3) b(3) le b(1) sh, where h = h] 1 show ?thesis by (intro one) simp
  next
    case (2 i srcs lab ts vs)
    from jumps [OF 2(3-6)] 2(7) to [OF 2(8)] 2 show ?thesis by (intro one) simp
  next
    case (3 i srcs lab ts vs)
    from jumps [OF 3(2-5)] 3 show ?thesis by (intro one) simp
  next
    case (4 lab)
    obtain blkSp e where l: "inss ! k = LabelInstruction lab blkSp e"
      using 4(2) by (auto simp: label_of_def split: Instruction.splits)
    from label_code [OF ci [unfolded l] pl(1)] have "pos_of sec inss g (Suc k) = pos_of sec inss g k" by (simp add: pos_of_def)
    then show ?thesis using 4 by (simp add: runs_refl)
  next
    case (5 d)
    from adjust_linked [OF ci [unfolded 5(3)] pl(1) hyps] cp 5(2)
    have "exec_instr h s (?a + of_nat (pos_of sec inss g k)) = Some (Next (s\<lparr>sp := sp s - d\<rparr>) (?a + of_nat (pos_of sec inss g (Suc k))))"
      unfolding pos_of_def by auto
    with 5 show ?thesis by (intro one) simp
  qed
qed

lemma steps_simulated:
  assumes compile: "compile_instructions inss g = Some g'" "ready sec seg g" "list_all supported inss"
    and later: "extends (bytes (sections (code (gen g')) ! sec)) (bytes (sections c ! sec))"
      "set (backPatchList (code (gen g'))) \<subseteq> set (backPatchList c)"
      "\<forall>e \<in> set (backPatchList c). posSection e = sec \<longrightarrow>
         e \<in> set (backPatchList (code (gen g'))) \<or> bytePos (sections (code (gen g')) ! sec) \<le> bp_pos e"
    and earlier: "\<forall>e \<in> set (backPatchList (code (gen g))). posSection e = sec \<longrightarrow>
         bp_pos e + 4 \<le> bytePos (sections (code (gen g)) ! sec)"
    and sec: "sec < length (sections c)" and labels: "labels c = labels (code (gen g'))"
    and link: "setSectionOrigins c = (c1, sz)" "setSegmentLengths segs c1 = Some c2"
      "apply_patches (backPatchList c2) (c2\<lparr>backPatchList := []\<rparr>) = Some c3"
      "sorted_wrt apart (backPatchList c)" "\<forall>e \<in> set (backPatchList c). patch_ok c e" "segments_ok c"
      "p AND 3 = 0" "sz < 2 ^ 32" "span p sz \<subseteq> dom m"
    and kept: "bytes (sections c2 ! sec) = bytes (sections c ! sec)"
    and cp: "copySections p c3 m = Some (c4, m')"
    and st: "psteps inss (\<lambda>k. gen (gen_after inss g k)) (target_addr (\<lambda>i. getSection seg i (code (gen g))) c1 p)
       (intact m' (bytePtr (sections c4 ! sec)) (bytePos (sections c ! sec))) h (k, s) (k', s')"
  shows "runs h (s, bytePtr (sections c4 ! sec) + of_nat (pos_of sec inss g k))
     (s', bytePtr (sections c4 ! sec) + of_nat (pos_of sec inss g k'))"
  using st
proof (induction rule: rtranclp_induct2)
  case (step k1 s1 k2 s2)
  show ?case
    by (rule runs_trans [OF step.IH step_simulated [OF compile later earlier sec labels link kept cp step.hyps(2)]])
qed (rule runs_refl)

text \<open>C5: compiled, linked and loaded, a sequence of moves, operations, labels, jumps, branches and stack
  adjustments makes the interpreter simulate the steps of the sequence, as long as its code is intact.\<close>

theorem compiled_program_simulated:
  assumes compile: "compile_instructions inss g = Some g'" "ready sec seg g" "list_all supported inss"
    and later: "extends (bytes (sections (code (gen g')) ! sec)) (bytes (sections c ! sec))"
      "set (backPatchList (code (gen g'))) \<subseteq> set (backPatchList c)"
      "\<forall>e \<in> set (backPatchList c). posSection e = sec \<longrightarrow>
         e \<in> set (backPatchList (code (gen g'))) \<or> bytePos (sections (code (gen g')) ! sec) \<le> bp_pos e"
    and earlier: "\<forall>e \<in> set (backPatchList (code (gen g))). posSection e = sec \<longrightarrow>
         bp_pos e + 4 \<le> bytePos (sections (code (gen g)) ! sec)"
    and sec: "sec < length (sections c)" and labels: "labels c = labels (code (gen g'))"
    and link: "setSectionOrigins c = (c1, sz)" "setSegmentLengths segs c1 = Some c2"
      "apply_patches (backPatchList c2) (c2\<lparr>backPatchList := []\<rparr>) = Some c3"
      "sorted_wrt apart (backPatchList c)" "\<forall>e \<in> set (backPatchList c). patch_ok c e" "segments_ok c"
      "p AND 3 = 0" "sz < 2 ^ 32" "span p sz \<subseteq> dom m"
    and kept: "bytes (sections c2 ! sec) = bytes (sections c ! sec)"
  shows "\<exists>c4 m'. copySections p c3 m = Some (c4, m') \<and> (\<forall>h k s k' s'.
      psteps inss (\<lambda>k. gen (gen_after inss g k)) (target_addr (\<lambda>i. getSection seg i (code (gen g))) c1 p)
        (intact m' (bytePtr (sections c4 ! sec)) (bytePos (sections c ! sec))) h (k, s) (k', s') \<longrightarrow>
      runs h (s, bytePtr (sections c4 ! sec) + of_nat (pos_of sec inss g k))
        (s', bytePtr (sections c4 ! sec) + of_nat (pos_of sec inss g k')))"
proof -
  obtain c4 m' where cp: "copySections p c3 m = Some (c4, m')" using link_resolves [OF link] by blast
  then show ?thesis using steps_simulated [OF compile later earlier sec labels link kept cp] by blast
qed

text \<open>The example of the previous theories.\<close>

lemma demo_supported: "list_all supported demo_program"
proof -
  have "relation_instr GT_OP OP_TYPE_INT = Some (COND_BRANCH RGt TInt)" by (simp add: relation_instr_def op_rel_def op_ctype_def)
  moreover have "operator_instr SUB_OP OP_TYPE_INT 2 = Some (DYADIC Sub TInt)" by code_simp
  ultimately show ?thesis
    by (simp add: demo_program_def supported_def miscompiled_def computation_def jump_of_def move_ctype_def repr_ctype_def shape_def jump_shape_def
      loadable_def addressable_def)
qed

lemma demo_ready: "ready 2 0 demo_gen"
proof -
  have "code (gen (demo_code 0)) = code (gen demo_gen)" by (simp add: gen_after_def)
  then show ?thesis using demo_in_code [of 0] by (simp add: ready_def demo_gen_def global_demo_def)
qed

lemma demo_placed:
  "extends (bytes (sections (code (gen (demo_code 6))) ! 2)) (bytes (sections demo_c ! 2))"
  "set (backPatchList (code (gen (demo_code 6)))) \<subseteq> set (backPatchList demo_c)"
  "\<forall>e \<in> set (backPatchList demo_c). posSection e = 2 \<longrightarrow>
     e \<in> set (backPatchList (code (gen (demo_code 6)))) \<or> bytePos (sections (code (gen (demo_code 6))) ! 2) \<le> bp_pos e"
  "\<forall>e \<in> set (backPatchList (code (gen demo_gen))). posSection e = 2 \<longrightarrow>
     bp_pos e + 4 \<le> bytePos (sections (code (gen demo_gen)) ! 2)"
  "labels demo_c = labels (code (gen (demo_code 6)))"
  by (simp_all add: demo_c_def demo_gen_def global_demo_def)

lemma compiled_program_simulated_witness:
  "\<exists>c4 m'. copySections 0x100 demo_c3 demo_ram = Some (c4, m') \<and> (\<forall>h k s k' s'.
      psteps demo_program (\<lambda>k. gen (demo_code k)) (target_addr (\<lambda>i. getSection 0 i (code (gen demo_gen))) demo_c1 0x100)
        (intact m' (bytePtr (sections c4 ! 2)) (bytePos (sections demo_c ! 2))) h (k, s) (k', s') \<longrightarrow>
      runs h (s, bytePtr (sections c4 ! 2) + of_nat (pos_of 2 demo_program demo_gen k))
        (s', bytePtr (sections c4 ! 2) + of_nat (pos_of 2 demo_program demo_gen k')))"
  by (rule compiled_program_simulated [OF demo_compiled demo_ready demo_supported demo_placed(1-4) demo_link(11) demo_placed(5)
      demo_link(1-10)])

lemma exit_reached:
  assumes compile: "compile_instructions inss g = Some g'" "ready sec seg g" "list_all supported inss"
    and later: "extends (bytes (sections (code (gen g')) ! sec)) (bytes (sections c ! sec))"
      "set (backPatchList (code (gen g'))) \<subseteq> set (backPatchList c)"
      "\<forall>e \<in> set (backPatchList c). posSection e = sec \<longrightarrow>
         e \<in> set (backPatchList (code (gen g'))) \<or> bytePos (sections (code (gen g')) ! sec) \<le> bp_pos e"
    and earlier: "\<forall>e \<in> set (backPatchList (code (gen g))). posSection e = sec \<longrightarrow>
         bp_pos e + 4 \<le> bytePos (sections (code (gen g)) ! sec)"
    and sec: "sec < length (sections c)" and labels: "labels c = labels (code (gen g'))"
    and link: "setSectionOrigins c = (c1, sz)" "setSegmentLengths segs c1 = Some c2"
      "apply_patches (backPatchList c2) (c2\<lparr>backPatchList := []\<rparr>) = Some c3"
      "sorted_wrt apart (backPatchList c)" "\<forall>e \<in> set (backPatchList c). patch_ok c e" "segments_ok c"
      "p AND 3 = 0" "sz < 2 ^ 32" "span p sz \<subseteq> dom m"
    and kept: "bytes (sections c2 ! sec) = bytes (sections c ! sec)"
    and cp: "copySections p c3 m = Some (c4, m')"
    and k: "k < length inss" "inss ! k = ReturnInstruction EXIT_FORM"
    and ok: "intact m' (bytePtr (sections c4 ! sec)) (bytePos (sections c ! sec)) s"
  shows "exec_instr h s (bytePtr (sections c4 ! sec) + of_nat (pos_of sec inss g k)) = Some (Return s)"
proof -
  let ?a = "bytePtr (sections c4 ! sec)" and ?gk = "gen_after inss g k" and ?gk' = "gen_after inss g (Suc k)"
  note pl = placed_instruction [OF compile k(1) later earlier]
  have r: "in_code (code (gen ?gk)) sec seg" "insBackPatchList (code (gen ?gk)) = []" using pl(1) by (simp_all add: ready_def)
  note ci = compile_split(3) [OF compile(1) k(1), unfolded k(2)]
  from ci obtain g1 where g1: "genOpCode 151 ?gk = Some g1" "genInstruction (ReturnInstruction EXIT_FORM) ?gk = Some g1"
    by (auto simp: compile_instruction_def bind_simps)
  have e: "emitted [Raw [151]] (code (gen ?gk)) (code (gen g1))" using genOpCode_generates [OF g1(1)] by (simp add: generates_def)
  have "?gk' = g1" by (rule compile_plain [OF ci g1(2)]) (use emitted_grown [OF e] r in \<open>simp add: grown_def\<close>)
  with e have e': "emitted [Raw [151]] (code (gen ?gk)) (code (gen ?gk'))" by simp
  from emitted_linked [OF e' r(1) sec pl(3-6) link kept] cp obtain T where
    it: "items_at m' T (?a + of_nat (pos_of sec inss g k)) [Raw [151]]"
    and pos: "pos_of sec inss g (Suc k) = pos_of sec inss g k + 1"
    unfolding pos_of_def by auto
  have "pos_of sec inss g (Suc k) \<le> bytePos (sections c ! sec)" using pl(3) by (auto simp: extends_def pos_of_def)
  then have "items_at (mem s) T (?a + of_nat (pos_of sec inss g k)) [Raw [151]]"
    by (intro items_at_intact [OF it ok]) (simp add: pos)
  then have "mem s (?a + of_nat (pos_of sec inss g k)) = Some 151" by simp
  moreover have "map_of opcode_table 151 = Some EXIT" by code_simp
  ultimately show ?thesis by (simp add: exec_fetch exec_opcode_def)
qed

text \<open>C1: when the steps of a sequence lead to its exit instruction, the interpreter started on its code
  terminates and returns the state they lead to.\<close>

theorem compiled_program_returns:
  assumes compile: "compile_instructions inss g = Some g'" "ready sec seg g" "list_all supported inss"
    and later: "extends (bytes (sections (code (gen g')) ! sec)) (bytes (sections c ! sec))"
      "set (backPatchList (code (gen g'))) \<subseteq> set (backPatchList c)"
      "\<forall>e \<in> set (backPatchList c). posSection e = sec \<longrightarrow>
         e \<in> set (backPatchList (code (gen g'))) \<or> bytePos (sections (code (gen g')) ! sec) \<le> bp_pos e"
    and earlier: "\<forall>e \<in> set (backPatchList (code (gen g))). posSection e = sec \<longrightarrow>
         bp_pos e + 4 \<le> bytePos (sections (code (gen g)) ! sec)"
    and sec: "sec < length (sections c)" and labels: "labels c = labels (code (gen g'))"
    and link: "setSectionOrigins c = (c1, sz)" "setSegmentLengths segs c1 = Some c2"
      "apply_patches (backPatchList c2) (c2\<lparr>backPatchList := []\<rparr>) = Some c3"
      "sorted_wrt apart (backPatchList c)" "\<forall>e \<in> set (backPatchList c). patch_ok c e" "segments_ok c"
      "p AND 3 = 0" "sz < 2 ^ 32" "span p sz \<subseteq> dom m"
    and kept: "bytes (sections c2 ! sec) = bytes (sections c ! sec)"
  shows "\<exists>c4 m'. copySections p c3 m = Some (c4, m') \<and> (\<forall>h s k s'.
      psteps inss (\<lambda>k. gen (gen_after inss g k)) (target_addr (\<lambda>i. getSection seg i (code (gen g))) c1 p)
        (intact m' (bytePtr (sections c4 ! sec)) (bytePos (sections c ! sec))) h (0, s) (k, s') \<longrightarrow>
      k < length inss \<longrightarrow> inss ! k = ReturnInstruction EXIT_FORM \<longrightarrow>
      intact m' (bytePtr (sections c4 ! sec)) (bytePos (sections c ! sec)) s' \<longrightarrow>
      execByteCode h s (bytePtr (sections c4 ! sec) + of_nat (bytePos (sections (code (gen g)) ! sec))) = Some (Return s'))"
proof -
  obtain c4 m' where cp: "copySections p c3 m = Some (c4, m')" using link_resolves [OF link] by blast
  have z: "pos_of sec inss g 0 = bytePos (sections (code (gen g)) ! sec)" by (simp add: pos_of_def gen_after_def)
  note sim = steps_simulated [OF compile later earlier sec labels link kept cp, of _ 0, unfolded z]
    and ex = exit_reached [OF compile later earlier sec labels link kept cp]
  have "execByteCode h s (bytePtr (sections c4 ! sec) + of_nat (bytePos (sections (code (gen g)) ! sec))) = Some (Return s')"
    if st: "psteps inss (\<lambda>k. gen (gen_after inss g k)) (target_addr (\<lambda>i. getSection seg i (code (gen g))) c1 p)
        (intact m' (bytePtr (sections c4 ! sec)) (bytePos (sections c ! sec))) h (0, s) (k, s')"
      and k: "k < length inss" "inss ! k = ReturnInstruction EXIT_FORM"
      and ok: "intact m' (bytePtr (sections c4 ! sec)) (bytePos (sections c ! sec)) s'" for h s k s'
    unfolding execByteCode_iff using sim [OF st] ex [OF k ok, of h] leaves_loop.simps(3) by blast
  then show ?thesis using cp by blast
qed

lemma store_mem_outside: "store_mem t v a s = Some s' \<Longrightarrow> x \<notin> span a (sizeof t) \<Longrightarrow> mem s' x = mem s x"
  using write_n_outside [of "le_bytes (sizeof t) v" a "mem s"] by (auto simp: store_mem_def store_n_def)

text \<open>The loop of the example, from 2, with a stack behind the code.\<close>

definition demo_start :: machine where
  "demo_start = (zero_machine (snd (the (copySections 0x100 demo_c3 demo_ram))))\<lparr>rInt := 2, sp := 0x13c\<rparr>"

lemma compiled_program_returns_witness:
  "\<exists>s'. execByteCode zero_host demo_start 0x109 = Some (Return s') \<and> rInt s' = 0 \<and> sp s' = 0x138"
proof -
  let ?m = "snd (the (copySections 0x100 demo_c3 demo_ram))" and ?c4 = "fst (the (copySections 0x100 demo_c3 demo_ram))"
  let ?T = "target_addr (\<lambda>i. getSection 0 i (code (gen demo_gen))) demo_c1 0x100" and ?st = "\<lambda>k. gen (demo_code k)"
  let ?ok = "intact ?m (bytePtr (sections ?c4 ! 2)) (bytePos (sections demo_c ! 2))"
  let ?loop = "\<lambda>n. demo_start\<lparr>rInt := n\<rparr>" and ?s3 = "demo_start\<lparr>rInt := 0, sp := 0x138\<rparr>"
  let ?move = "effect ?T (?st 5) zero_host ?s3 (MOV TExpr) [LocOperand (StaticLoc 0) (Basic REPR_EXPR)]
      (LocOperand (StackLoc False 0 4) (Basic REPR_EXPR))"
  let ?step = "pstep demo_program ?st ?T ?ok zero_host"
  have len: "length demo_program = 6" by (simp add: demo_program_def)
  have a: "bytePtr (sections ?c4 ! 2) = 0x108" "bytePos (sections demo_c ! 2) = 22"
    "bytePos (sections (code (gen demo_gen)) ! 2) = 1" by code_simp+
  have start: "mem demo_start = ?m" "rInt demo_start = 2" "sp demo_start = 0x13c" by (simp_all add: demo_start_def zero_machine_def)
  have ok: "?ok (?loop n)" "?ok ?s3" for n by (rule intact_refl, simp add: start)+
  have rel: "relation_instr GT_OP OP_TYPE_INT = Some (COND_BRANCH RGt TInt)" by (simp add: relation_instr_def op_rel_def op_ctype_def)
  have sub: "operator_instr SUB_OP OP_TYPE_INT 2 = Some (DYADIC Sub TInt)" by code_simp
  have ins: "label_of (demo_program ! 0) = Some 7"
    "computation (demo_program ! 1) = Some (DYADIC Sub TInt, [LocOperand (Register 9) (Basic REPR_INT), ConstOperand (IntConst 1)],
       LocOperand (Register 9) (Basic REPR_INT))"
    "jump_of (demo_program ! 2) = Some (COND_BRANCH RGt TInt, [LocOperand (Register 9) (Basic REPR_INT), ConstOperand (IntConst 0)], 7)"
    "demo_program ! 3 = StackAdjustInstruction 4"
    "computation (demo_program ! 4) = Some (MOV TExpr, [LocOperand (StaticLoc 0) (Basic REPR_EXPR)],
       LocOperand (StackLoc False 0 4) (Basic REPR_EXPR))"
    "demo_program ! 5 = ReturnInstruction EXIT_FORM"
    using rel sub by (simp_all add: demo_program_def label_of_def computation_def jump_of_def move_ctype_def repr_ctype_def)
  have b: "binds demo_program 7 0"
    unfolding binds_def len by (simp add: demo_program_def label_of_def All_less_Suc eval_nat_numeral)
  note st = pstep.intros [where inss = demo_program and sts = "?st" and T = ?T and ok = ?ok and h = zero_host]
  have lab: "?step (0, s) (1, s)" for s
    using st(4) [OF _ ins(1), where s = s] by (simp add: len)
  have dec: "?step (1, ?loop n) (2, ?loop (n - 1))" if "n \<in> {1, 2}" for n
  proof -
    have "effect ?T (?st (Suc 1)) zero_host (?loop n) (DYADIC Sub TInt)
        [LocOperand (Register 9) (Basic REPR_INT), ConstOperand (IntConst 1)] (LocOperand (Register 9) (Basic REPR_INT))
      = Some (?loop (n - 1))"
      using that by (auto simp: effect_def shape_def result_def dyadic_def int_dyadic_def int_result_def)
    from st(1) [OF _ ok(1) ins(2) this] show ?thesis by (simp add: len numeral_2_eq_2)
  qed
  have v: "vals ?T (?st (Suc 2)) (?loop n) [TInt, TInt] [LocOperand (Register 9) (Basic REPR_INT), ConstOperand (IntConst 0)]
      = Some [ucast n, 0]" for n by simp
  have sh: "jump_shape (COND_BRANCH RGt TInt) = Some [TInt, TInt]" by (simp add: jump_shape_def)
  have again: "?step (2, ?loop 1) (0, ?loop 1)"
    by (rule st(2) [OF _ ok(1) ins(3) sh v _ b]) (simp_all add: len taken_def compare_def rel_def)
  have fwd: "?step (2, ?loop 0) (3, ?loop 0)"
    using st(3) [OF _ ok(1) ins(3) sh v] by (simp add: len taken_def compare_def rel_def)
  have push: "?step (3, ?loop 0) (4, ?s3)"
    using st(5) [OF _ ok(1) ins(4)] start by (simp add: len)
  have "\<not> Option.is_none ?move" by code_simp
  then have eff: "effect ?T (?st (Suc 4)) zero_host ?s3 (MOV TExpr) [LocOperand (StaticLoc 0) (Basic REPR_EXPR)]
      (LocOperand (StackLoc False 0 4) (Basic REPR_EXPR)) = Some (the ?move)"
    using some_the [of ?move] by (simp del: option.collapse)
  from st(1) [OF _ ok(2) ins(5) eff] have mv: "?step (4, ?s3) (5, the ?move)" by (simp add: len)
  have fin: "rInt (the ?move) = 0" "sp (the ?move) = 0x138" by code_simp+
  have "operand_place ?T (?st (Suc 4)) ?s3 (LocOperand (StackLoc False 0 4) (Basic REPR_EXPR)) TExpr = Some (At 0x138)" by code_simp
  with eff obtain val where "store_mem TExpr val 0x138 ?s3 = Some (the ?move)"
    by (auto simp: effect_def shape_def bind_simps simp del: operand_place.simps vals.simps)
  then have "mem (the ?move) x = ?m x" if "x \<notin> span 0x138 4" for x
    using store_mem_outside that start by fastforce
  moreover have "0x108 + of_nat i \<notin> span 0x138 4" if "i < 22" for i
  proof -
    have "list_all (\<lambda>i. 0x108 + of_nat i \<notin> set [0x138, 0x139, 0x13a, 0x13b :: addr]) [0..<22]" by code_simp
    moreover have "span 0x138 4 = set [0x138, 0x139, 0x13a, 0x13b :: addr]" by (simp add: eval_nat_numeral)
    ultimately show ?thesis using that unfolding list_all_iff by force
  qed
  ultimately have "intact ?m 0x108 22 (the ?move)" by (simp add: intact_def)
  then have ok4: "?ok (the ?move)" by (simp add: a)
  have run: "psteps demo_program ?st ?T ?ok zero_host (0, ?loop 2) (5, the ?move)"
    using lab [of "?loop 2"] dec [of 2] again lab [of "?loop 1"] dec [of 1] fwd push mv
    by (auto intro: converse_rtranclp_into_rtranclp)
  have "?loop 2 = demo_start" by (simp add: demo_start_def)
  with run have run: "psteps demo_program ?st ?T ?ok zero_host (0, demo_start) (5, the ?move)" by simp
  from compiled_program_returns [OF demo_compiled demo_ready demo_supported demo_placed(1-4) demo_link(11) demo_placed(5)
      demo_link(1-10)]
  obtain c4 m' where c4: "copySections 0x100 demo_c3 demo_ram = Some (c4, m')" and all: "\<And>h s k s'.
      psteps demo_program ?st ?T (intact m' (bytePtr (sections c4 ! 2)) (bytePos (sections demo_c ! 2))) h (0, s) (k, s') \<Longrightarrow>
      k < length demo_program \<Longrightarrow> demo_program ! k = ReturnInstruction EXIT_FORM \<Longrightarrow>
      intact m' (bytePtr (sections c4 ! 2)) (bytePos (sections demo_c ! 2)) s' \<Longrightarrow>
      execByteCode h s (bytePtr (sections c4 ! 2) + of_nat (bytePos (sections (code (gen demo_gen)) ! 2))) = Some (Return s')"
    by blast
  have "c4 = ?c4" "m' = ?m" using c4 by simp_all
  with all [of zero_host demo_start 5 "the ?move"] run ok4 ins(6) len a have "execByteCode zero_host demo_start 0x109 = Some (Return (the ?move))"
    by simp
  with fin show ?thesis by blast
qed

subsection \<open>The stack pointer that the generator tracks\<close>

primrec sp_free :: "Loc \<Rightarrow> bool" where
  "sp_free (Register i) \<longleftrightarrow> (ucast i :: byte) \<noteq> 3"
| "sp_free SpecialLoc \<longleftrightarrow> True"
| "sp_free (StaticLoc i) \<longleftrightarrow> True"
| "sp_free (StackLoc f off sz) \<longleftrightarrow> True"
| "sp_free (CompLoc l rs k) \<longleftrightarrow> sp_free l"
| "sp_free (CellCompLoc l rs k) \<longleftrightarrow> sp_free l"
| "sp_free (IndLoc l) \<longleftrightarrow> sp_free l"
| "sp_free (IndexedByConst r l k) \<longleftrightarrow> sp_free l"
| "sp_free (IndexedByLoc r l k) \<longleftrightarrow> sp_free l \<and> sp_free k"

lemma retReg_sp: "retReg t k = UseReg R_sp \<Longrightarrow> k = 3"
  by (cases t) (auto simp: retPtrReg_def split: if_splits)

lemma sp_free_place: "sp_free l \<Longrightarrow> loc_place T st s l offset t \<noteq> Some (InReg R_sp)"
  by (induction l arbitrary: offset t) (auto simp: bind_simps dest: retReg_sp split: reg_operand.splits if_splits)

lemma read_place_sp: "pl \<noteq> InReg R_sp \<Longrightarrow> read_place t (s\<lparr>sp := v\<rparr>) pl = read_place t s pl"
proof (cases pl)
  case (InReg r)
  moreover assume "pl \<noteq> InReg R_sp"
  ultimately show ?thesis by (cases r) simp_all
qed (simp_all add: load_mem_def)

lemma sp_free_read:
  "sp_free l \<Longrightarrow> Option.bind (loc_place T st s l offset t) (\<lambda>p. Option.bind (read_place t' (s\<lparr>sp := v\<rparr>) p) f)
     = Option.bind (loc_place T st s l offset t) (\<lambda>p. Option.bind (read_place t' s p) f)"
  using sp_free_place [of l T st s offset t] read_place_sp by (cases "loc_place T st s l offset t") auto

lemma adjust_places:
  assumes "sp_free l" "slots st' = slots st" "stackPtr st' = stackPtr st + d"
  shows "loc_place T st' (s\<lparr>sp := sp s - d\<rparr>) l offset t = loc_place T st s l offset t"
  using assms(1)
proof (induction l arbitrary: offset t)
  case (StackLoc f off sz)
  then show ?case using assms by (simp add: algebra_simps)
qed (use assms(2) in \<open>simp_all add: sp_free_read\<close>)

text \<open>C11: the code of a stack adjustment, linked and in memory, moves the machine's stack pointer by the amount
  the generator tracks, changes nothing else and goes on behind the code, so that every location is where it was.
  Only a location that is kept in the register of the stack pointer itself, or reached through it, is excepted.\<close>

theorem compiled_adjust_keeps_places:
  assumes gen: "compile_instruction (StackAdjustInstruction d) g = Some g'" "ready sec seg g"
    and later: "sec < length (sections c)" "extends (bytes (sections (code (gen g')) ! sec)) (bytes (sections c ! sec))"
      "set (backPatchList (code (gen g'))) \<subseteq> set (backPatchList c)"
      "\<forall>e \<in> set (backPatchList c). posSection e = sec \<longrightarrow>
         e \<in> set (backPatchList (code (gen g'))) \<or> bytePos (sections (code (gen g')) ! sec) \<le> bp_pos e"
    and earlier: "\<forall>e \<in> set (backPatchList (code (gen g))). posSection e = sec \<longrightarrow>
         bp_pos e + 4 \<le> bytePos (sections (code (gen g)) ! sec)"
    and link: "setSectionOrigins c = (c1, sz)" "setSegmentLengths segs c1 = Some c2"
      "apply_patches (backPatchList c2) (c2\<lparr>backPatchList := []\<rparr>) = Some c3"
      "sorted_wrt apart (backPatchList c)" "\<forall>e \<in> set (backPatchList c). patch_ok c e" "segments_ok c"
      "p AND 3 = 0" "sz < 2 ^ 32" "span p sz \<subseteq> dom m"
    and kept: "bytes (sections c2 ! sec) = bytes (sections c ! sec)"
  shows "\<exists>c4 m'. copySections p c3 m = Some (c4, m')
    \<and> (\<forall>h s. intact m' (bytePtr (sections c4 ! sec)) (bytePos (sections c ! sec)) s \<longrightarrow>
      (\<exists>s'. exec_instr h s (bytePtr (sections c4 ! sec) + of_nat (bytePos (sections (code (gen g)) ! sec)))
          = Some (Next s' (bytePtr (sections c4 ! sec) + of_nat (bytePos (sections (code (gen g')) ! sec))))
        \<and> s' = s\<lparr>sp := sp s - d\<rparr>
        \<and> (\<forall>T l offset t. sp_free l \<longrightarrow> loc_place T (gen g') s' l offset t = loc_place T (gen g) s l offset t)))"
proof -
  have "slots (gen g') = slots (gen g)"
    using gen(1) by (auto simp: compile_instruction_def genStackAdjust_def genOpCode_def asm_def on_gen_def emit_def Let_def bind_simps)
  with adjust_code [OF gen] have "loc_place T (gen g') (s\<lparr>sp := sp s - d\<rparr>) l offset t = loc_place T (gen g) s l offset t"
    if "sp_free l" for T s l offset t
    by (intro adjust_places that) simp_all
  with adjust_linked [OF gen later earlier link kept] show ?thesis by blast
qed

lemma compiled_adjust_keeps_places_witness:
  "\<exists>c4 m'. copySections 0x100 demo_c3 demo_ram = Some (c4, m')
     \<and> (\<forall>h s. intact m' (bytePtr (sections c4 ! 2)) 22 s \<longrightarrow>
        exec_instr h s (bytePtr (sections c4 ! 2) + 12) = Some (Next (s\<lparr>sp := sp s - 4\<rparr>) (bytePtr (sections c4 ! 2) + 14))
        \<and> (\<forall>T. loc_place T (gen (demo_code 4)) (s\<lparr>sp := sp s - 4\<rparr>) (IndLoc (StackLoc False 0 4)) 8 TInt
             = loc_place T (gen (demo_code 3)) s (IndLoc (StackLoc False 0 4)) 8 TInt))"
proof -
  have "demo_program ! 3 = StackAdjustInstruction 4" by (simp add: demo_program_def)
  then have i: "compile_instruction (StackAdjustInstruction 4) (demo_code 3) = Some (demo_code 4)" using demo_instruction [of 3] by simp
  have r: "ready 2 0 (demo_code 3)"
    using demo_in_code [of 3] advances_after(1) [OF demo_compiled demo_ready demo_supported, of 3] by (simp add: advances_def)
  have p: "bytePos (sections (code (gen (demo_code 3))) ! 2) = 12" "bytePos (sections (code (gen (demo_code 4))) ! 2) = 14"
    "bytePos (sections demo_c ! 2) = 22" by code_simp+
  have k: "3 < length demo_program" "Suc 3 = 4" by (simp_all add: demo_program_def)
  note pl = placed_instruction [OF demo_compiled demo_ready demo_supported k(1) demo_placed(1-4), unfolded k(2)]
  have "sp_free (IndLoc (StackLoc False 0 4))" by simp
  with compiled_adjust_keeps_places [OF i r demo_link(11) pl(3-6) demo_link(1-10)] show ?thesis
    unfolding p by (auto simp del: loc_place.simps)
qed

end
