(* ===== verification/MSA.thy ===== *)
theory MSA
  imports Prelude Memory
begin

text \<open>
  The memory segment allocator (header/MSA.h and API/MSA), from which the cells and the stacks of the
  virtual machine are taken.

  The words of the data areas are a partial map from addresses: a segment has its length, with the
  flag of an allocated segment, at its address, and a free one the address of the next free segment
  behind it. An access outside the blocks is None. The header of a block is a record; the list that
  \<open>_hdBlk\<close>, \<open>_tlBlk\<close>, \<open>_prev\<close> and \<open>_next\<close> make is the list of these records, and a pointer to a
  block its address, 0 for NULL. The operating system's \<open>new\<close> is a parameter: given a length it
  returns an address with the initial contents, or NULL.

  The second part gives the state an abstract reading, a list of segments for every block, in which
  allocation takes the first segment that fits and freeing fuses adjacent free segments. The operations
  on words implement it, never leave the blocks, and always return.
\<close>

subsection \<open>State\<close>

type_synonym words = "addr \<Rightarrow> u32 option"
type_synonym new_op = "u32 \<Rightarrow> (addr \<times> (addr \<Rightarrow> u32)) option"

record SegBlk =
  blk_base :: addr
  blk_len :: u32
  maxFreeSegLen :: u32
  nAllocSeg :: u32
  nFreeSeg :: u32
  hdFreeSeg :: addr

record MSA =
  blkLen :: u32
  nBlk :: u32
  nSeg :: u32
  msa_limit :: u32
  totUse :: u32
  maxUse :: u32
  currUse :: u32
  blks :: "SegBlk list"
  currBlk :: addr
  errCode :: int
  words :: words

definition MSA_BLK_HDR_LENGTH :: u32 where
  "MSA_BLK_HDR_LENGTH = 28"

definition blk_data :: "SegBlk \<Rightarrow> addr" where
  "blk_data b = blk_base b + MSA_BLK_HDR_LENGTH"

definition store_word :: "addr \<Rightarrow> u32 \<Rightarrow> words \<Rightarrow> words option" where
  "store_word a v h = (if h a = None then None else Some (h(a \<mapsto> v)))"

text \<open>The words from \<open>a\<close> on that lie within \<open>n\<close> bytes.\<close>

definition word_of_block :: "addr \<Rightarrow> u32 \<Rightarrow> addr \<Rightarrow> bool" where
  "word_of_block a n x \<longleftrightarrow> (x - a) AND 3 = 0 \<and> unat (x - a) + 4 \<le> unat n"

subsection \<open>Construction and blocks\<close>

definition MSA_new :: "u32 \<Rightarrow> MSA" where
  "MSA_new len = \<lparr>blkLen = MSA_BLK_HDR_LENGTH + 8 * (((len - MSA_BLK_HDR_LENGTH) + 7) div 8),
     nBlk = 0, nSeg = 0, msa_limit = 0, totUse = 0, maxUse = 0, currUse = 0, blks = [], currBlk = 0,
     errCode = 0, words = (\<lambda>_. None)\<rparr>"

definition MSA_delete :: "MSA \<Rightarrow> MSA" where
  "MSA_delete m = m\<lparr>blks := [], words := (\<lambda>_. None)\<rparr>"

definition allocLen :: "u32 \<Rightarrow> u32" where
  "allocLen reqLen = 8 * ((reqLen + 4 + 7) div 8)"

definition addBlk_len :: "u32 \<Rightarrow> MSA \<Rightarrow> u32" where
  "addBlk_len reqLen m = (if blkLen m < reqLen + MSA_BLK_HDR_LENGTH then reqLen + MSA_BLK_HDR_LENGTH else blkLen m)"

definition addBlk :: "new_op \<Rightarrow> u32 \<Rightarrow> MSA \<Rightarrow> (int \<times> MSA) option" where
  "addBlk os reqLen m =
     (let len = addBlk_len reqLen m;
          over = (msa_limit m \<noteq> 0 \<and> msa_limit m < totUse m + len);
          len = (if over then msa_limit m - totUse m else len) in
      if over \<and> len < reqLen then Some (-1, m)
      else case os len of
        None \<Rightarrow> Some (-1, m)
      | Some (base, contents) \<Rightarrow>
          if len < MSA_BLK_HDR_LENGTH then None
          else do {
            let seg = base + MSA_BLK_HDR_LENGTH;
            let free = len - MSA_BLK_HDR_LENGTH;
            let h = (\<lambda>x. if word_of_block seg free x then Some (contents x) else words m x);
            h \<leftarrow> store_word seg free h;
            h \<leftarrow> store_word (seg + 4) 0 h;
            Some (0, m\<lparr>blks := blks m @ [\<lparr>blk_base = base, blk_len = len, maxFreeSegLen = free, nAllocSeg = 0,
                nFreeSeg = 1, hdFreeSeg = seg\<rparr>], totUse := totUse m + len, nBlk := nBlk m + 1, words := h\<rparr>) })"

subsection \<open>Allocation\<close>

text \<open>The loop of \<open>SegBlk::fstFit\<close>: the length of the longest free segment, or the first one that is long
  enough with its predecessor.\<close>

partial_function (option) fstFit_loop :: "u32 \<Rightarrow> u32 \<Rightarrow> addr \<Rightarrow> addr \<Rightarrow> words \<Rightarrow> (u32 + addr \<times> addr \<times> u32) option" where
  [code]: "fstFit_loop reqLen mx prev cur h = do {
     len \<leftarrow> h cur;
     if reqLen \<le> len then Some (Inr (prev, cur, len))
     else do {
       let mx = (if mx < len then len else mx);
       next \<leftarrow> h (cur + 4);
       if next = 0 then Some (Inl mx) else fstFit_loop reqLen mx cur next h } }"

definition take_seg :: "u32 \<Rightarrow> addr \<Rightarrow> u32 \<Rightarrow> SegBlk \<Rightarrow> words \<Rightarrow> (addr \<times> SegBlk \<times> words) option" where
  "take_seg reqLen cur len b h =
     (if reqLen = len then do {
        h \<leftarrow> store_word cur (len OR 1) h;
        next \<leftarrow> h (cur + 4);
        let b = b\<lparr>nFreeSeg := nFreeSeg b - 1\<rparr>;
        Some (next, if nFreeSeg b = 0 then b\<lparr>maxFreeSegLen := 0\<rparr> else b, h) }
      else do {
        h \<leftarrow> store_word cur (reqLen OR 1) h;
        let next = cur + reqLen;
        h \<leftarrow> store_word next (len - reqLen) h;
        n \<leftarrow> h (cur + 4);
        h \<leftarrow> store_word (next + 4) n h;
        Some (next, if nFreeSeg b = 1 then b\<lparr>maxFreeSegLen := len - reqLen\<rparr> else b, h) })"

definition set_next :: "addr \<Rightarrow> addr \<Rightarrow> SegBlk \<Rightarrow> words \<Rightarrow> (SegBlk \<times> words) option" where
  "set_next prev next b h =
     (if prev \<noteq> 0 then do { h \<leftarrow> store_word (prev + 4) next h; Some (b, h) } else Some (b\<lparr>hdFreeSeg := next\<rparr>, h))"

definition fstFit :: "u32 \<Rightarrow> SegBlk \<Rightarrow> words \<Rightarrow> (addr \<times> SegBlk \<times> words) option" where
  "fstFit reqLen b h = do {
     r \<leftarrow> fstFit_loop reqLen 0 0 (hdFreeSeg b) h;
     case r of
       Inl mx \<Rightarrow> Some (0, b\<lparr>maxFreeSegLen := mx\<rparr>, h)
     | Inr (prev, cur, len) \<Rightarrow> do {
         (next, b, h) \<leftarrow> take_seg reqLen cur len b h;
         (b, h) \<leftarrow> set_next prev next b h;
         Some (cur, b\<lparr>nAllocSeg := nAllocSeg b + 1\<rparr>, h) } }"

text \<open>The two searches of \<open>MSA::alloc\<close> visit blocks in an order of positions.\<close>

primrec search :: "u32 \<Rightarrow> nat list \<Rightarrow> MSA \<Rightarrow> ((nat \<times> addr) option \<times> MSA) option" where
  "search reqLen [] m = Some (None, m)"
| "search reqLen (i # is) m =
     (let b = blks m ! i in
      if hdFreeSeg b \<noteq> 0 \<and> reqLen \<le> maxFreeSegLen b then do {
        (descr, b, h) \<leftarrow> fstFit reqLen b (words m);
        let m = m\<lparr>blks := (blks m)[i := b], words := h\<rparr>;
        if descr \<noteq> 0 then Some (Some (i, descr), m) else search reqLen is m }
      else search reqLen is m)"

primrec blk_index :: "addr \<Rightarrow> SegBlk list \<Rightarrow> nat option" where
  "blk_index a [] = None"
| "blk_index a (b # bs) = (if blk_base b = a then Some 0 else map_option Suc (blk_index a bs))"

definition hdBlk :: "MSA \<Rightarrow> addr" where
  "hdBlk m = (case blks m of [] \<Rightarrow> 0 | b # _ \<Rightarrow> blk_base b)"

definition search_all :: "u32 \<Rightarrow> MSA \<Rightarrow> ((nat \<times> addr) option \<times> MSA) option" where
  "search_all reqLen m =
     (if currBlk m = 0 then Some (None, m)
      else do {
        let m = (if currUse m * 5 < totUse m * 4 then m\<lparr>currBlk := hdBlk m\<rparr> else m);
        i \<leftarrow> blk_index (currBlk m) (blks m);
        (found, m) \<leftarrow> search reqLen [i..<length (blks m)] m;
        (case found of Some r \<Rightarrow> Some (Some r, m) | None \<Rightarrow> search reqLen (rev [0..<i]) m) })"

definition allocated_from :: "u32 \<Rightarrow> nat \<Rightarrow> addr \<Rightarrow> MSA \<Rightarrow> addr \<times> MSA" where
  "allocated_from reqLen i descr m =
     (let use = currUse m + reqLen in
      (descr + 4, m\<lparr>currBlk := blk_base (blks m ! i), nSeg := nSeg m + 1, currUse := use,
         maxUse := (if maxUse m < use then use else maxUse m)\<rparr>))"

definition alloc :: "new_op \<Rightarrow> u32 \<Rightarrow> MSA \<Rightarrow> (addr \<times> MSA) option" where
  "alloc os reqLen m =
     (if reqLen = 0 then Some (0, m)
      else do {
        let reqLen = allocLen reqLen;
        (found, m) \<leftarrow> search_all reqLen m;
        (case found of
          Some (i, descr) \<Rightarrow> Some (allocated_from reqLen i descr m)
        | None \<Rightarrow> do {
            (res, m) \<leftarrow> addBlk os reqLen m;
            if res < 0 then Some (0, m\<lparr>errCode := res\<rparr>)
            else do {
              let i = length (blks m) - 1;
              (descr, b, h) \<leftarrow> fstFit reqLen (blks m ! i) (words m);
              let m = m\<lparr>blks := (blks m)[i := b], words := h\<rparr>;
              Some (if descr = 0 then (0, m) else allocated_from reqLen i descr m) } }) })"

subsection \<open>Freeing and checking\<close>

definition in_block :: "addr \<Rightarrow> SegBlk \<Rightarrow> bool" where
  "in_block a b \<longleftrightarrow> blk_data b \<le> a \<and> a < blk_base b + blk_len b"

definition queryBlk :: "addr \<Rightarrow> MSA \<Rightarrow> nat option option" where
  "queryBlk descr m = do {
     i \<leftarrow> blk_index (currBlk m) (blks m);
     Some (if in_block descr (blks m ! i) then Some i
           else find (\<lambda>i. in_block descr (blks m ! i)) (rev [0..<length (blks m)])) }"

partial_function (option) free_pos :: "addr \<Rightarrow> addr \<Rightarrow> addr \<Rightarrow> words \<Rightarrow> (addr \<times> addr) option" where
  [code]: "free_pos freeSeg prev cur h =
     (if cur \<noteq> 0 \<and> cur < freeSeg then do { next \<leftarrow> h (cur + 4); free_pos freeSeg cur next h }
      else Some (prev, cur))"

definition raise_max :: "u32 \<Rightarrow> SegBlk \<Rightarrow> SegBlk" where
  "raise_max len b = (if maxFreeSegLen b < len then b\<lparr>maxFreeSegLen := len\<rparr> else b)"

definition join_next :: "addr \<Rightarrow> addr \<Rightarrow> SegBlk \<Rightarrow> words \<Rightarrow> (SegBlk \<times> words) option" where
  "join_next freeSeg cur b h = do {
     len \<leftarrow> h freeSeg;
     if freeSeg + len = cur then do {
       n \<leftarrow> h cur;
       h \<leftarrow> store_word freeSeg (len + n) h;
       next \<leftarrow> h (cur + 4);
       h \<leftarrow> store_word (freeSeg + 4) next h;
       Some (b, h) }
     else do {
       h \<leftarrow> store_word (freeSeg + 4) cur h;
       Some (b\<lparr>nFreeSeg := nFreeSeg b + 1\<rparr>, h) } }"

definition join_prev :: "addr \<Rightarrow> addr \<Rightarrow> SegBlk \<Rightarrow> words \<Rightarrow> (SegBlk \<times> words) option" where
  "join_prev freeSeg prev b h = do {
     len \<leftarrow> h freeSeg;
     adjacent \<leftarrow> (if prev \<noteq> 0 then do { n \<leftarrow> h prev; Some (prev + n = freeSeg) } else Some False);
     if adjacent then do {
       n \<leftarrow> h prev;
       h \<leftarrow> store_word prev (n + len) h;
       next \<leftarrow> h (freeSeg + 4);
       h \<leftarrow> store_word (prev + 4) next h;
       let b = raise_max (n + len) b;
       Some (b\<lparr>nFreeSeg := nFreeSeg b - 1\<rparr>, h) }
     else do {
       (b, h) \<leftarrow> set_next prev freeSeg b h;
       Some (raise_max len b, h) } }"

definition drop_blk :: "nat \<Rightarrow> MSA \<Rightarrow> MSA" where
  "drop_blk i m =
     (let b = blks m ! i;
          m' = m\<lparr>totUse := totUse m - blk_len b, nBlk := nBlk m - 1, blks := take i (blks m) @ drop (Suc i) (blks m),
            words := (\<lambda>x. if word_of_block (blk_data b) (blk_len b - MSA_BLK_HDR_LENGTH) x then None else words m x)\<rparr> in
      if currBlk m = blk_base b then m'\<lparr>currBlk := hdBlk m'\<rparr> else m')"

definition free :: "addr \<Rightarrow> MSA \<Rightarrow> (int \<times> MSA) option" where
  "free seg m =
     (if seg = 0 then Some (0, m)
      else do {
        let freeSeg = seg - 4;
        len \<leftarrow> words m freeSeg;
        if len AND 1 = 0 then Some (-1, m)
        else do {
          h \<leftarrow> store_word freeSeg (len AND NOT 1) (words m);
          let m = m\<lparr>words := h\<rparr>;
          q \<leftarrow> queryBlk freeSeg m;
          (case q of
            None \<Rightarrow> Some (-1, m)
          | Some i \<Rightarrow> do {
              let m = m\<lparr>nSeg := nSeg m - 1, currUse := currUse m - (len AND NOT 1)\<rparr>;
              let b = (blks m ! i)\<lparr>nAllocSeg := nAllocSeg (blks m ! i) - 1\<rparr>;
              let m = m\<lparr>blks := (blks m)[i := b]\<rparr>;
              if nAllocSeg b = 0 then Some (0, drop_blk i m)
              else do {
                (prev, cur) \<leftarrow> free_pos freeSeg 0 (hdFreeSeg b) h;
                (b, h) \<leftarrow> join_next freeSeg cur b h;
                (b, h) \<leftarrow> join_prev freeSeg prev b h;
                Some (0, m\<lparr>blks := (blks m)[i := b], words := h\<rparr>) } }) } })"

partial_function (option) check_loop :: "addr \<Rightarrow> words \<Rightarrow> int option" where
  [code]: "check_loop cur h = do {
     len \<leftarrow> h cur;
     if len < 8 then Some (-1)
     else do {
       next \<leftarrow> h (cur + 4);
       if next = 0 then Some 0 else check_loop next h } }"

definition check_blk :: "words \<Rightarrow> SegBlk \<Rightarrow> int option" where
  "check_blk h b = (if hdFreeSeg b = 0 then Some 0 else check_loop (hdFreeSeg b) h)"

primrec check_blks :: "words \<Rightarrow> SegBlk list \<Rightarrow> int option" where
  "check_blks h [] = Some 0"
| "check_blks h (b # bs) = do {
     r \<leftarrow> check_blk h b;
     if r \<noteq> 0 then Some (-1) else check_blks h bs }"

definition check :: "MSA \<Rightarrow> int option" where
  "check m = check_blks (words m) (blks m)"

subsection \<open>Segments of a block\<close>

text \<open>A segment is its length and whether it is allocated. Lengths are multiples of the quantum.\<close>

type_synonym seg = "nat \<times> bool"

primrec seg_total :: "seg list \<Rightarrow> nat" where
  "seg_total [] = 0"
| "seg_total (s # ss) = fst s + seg_total ss"

primrec frees :: "nat \<Rightarrow> seg list \<Rightarrow> (nat \<times> nat) list" where
  "frees off [] = []"
| "frees off (s # ss) = (if snd s then [] else [(off, fst s)]) @ frees (off + fst s) ss"

definition quanta :: "seg list \<Rightarrow> bool" where
  "quanta ss \<longleftrightarrow> (\<forall>s \<in> set ss. 8 dvd fst s \<and> 8 \<le> fst s)"

fun coalesced :: "seg list \<Rightarrow> bool" where
  "coalesced (s # t # ss) \<longleftrightarrow> (snd s \<or> snd t) \<and> coalesced (t # ss)"
| "coalesced _ \<longleftrightarrow> True"

definition n_alloc :: "seg list \<Rightarrow> nat" where
  "n_alloc ss = length (filter snd ss)"

definition n_free :: "seg list \<Rightarrow> nat" where
  "n_free ss = length (filter (\<lambda>s. \<not> snd s) ss)"

definition used :: "seg list \<Rightarrow> nat" where
  "used ss = seg_total (filter snd ss)"

lemma seg_total_append [simp]: "seg_total (xs @ ys) = seg_total xs + seg_total ys"
  by (induction xs) auto

lemma frees_append [simp]: "frees off (xs @ ys) = frees off xs @ frees (off + seg_total xs) ys"
  by (induction xs arbitrary: off) (auto simp: add.assoc)

lemma frees_bounds: "p \<in> set (frees off ss) \<Longrightarrow> off \<le> fst p \<and> fst p + snd p \<le> off + seg_total ss"
proof (induction ss arbitrary: off)
  case (Cons s ss)
  from Cons.prems consider "p = (off, fst s)" | "p \<in> set (frees (off + fst s) ss)" by (auto split: if_splits)
  then show ?case by cases (use Cons.IH [of "off + fst s"] in simp_all)
qed simp

lemma quanta_simps [simp]: "quanta []" "quanta (s # ss) \<longleftrightarrow> 8 dvd fst s \<and> 8 \<le> fst s \<and> quanta ss"
    "quanta (xs @ ys) \<longleftrightarrow> quanta xs \<and> quanta ys"
  by (auto simp: quanta_def)

lemma quanta_total: "quanta ss \<Longrightarrow> 8 dvd seg_total ss"
  by (induction ss) (auto simp: dvd_add)

lemma frees_quanta: "quanta ss \<Longrightarrow> 8 dvd off \<Longrightarrow> p \<in> set (frees off ss) \<Longrightarrow> 8 dvd fst p \<and> 8 dvd snd p \<and> 8 \<le> snd p"
proof (induction ss arbitrary: off)
  case (Cons s ss)
  from Cons.prems(3) consider "p = (off, fst s)" | "p \<in> set (frees (off + fst s) ss)" by (auto split: if_splits)
  then show ?case by cases (use Cons.IH [of "off + fst s"] Cons.prems in simp_all)
qed simp

lemma frees_set: "p \<in> set (frees off ss) \<Longrightarrow> (snd p, False) \<in> set ss"
  by (induction ss arbitrary: off) (auto split: if_splits)

lemma in_frees: "(n, False) \<in> set ss \<Longrightarrow> \<exists>p \<in> set (frees off ss). snd p = n"
  by (induction ss arbitrary: off) (auto split: if_splits)

lemma counts_simps [simp]:
  "n_alloc [] = 0" "n_alloc (s # ss) = of_bool (snd s) + n_alloc ss" "n_alloc (xs @ ys) = n_alloc xs + n_alloc ys"
  "n_free [] = 0" "n_free (s # ss) = of_bool (\<not> snd s) + n_free ss" "n_free (xs @ ys) = n_free xs + n_free ys"
  "used [] = 0" "used (s # ss) = (if snd s then fst s else 0) + used ss" "used (xs @ ys) = used xs + used ys"
  by (simp_all add: n_alloc_def n_free_def used_def)

lemma count_bounds: "quanta ss \<Longrightarrow> 8 * (n_alloc ss + n_free ss) \<le> seg_total ss"
  by (induction ss) auto

lemma used_total: "used ss \<le> seg_total ss"
  by (induction ss) auto

lemma n_free_frees: "n_free ss = length (frees off ss)"
  by (induction ss arbitrary: off) auto

text \<open>The abstract operations: the first segment that fits is carved, freeing fuses neighbours.\<close>

primrec carve :: "nat \<Rightarrow> seg list \<Rightarrow> (nat \<times> seg list) option" where
  "carve req [] = None"
| "carve req (s # ss) =
     (if \<not> snd s \<and> req \<le> fst s
      then Some (0, (req, True) # (if fst s = req then [] else [(fst s - req, False)]) @ ss)
      else map_option (\<lambda>(off, ts). (off + fst s, s # ts)) (carve req ss))"

fun fuse :: "seg list \<Rightarrow> seg list" where
  "fuse ((n, False) # (k, False) # ss) = fuse ((n + k, False) # ss)"
| "fuse (s # ss) = s # fuse ss"
| "fuse [] = []"

primrec mark_free :: "nat \<Rightarrow> seg list \<Rightarrow> seg list option" where
  "mark_free off [] = None"
| "mark_free off (s # ss) =
     (if off = 0 then (if snd s then Some ((fst s, False) # ss) else None)
      else if off < fst s then None else map_option ((#) s) (mark_free (off - fst s) ss))"

definition release :: "nat \<Rightarrow> seg list \<Rightarrow> seg list option" where
  "release off ss = map_option fuse (mark_free off ss)"

lemma carve_None: "carve req ss = None \<longleftrightarrow> (\<forall>n. (n, False) \<in> set ss \<longrightarrow> n < req)"
  by (induction ss) (auto split: if_splits)

lemma carve_Some:
  "carve req ss = Some (off, ts) \<Longrightarrow> \<exists>xs n ys. ss = xs @ (n, False) # ys \<and> off = seg_total xs \<and> req \<le> n
     \<and> (\<forall>k. (k, False) \<in> set xs \<longrightarrow> k < req)
     \<and> ts = xs @ (req, True) # (if n = req then [] else [(n - req, False)]) @ ys"
proof (induction ss arbitrary: off ts)
  case (Cons s ss)
  show ?case
  proof (cases "\<not> snd s \<and> req \<le> fst s")
    case True
    then show ?thesis using Cons.prems by (intro exI [of _ "[]"] exI [of _ "fst s"] exI [of _ ss]) (cases s, auto)
  next
    case False
    with Cons.prems obtain o' ts' where c: "carve req ss = Some (o', ts')" "off = o' + fst s" "ts = s # ts'" by auto
    from Cons.IH [OF c(1)] obtain xs n ys where "ss = xs @ (n, False) # ys" "o' = seg_total xs" "req \<le> n"
      "\<forall>k. (k, False) \<in> set xs \<longrightarrow> k < req"
      "ts' = xs @ (req, True) # (if n = req then [] else [(n - req, False)]) @ ys" by blast
    with c False show ?thesis by (intro exI [of _ "s # xs"] exI [of _ n] exI [of _ ys]) auto
  qed
qed simp

lemma mark_free_Some:
  "mark_free off ss = Some ts \<longleftrightarrow> (\<exists>xs n ys. ss = xs @ (n, True) # ys \<and> off = seg_total xs \<and> ts = xs @ (n, False) # ys)" if "quanta ss"
  using that
proof (induction ss arbitrary: off ts)
  case (Cons s ss)
  show ?case
  proof
    assume r: "mark_free off (s # ss) = Some ts"
    show "\<exists>xs n ys. s # ss = xs @ (n, True) # ys \<and> off = seg_total xs \<and> ts = xs @ (n, False) # ys"
    proof (cases "off = 0")
      case True
      then show ?thesis using r by (intro exI [of _ "[]"] exI [of _ "fst s"] exI [of _ ss]) (cases s, auto split: if_splits)
    next
      case False
      with r obtain ts' where t: "mark_free (off - fst s) ss = Some ts'" "ts = s # ts'" "fst s \<le> off" by (auto split: if_splits)
      from t(1) Cons obtain xs n ys where "ss = xs @ (n, True) # ys" "off - fst s = seg_total xs" "ts' = xs @ (n, False) # ys" by auto
      with t show ?thesis by (intro exI [of _ "s # xs"] exI [of _ n] exI [of _ ys]) auto
    qed
  next
    assume "\<exists>xs n ys. s # ss = xs @ (n, True) # ys \<and> off = seg_total xs \<and> ts = xs @ (n, False) # ys"
    then obtain xs n ys where x: "s # ss = xs @ (n, True) # ys" "off = seg_total xs" "ts = xs @ (n, False) # ys" by blast
    show "mark_free off (s # ss) = Some ts"
    proof (cases xs)
      case Nil
      then show ?thesis using x by auto
    next
      case (Cons t xs')
      then have "ss = xs' @ (n, True) # ys" "s = t" using x by auto
      then have "mark_free (seg_total xs') ss = Some (xs' @ (n, False) # ys)" using Cons.IH Cons.prems by auto
      then show ?thesis using x Cons Cons.prems \<open>s = t\<close> by auto
    qed
  qed
qed simp

subsection \<open>Segments in memory\<close>

text \<open>The words of a data area by their offset.\<close>

definition view :: "words \<Rightarrow> addr \<Rightarrow> nat \<Rightarrow> nat \<Rightarrow> u32 option" where
  "view h d n off = (if off < n then h (d + of_nat off) else None)"

definition seg_word :: "seg \<Rightarrow> u32" where
  "seg_word s = of_nat (fst s) OR of_bool (snd s)"

primrec heads :: "(nat \<Rightarrow> u32 option) \<Rightarrow> nat \<Rightarrow> seg list \<Rightarrow> bool" where
  "heads w off [] \<longleftrightarrow> True"
| "heads w off (s # ss) \<longleftrightarrow> w off = Some (seg_word s) \<and> heads w (off + fst s) ss"

primrec links :: "(nat \<Rightarrow> u32 option) \<Rightarrow> addr \<Rightarrow> addr \<Rightarrow> nat list \<Rightarrow> bool" where
  "links w d p [] \<longleftrightarrow> p = 0"
| "links w d p (off # offs) \<longleftrightarrow> p = d + of_nat off \<and> (\<exists>q. w (off + 4) = Some q \<and> links w d q offs)"

text \<open>A data area does not wrap around, and none of its addresses is NULL.\<close>

definition area :: "addr \<Rightarrow> nat \<Rightarrow> bool" where
  "area d n \<longleftrightarrow> d \<noteq> 0 \<and> unat d + n < 2 ^ 32"

lemma area_unat: "area d n \<Longrightarrow> off \<le> n \<Longrightarrow> unat (d + of_nat off) = unat d + off"
  by (simp add: area_def unat_word_ariths unat_of_nat)

lemma area_simps:
  assumes "area d n" "i \<le> n" "j \<le> n"
  shows "d + of_nat i = d + of_nat j \<longleftrightarrow> i = j" "d + of_nat i < d + of_nat j \<longleftrightarrow> i < j" "d + of_nat i \<noteq> 0"
proof -
  note u = area_unat [OF assms(1,2)] area_unat [OF assms(1,3)]
  show "d + of_nat i = d + of_nat j \<longleftrightarrow> i = j"
    using u by (metis add_left_cancel)
  show "d + of_nat i < d + of_nat j \<longleftrightarrow> i < j" using u by (simp add: word_less_nat_alt)
  have "0 < unat d" using assms(1) by (simp add: area_def unat_gt_0)
  then show "d + of_nat i \<noteq> 0" using u(1) by auto
qed

lemma unat_small: "n < 2 ^ 32 \<Longrightarrow> unat (of_nat n :: u32) = n"
  by (simp add: unat_of_nat)

lemma view_store:
  assumes "area d n" "off < n"
  shows "view (h(d + of_nat off \<mapsto> v)) d n = (view h d n)(off \<mapsto> v)"
  using area_simps(1) [OF assms(1), of _ off] assms(2) by (auto simp: view_def fun_eq_iff)

lemma store_view:
  assumes "view h d n off = Some v"
  shows "store_word (d + of_nat off) u h = Some (h(d + of_nat off \<mapsto> u))"
  using assms by (auto simp: view_def store_word_def split: if_splits)

lemma seg_word_parts:
  assumes "8 dvd n" "n < 2 ^ 32"
  shows "seg_word (n, False) = of_nat n" "seg_word (n, True) = of_nat n OR 1"
    "(of_nat n OR 1) AND NOT 1 = (of_nat n :: u32)" "(of_nat n OR 1) AND 1 = (1 :: u32)" "of_nat n AND 1 = (0 :: u32)"
proof -
  obtain k where n: "n = 8 * k" using assms(1) by (auto simp: dvd_def)
  have b: "\<not> bit (of_nat n :: u32) 0" by (simp add: n bit_0)
  show "seg_word (n, False) = of_nat n" "seg_word (n, True) = of_nat n OR 1" by (simp_all add: seg_word_def)
  show "(of_nat n OR 1) AND NOT 1 = (of_nat n :: u32)" "(of_nat n OR 1) AND 1 = (1 :: u32)" "of_nat n AND 1 = (0 :: u32)"
    using b by - (rule bit_word_eqI; auto simp: bit_simps intro!: gr0I)+
qed

lemma heads_append [simp]: "heads w off (xs @ ys) \<longleftrightarrow> heads w off xs \<and> heads w (off + seg_total xs) ys"
  by (induction xs arbitrary: off) (auto simp: add.assoc)

text \<open>Lengths lie at multiples of 8, links between them.\<close>

lemma heads_frame:
  assumes "\<And>i. 8 dvd i \<Longrightarrow> off \<le> i \<Longrightarrow> i < off + seg_total ss \<Longrightarrow> w' i = w i" "quanta ss" "8 dvd off"
  shows "heads w' off ss = heads w off ss"
  using assms
proof (induction ss arbitrary: off)
  case (Cons s ss)
  have "heads w' (off + fst s) ss = heads w (off + fst s) ss"
    using Cons.prems by (intro Cons.IH) (auto simp: dvd_add)
  then show ?case using Cons.prems by auto
qed simp

lemma links_frame: "(\<And>i. i \<in> set offs \<Longrightarrow> w' (i + 4) = w (i + 4)) \<Longrightarrow> links w' d p offs = links w d p offs"
  by (induction offs arbitrary: p) auto

lemma heads_free: "heads w off ss \<Longrightarrow> (i, n) \<in> set (frees off ss) \<Longrightarrow> w i = Some (seg_word (n, False))"
proof (induction ss arbitrary: off)
  case (Cons s ss)
  from Cons.prems(2) consider "i = off" "n = fst s" "\<not> snd s" | "(i, n) \<in> set (frees (off + fst s) ss)"
    by (auto split: if_splits)
  then show ?case by cases (use Cons in \<open>auto simp: seg_word_def\<close>)
qed simp

text \<open>A new tail behind the last of some links.\<close>

lemma links_relink:
  assumes "links w d p (xs @ x # ys)" "links w d q zs" "distinct (xs @ [x])" "x \<notin> set zs"
  shows "links (w(x + 4 \<mapsto> q)) d p (xs @ x # zs)"
  using assms
proof (induction xs arbitrary: p)
  case Nil
  have "links (w(x + 4 \<mapsto> q)) d q zs = links w d q zs" by (rule links_frame) (use Nil.prems in auto)
  then show ?case using Nil by (auto simp: fun_upd_same simp del: fun_upd_apply)
next
  case (Cons a xs)
  from Cons.prems obtain r where r: "w (a + 4) = Some r" "links w d r (xs @ x # ys)" "p = d + of_nat a" by auto
  then have "links (w(x + 4 \<mapsto> q)) d r (xs @ x # zs)"
    by (intro Cons.IH [OF r(2) Cons.prems(2)]) (use Cons.prems in auto)
  moreover have "(w(x + 4 \<mapsto> q)) (a + 4) = Some r" using r(1) Cons.prems(3) by auto
  ultimately show ?case using r(3) by (auto simp del: fun_upd_apply)
qed

lemma links_tail: "links w d p (xs @ ys) \<Longrightarrow> \<exists>q. links w d q ys \<and> (xs = [] \<longrightarrow> q = p) \<and> (xs \<noteq> [] \<longrightarrow> w (last xs + 4) = Some q)"
proof (induction xs arbitrary: p)
  case (Cons x xs)
  then obtain q where q: "w (x + 4) = Some q" "links w d q (xs @ ys)" by auto
  from Cons.IH [OF q(2)] q(1) show ?case by auto
qed auto

subsection \<open>The loops over the free list\<close>

lemma fstFit_loop_miss:
  assumes "links (view h d n) d p (List.map fst fs)" "fs \<noteq> []" "area d n"
    and "\<And>i k. (i, k) \<in> set fs \<Longrightarrow> view h d n i = Some (of_nat k) \<and> i + 8 \<le> n \<and> k \<le> n \<and> (of_nat k :: u32) < req"
  shows "\<exists>mx'. fstFit_loop req mx prev p h = Some (Inl mx') \<and> mx \<le> mx' \<and> (\<forall>(i, k) \<in> set fs. of_nat k \<le> mx')"
  using assms
proof (induction fs arbitrary: p mx prev)
  case (Cons f fs)
  obtain i k where f: "f = (i, k)" by (cases f)
  from Cons.prems(1) obtain q where p: "p = d + of_nat i" and q: "view h d n (i + 4) = Some q" "links (view h d n) d q (List.map fst fs)"
    by (auto simp: f)
  have k: "view h d n i = Some (of_nat k)" "i + 8 \<le> n" "(of_nat k :: u32) < req" using Cons.prems(4) [of i k] f by auto
  have h: "h p = Some (of_nat k)" "h (p + 4) = Some q"
    using k q(1) by (auto simp: p view_def add.assoc split: if_splits)
  let ?mx = "if mx < of_nat k then of_nat k else mx :: u32"
  have mx: "mx \<le> ?mx" "of_nat k \<le> ?mx" by auto
  show ?case
  proof (cases fs)
    case Nil
    then have "q = 0" using q by simp
    then show ?thesis using h k mx Nil f by (subst fstFit_loop.simps) (auto simp: Let_def)
  next
    case (Cons g gs)
    then obtain j l where g: "fst g = j" and "q = d + of_nat j" "(j, snd g) \<in> set fs" using q(2) by (cases g) auto
    then have "q \<noteq> 0" using area_simps(3) [OF Cons.prems(3), of j] Cons.prems(4) [of j "snd g"] by auto
    moreover obtain mx' where "fstFit_loop req ?mx p q h = Some (Inl mx')" "?mx \<le> mx'" "\<forall>(i, k) \<in> set fs. of_nat k \<le> mx'"
      using Cons.IH [OF q(2) _ Cons.prems(3), of ?mx p] Cons.prems(4) Cons by auto
    ultimately show ?thesis using h k mx f
      by (subst fstFit_loop.simps) (auto simp: Let_def intro: order_trans)
  qed
qed simp

lemma fstFit_loop_hit:
  assumes "links (view h d n) d p (List.map fst (fs @ (i, k) # gs))" "area d n"
    and "\<And>j l. (j, l) \<in> set fs \<Longrightarrow> view h d n j = Some (of_nat l) \<and> j + 8 \<le> n \<and> (of_nat l :: u32) < req"
    and "view h d n i = Some (of_nat k)" "req \<le> of_nat k" "i + 8 \<le> n"
  shows "fstFit_loop req mx prev p h = Some (Inr (if fs = [] then prev else d + of_nat (fst (last fs)), d + of_nat i, of_nat k))"
  using assms(1,3)
proof (induction fs arbitrary: p mx prev)
  case Nil
  then have "h p = Some (of_nat k)" "p = d + of_nat i" using assms(4) by (auto simp: view_def split: if_splits)
  then show ?case using assms(5) by (subst fstFit_loop.simps) auto
next
  case (Cons f fs)
  obtain j l where f: "f = (j, l)" by (cases f)
  note prems = Cons.prems
  from prems(1) obtain q where p: "p = d + of_nat j" and q: "view h d n (j + 4) = Some q"
    "links (view h d n) d q (List.map fst (fs @ (i, k) # gs))" by (auto simp: f)
  have v: "view h d n j = Some (of_nat l)" "j + 8 \<le> n" "(of_nat l :: u32) < req" using Cons.prems(2) [of j l] f by auto
  have h: "h p = Some (of_nat l)" "h (p + 4) = Some q"
    using v q(1) by (auto simp: p view_def add.assoc split: if_splits)
  obtain j' where "q = d + of_nat j'" "j' + 8 \<le> n"
  proof (cases fs)
    case Nil
    then show ?thesis using q(2) assms(6) that [of i] by simp
  next
    case (Cons g fs')
    then show ?thesis using q(2) prems(2) [of "fst g" "snd g"] that [of "fst g"] by simp
  qed
  then have "q \<noteq> 0" using area_simps(3) [OF assms(2), of j'] by auto
  then show ?case
    using h v Cons.IH [OF q(2) Cons.prems(2), of _ p] by (subst fstFit_loop.simps) (auto simp: Let_def f p)
qed

subsection \<open>Changes within a data area\<close>

definition within :: "addr \<Rightarrow> nat set \<Rightarrow> words \<Rightarrow> words \<Rightarrow> bool" where
  "within d F h h' \<longleftrightarrow> (\<forall>a. a \<notin> (\<lambda>i. d + of_nat i) ` F \<longrightarrow> h' a = h a) \<and> dom h' = dom h"

lemma within_refl [simp, intro!]: "within d F h h"
  by (simp add: within_def)

lemma within_mono: "within d F h h' \<Longrightarrow> F \<subseteq> G \<Longrightarrow> within d G h h'"
  unfolding within_def by (meson image_mono subsetD)

lemma within_trans: "within d F h h1 \<Longrightarrow> within d G h1 h2 \<Longrightarrow> F \<union> G \<subseteq> H \<Longrightarrow> within d H h h2"
  unfolding within_def by (metis (no_types, lifting) image_mono subsetD Un_subset_iff)

lemma view_read: "view h d n off = Some v \<Longrightarrow> h (d + of_nat off) = Some v"
  by (simp add: view_def split: if_splits)

lemma store_at:
  assumes "view h d n off \<noteq> None" "area d n"
  shows "\<exists>h'. store_word (d + of_nat off) u h = Some h' \<and> view h' d n = (view h d n)(off \<mapsto> u) \<and> within d {off} h h'"
proof -
  from assms(1) obtain v where v: "view h d n off = Some v" by auto
  then have off: "off < n" by (simp add: view_def split: if_splits)
  have "h (d + of_nat off) \<noteq> None" using view_read [OF v] by simp
  then have "within d {off} h (h(d + of_nat off \<mapsto> u))" by (auto simp: within_def dom_def)
  with store_view [OF v] view_store [OF assms(2) off] show ?thesis by blast
qed

lemma take_seg_spec:
  assumes "area d n" "view h d n off = Some (of_nat k)" "view h d n (off + 4) = Some q"
    and "8 dvd k" "8 dvd req" "8 \<le> req" "req \<le> k" "8 dvd off" "off + k \<le> n"
    and "\<And>i. 4 dvd i \<Longrightarrow> i < n \<Longrightarrow> view h d n i \<noteq> None"
  shows "\<exists>h'. take_seg (of_nat req) (d + of_nat off) (of_nat k) b h =
        Some (if req = k then q else d + of_nat (off + req),
          (if req = k then (if nFreeSeg b = 1 then b\<lparr>nFreeSeg := 0, maxFreeSegLen := 0\<rparr> else b\<lparr>nFreeSeg := nFreeSeg b - 1\<rparr>)
           else if nFreeSeg b = 1 then b\<lparr>maxFreeSegLen := of_nat (k - req)\<rparr> else b), h')
      \<and> within d {off..<off + k} h h'
      \<and> view h' d n = (if req = k then (view h d n)(off \<mapsto> seg_word (req, True))
          else (view h d n)(off \<mapsto> seg_word (req, True), off + req \<mapsto> of_nat (k - req), off + req + 4 \<mapsto> q))"
proof -
  have lt: "k < 2 ^ 32" using assms(1,9) by (simp add: area_def)
  have eq: "(of_nat req :: u32) = of_nat k \<longleftrightarrow> req = k"
    using unat_small [OF lt] unat_small [of req] assms(7) lt by (metis le_less_trans)
  have sw: "of_nat req OR 1 = seg_word (req, True)" by (simp add: seg_word_def)
  have a4: "d + of_nat off + 4 = d + of_nat (off + 4)" by simp
  obtain h1 where h1: "store_word (d + of_nat off) (seg_word (req, True)) h = Some h1"
    "view h1 d n = (view h d n)(off \<mapsto> seg_word (req, True))" "within d {off} h h1"
    using store_at [of h d n off] assms(1,2) by auto
  have q: "h1 (d + of_nat (off + 4)) = Some q" by (rule view_read [of _ _ n]) (simp add: h1(2) assms(3))
  show ?thesis
  proof (cases "req = k")
    case True
    have "within d {off..<off + k} h h1" using within_mono [OF h1(3)] assms(6,7) by simp
    then show ?thesis using True h1 q sw [unfolded True] unfolding take_seg_def a4
      by (auto simp: Let_def simp del: of_nat_add)
  next
    case False
    have m: "4 dvd off + req" "4 dvd off + req + 4" using assms(5,8) by presburger+
    have b: "off + req + 8 \<le> n"
    proof -
      obtain x y where "req = 8 * x" "k = 8 * y" using assms(4,5) by (auto simp: dvd_def)
      then show ?thesis using False assms(7,9) by auto
    qed
    have "view h1 d n (off + req) \<noteq> None" using assms(10) [OF m(1)] b by (auto simp: h1(2))
    then obtain h2 where h2: "store_word (d + of_nat (off + req)) (of_nat (k - req)) h1 = Some h2"
      "view h2 d n = (view h1 d n)(off + req \<mapsto> of_nat (k - req))" "within d {off + req} h1 h2"
      using store_at [of h1 d n "off + req"] assms(1) by blast
    have q2: "h2 (d + of_nat (off + 4)) = Some q"
      by (rule view_read [of _ _ n]) (use assms(6) in \<open>simp add: h1(2) h2(2) assms(3)\<close>)
    have "view h2 d n (off + req + 4) \<noteq> None" using assms(10) [OF m(2)] b by (auto simp: h1(2) h2(2))
    then obtain h3 where h3: "store_word (d + of_nat (off + req + 4)) q h2 = Some h3"
      "view h3 d n = (view h2 d n)(off + req + 4 \<mapsto> q)" "within d {off + req + 4} h2 h3"
      using store_at [of h2 d n "off + req + 4"] assms(1) by blast
    have "req + 8 \<le> k" using False assms(4,5,7) by presburger
    then have "within d {off..<off + k} h h3"
      using within_trans [OF within_trans [OF h1(3) h2(3) subset_refl] h3(3)] by simp
    moreover have "take_seg (of_nat req) (d + of_nat off) (of_nat k) b h =
        Some (d + of_nat (off + req), if nFreeSeg b = 1 then b\<lparr>maxFreeSegLen := of_nat (k - req)\<rparr> else b, h3)"
      using h1(1) h2(1) h3(1) q2 eq False assms(7) unfolding take_seg_def a4
      by (simp add: sw [unfolded One_nat_def] Let_def of_nat_diff add.assoc)
    ultimately show ?thesis using False h1(2) h2(2) h3(2) by auto
  qed
qed

lemma set_next_spec:
  assumes "links (view h d n) d (hdFreeSeg b) (xs @ ys)" "links (view h d n) d q zs" "area d n"
    and "\<And>i. i \<in> set xs \<Longrightarrow> i + 8 \<le> n \<and> view h d n (i + 4) \<noteq> None" "distinct xs" "set xs \<inter> set zs = {}"
  shows "\<exists>b' h'. set_next (if xs = [] then 0 else d + of_nat (last xs)) q b h = Some (b', h')
      \<and> links (view h' d n) d (hdFreeSeg b') (xs @ zs) \<and> b' = b\<lparr>hdFreeSeg := hdFreeSeg b'\<rparr> \<and> within d ((\<lambda>i. i + 4) ` set xs) h h'
      \<and> view h' d n = (if xs = [] then view h d n else (view h d n)(last xs + 4 \<mapsto> q))"
proof (cases xs rule: rev_cases)
  case Nil
  then show ?thesis using assms(2) by (auto simp: set_next_def)
next
  case (snoc us x)
  have nz: "d + of_nat x \<noteq> 0" using area_simps(3) [OF assms(3), of x] assms(4) [of x] snoc by auto
  have a4: "d + of_nat x + 4 = d + of_nat (x + 4)" by simp
  obtain h' where h': "store_word (d + of_nat (x + 4)) q h = Some h'"
    "view h' d n = (view h d n)(x + 4 \<mapsto> q)" "within d {x + 4} h h'"
    using store_at [of h d n "x + 4"] assms(3) assms(4) [of x] snoc by auto
  have "links (view h' d n) d (hdFreeSeg b) (us @ x # zs)"
    unfolding h'(2) by (rule links_relink) (use assms snoc in auto)
  then show ?thesis using nz h' snoc within_mono [OF h'(3), of "(\<lambda>i. i + 4) ` set xs"]
    unfolding set_next_def by (auto simp: a4 simp del: of_nat_add)
qed

subsection \<open>The first fit in a block\<close>

definition seg_rep :: "words \<Rightarrow> addr \<Rightarrow> addr \<Rightarrow> seg list \<Rightarrow> bool" where
  "seg_rep h d p ss \<longleftrightarrow> heads (view h d (seg_total ss)) 0 ss \<and> links (view h d (seg_total ss)) d p (List.map fst (frees 0 ss))
     \<and> (\<forall>i < seg_total ss. 4 dvd i \<longrightarrow> view h d (seg_total ss) i \<noteq> None)"

definition block_rep :: "words \<Rightarrow> SegBlk \<Rightarrow> seg list \<Rightarrow> bool" where
  "block_rep h b ss \<longleftrightarrow> blk_base b \<noteq> 0 \<and> unat (blk_base b) + unat (blk_len b) < 2 ^ 32 \<and> unat (blk_len b) = 28 + seg_total ss
     \<and> quanta ss \<and> coalesced ss \<and> seg_rep h (blk_data b) (hdFreeSeg b) ss
     \<and> nFreeSeg b = of_nat (n_free ss) \<and> nAllocSeg b = of_nat (n_alloc ss)
     \<and> (\<forall>n. (n, False) \<in> set ss \<longrightarrow> of_nat n \<le> maxFreeSegLen b)"

lemma coalesced_append:
  "coalesced (xs @ ys) \<longleftrightarrow> coalesced xs \<and> coalesced ys \<and> (xs \<noteq> [] \<longrightarrow> ys \<noteq> [] \<longrightarrow> snd (last xs) \<or> snd (hd ys))"
proof (induction xs)
  case (Cons s xs)
  then show ?case by (cases xs; cases ys) auto
qed simp

lemma coalesced_Cons: "coalesced (s # ss) \<longleftrightarrow> coalesced ss \<and> (ss \<noteq> [] \<longrightarrow> snd s \<or> snd (hd ss))"
  by (cases ss) auto

lemma block_area:
  assumes "block_rep h b ss"
  shows "area (blk_data b) (seg_total ss)" "unat (blk_data b) = unat (blk_base b) + 28" "seg_total ss < 2 ^ 32"
proof -
  have u: "unat (blk_base b) + (28 + seg_total ss) < 2 ^ 32" "unat (blk_base b) \<noteq> 0"
    using assms by (simp_all add: block_rep_def unat_eq_0)
  show d: "unat (blk_data b) = unat (blk_base b) + 28"
    using u by (simp add: blk_data_def MSA_BLK_HDR_LENGTH_def unat_word_ariths)
  with u show "area (blk_data b) (seg_total ss)" by (auto simp: area_def)
  show "seg_total ss < 2 ^ 32" using u by simp
qed

lemma frees_at:
  assumes "seg_rep h d p ss" "quanta ss" "seg_total ss < 2 ^ 32" "(i, k) \<in> set (frees 0 ss)"
  shows "view h d (seg_total ss) i = Some (of_nat k)" "i + 8 \<le> seg_total ss" "k \<le> seg_total ss" "8 dvd i" "8 dvd k" "i + k \<le> seg_total ss"
    "view h d (seg_total ss) (i + 4) \<noteq> None"
proof -
  have b: "8 dvd i" "8 dvd k" "8 \<le> k" "i + k \<le> seg_total ss"
    using frees_quanta [OF assms(2) _ assms(4)] frees_bounds [OF assms(4)] by auto
  then show "8 dvd i" "8 dvd k" "i + k \<le> seg_total ss" "i + 8 \<le> seg_total ss" "k \<le> seg_total ss" by auto
  then show "view h d (seg_total ss) i = Some (of_nat k)"
    using heads_free [OF _ assms(4)] seg_word_parts(1) [of k] assms(1,3) by (simp add: seg_rep_def)
  have "4 dvd i + 4" using b(1) by presburger
  then show "view h d (seg_total ss) (i + 4) \<noteq> None" using assms(1) b by (auto simp: seg_rep_def)
qed

lemma frees_distinct: "quanta ss \<Longrightarrow> distinct (List.map fst (frees off ss))"
proof (induction ss arbitrary: off)
  case (Cons s ss)
  have "off \<notin> fst ` set (frees (off + fst s) ss)" using frees_bounds [of _ "off + fst s" ss] Cons.prems by fastforce
  then show ?case using Cons by auto
qed simp

lemma max_bound:
  assumes "\<And>n. (n, False) \<in> set ss \<Longrightarrow> of_nat n \<le> (m :: u32)" "seg_total ss < 2 ^ 32" "(n, False) \<in> set ss" "k \<le> n"
  shows "of_nat k \<le> m"
proof -
  have "n \<le> seg_total ss" using assms(3) by (induction ss) auto
  then have "(of_nat k :: u32) \<le> of_nat n" using assms(2,4) unat_small [of n] unat_small [of k] by (simp add: word_le_nat_alt)
  with assms(1) [OF assms(3)] show ?thesis by simp
qed

lemma n_free_one: "n_free (xs @ (k, False) # ys) = 1 \<longleftrightarrow> (\<forall>n. (n, False) \<notin> set xs \<and> (n, False) \<notin> set ys)"
  by (auto simp: n_free_def filter_empty_conv) (metis (full_types))+

text \<open>The offsets of free segments, headers included.\<close>

definition free_span :: "seg list \<Rightarrow> nat set" where
  "free_span ss = {i. \<exists>(j, k) \<in> set (frees 0 ss). j \<le> i \<and> i < j + k}"

lemma free_spanI: "(j, k) \<in> set (frees 0 ss) \<Longrightarrow> {j..<j + k} \<subseteq> free_span ss"
  unfolding free_span_def by force

lemma free_span_links: "quanta ss \<Longrightarrow> (\<lambda>i. i + 4) ` fst ` set (frees 0 ss) \<subseteq> free_span ss"
proof
  fix i assume q: "quanta ss" and "i \<in> (\<lambda>i. i + 4) ` fst ` set (frees 0 ss)"
  then obtain j k where "(j, k) \<in> set (frees 0 ss)" "i = j + 4" by auto
  then show "i \<in> free_span ss" using free_spanI [of j k ss] frees_quanta [OF q, of 0 "(j, k)"] by auto
qed

lemma within_view: "within d F h h' \<Longrightarrow> view h' d n i = None \<longleftrightarrow> view h d n i = None"
  by (simp add: within_def view_def) (metis domIff)

lemma fstFitI:
  "fstFit_loop req 0 0 (hdFreeSeg b) h = Some (Inr (prev, cur, len)) \<Longrightarrow> take_seg req cur len b h = Some (next, b1, h1) \<Longrightarrow>
   set_next prev next b1 h1 = Some (b2, h2) \<Longrightarrow> fstFit req b h = Some (cur, b2\<lparr>nAllocSeg := nAllocSeg b2 + 1\<rparr>, h2)"
  by (simp add: fstFit_def)

lemma fstFit_hit:
  assumes rep: "block_rep h b ss" and ss: "ss = xs @ (k, False) # ys" and small: "\<forall>n. (n, False) \<in> set xs \<longrightarrow> n < req"
    and req: "8 dvd req" "8 \<le> req" "req \<le> k"
    and ts: "ts = xs @ (req, True) # (if k = req then [] else [(k - req, False)]) @ ys"
  shows "\<exists>b' h'. fstFit (of_nat req) b h = Some (blk_data b + of_nat (seg_total xs), b', h') \<and> block_rep h' b' ts
     \<and> blk_base b' = blk_base b \<and> blk_len b' = blk_len b \<and> within (blk_data b) (free_span ss) h h'"
proof -
  let ?d = "blk_data b" and ?n = "seg_total ss" and ?off = "seg_total xs"
  let ?w = "view h ?d ?n"
  note ar = block_area [OF rep]
  have q: "quanta ss" and co: "coalesced ss" and sr: "seg_rep h ?d (hdFreeSeg b) ss" and mx: "\<And>n. (n, False) \<in> set ss \<Longrightarrow> of_nat n \<le> maxFreeSegLen b"
    using rep by (auto simp: block_rep_def)
  note fa = frees_at [OF sr q ar(3)]
  let ?A = "frees 0 xs" and ?B = "frees (?off + k) ys"
  have fr: "frees 0 ss = ?A @ (?off, k) # ?B" by (simp add: ss)
  have me: "(?off, k) \<in> set (frees 0 ss)" by (simp add: fr)
  have lk: "links ?w ?d (hdFreeSeg b) (List.map fst (?A @ (?off, k) # ?B))" using sr by (simp add: seg_rep_def fr)
  have kn: "k < 2 ^ 32" "req < 2 ^ 32" using fa(3) [OF me] ar(3) req by simp_all
  have loop: "fstFit_loop (of_nat req) 0 0 (hdFreeSeg b) h
      = Some (Inr (if ?A = [] then 0 else ?d + of_nat (fst (last ?A)), ?d + of_nat ?off, of_nat k))"
  proof (rule fstFit_loop_hit [OF lk ar(1)])
    fix j l assume jl: "(j, l) \<in> set ?A"
    then have m: "(j, l) \<in> set (frees 0 ss)" by (simp add: fr)
    have "l < req" using small frees_set [OF jl] by simp
    then have "(of_nat l :: u32) < of_nat req" using unat_small kn by (simp add: word_less_nat_alt)
    then show "?w j = Some (of_nat l) \<and> j + 8 \<le> ?n \<and> (of_nat l :: u32) < of_nat req" using fa(1,2) [OF m] by blast
  qed (use fa(1,2) [OF me] req unat_small kn in \<open>simp_all add: word_le_nat_alt\<close>)
  obtain nx where "links ?w ?d nx (?off # List.map fst ?B)"
    using links_tail [of ?w ?d "hdFreeSeg b" "List.map fst ?A" "?off # List.map fst ?B"] lk by auto
  then obtain nx where nx: "?w (?off + 4) = Some nx" "links ?w ?d nx (List.map fst ?B)" by auto
  have dv: "8 dvd ?off" "8 dvd k" "?off + k \<le> ?n" using fa [OF me] by auto
  let ?nx = "if req = k then nx else ?d + of_nat (?off + req)"
  let ?b1 = "if req = k then (if nFreeSeg b = 1 then b\<lparr>nFreeSeg := 0, maxFreeSegLen := 0\<rparr> else b\<lparr>nFreeSeg := nFreeSeg b - 1\<rparr>)
           else if nFreeSeg b = 1 then b\<lparr>maxFreeSegLen := of_nat (k - req)\<rparr> else b"
  obtain h1 where h1: "take_seg (of_nat req) (?d + of_nat ?off) (of_nat k) b h = Some (?nx, ?b1, h1)" "within ?d {?off..<?off + k} h h1"
    "view h1 ?d ?n = (if req = k then ?w(?off \<mapsto> seg_word (req, True))
          else ?w(?off \<mapsto> seg_word (req, True), ?off + req \<mapsto> of_nat (k - req), ?off + req + 4 \<mapsto> nx))"
    using take_seg_spec [OF ar(1) fa(1) [OF me] nx(1) dv(2) req(1,2,3) dv(1,3), of b] sr by (auto simp: seg_rep_def)
  let ?Z = "(if k = req then [] else [?off + req]) @ List.map fst ?B"
  have inA: "8 dvd i \<and> i + 8 \<le> ?off" if "i \<in> fst ` set ?A" for i
    using frees_quanta [of xs 0] frees_bounds [of _ 0 xs] q that by (fastforce simp: ss)
  have inB: "8 dvd i \<and> ?off + k \<le> i" if "i \<in> fst ` set ?B" for i
    using frees_quanta [of ys "?off + k"] frees_bounds [of _ "?off + k" ys] q dv that by (fastforce simp: ss)
  let ?v = "view h1 ?d ?n"
  have keep: "?v i = ?w i" if "i \<noteq> ?off" "req \<noteq> k \<longrightarrow> i \<noteq> ?off + req \<and> i \<noteq> ?off + req + 4" for i
    using that by (auto simp: h1(3))
  have link4: "?v (i + 4) = ?w (i + 4)" if "8 dvd i" "req \<noteq> k \<longrightarrow> i \<noteq> ?off + req" for i
  proof (rule keep)
    show "i + 4 \<noteq> ?off" using that(1) dv(1) by presburger
    show "req \<noteq> k \<longrightarrow> i + 4 \<noteq> ?off + req \<and> i + 4 \<noteq> ?off + req + 4" using that dv(1) req(1) by presburger
  qed
  have l1: "links ?v ?d (hdFreeSeg ?b1) (List.map fst ?A @ ?off # List.map fst ?B)"
  proof -
    have "links ?v ?d (hdFreeSeg b) (List.map fst ?A @ ?off # List.map fst ?B)
        = links ?w ?d (hdFreeSeg b) (List.map fst ?A @ ?off # List.map fst ?B)"
      by (rule links_frame, rule link4) (use inA inB dv req in fastforce)+
    then show ?thesis using lk by simp
  qed
  have l2: "links ?v ?d ?nx ?Z"
  proof -
    have "links ?v ?d nx (List.map fst ?B) = links ?w ?d nx (List.map fst ?B)"
      by (rule links_frame, rule link4) (use inB req in fastforce)+
    then show ?thesis using nx(2) h1(3) by (auto simp del: of_nat_add)
  qed
  let ?F = "List.map fst ?A"
  obtain b2 h2 where h2: "set_next (if ?F = [] then 0 else ?d + of_nat (last ?F)) ?nx ?b1 h1 = Some (b2, h2)"
    "links (view h2 ?d ?n) ?d (hdFreeSeg b2) (List.map fst ?A @ ?Z)" "b2 = ?b1\<lparr>hdFreeSeg := hdFreeSeg b2\<rparr>"
    "within ?d ((\<lambda>i. i + 4) ` set ?F) h1 h2"
    "view h2 ?d ?n = (if ?F = [] then ?v else ?v(last ?F + 4 \<mapsto> ?nx))"
  proof -
    have "i + 8 \<le> ?n \<and> ?v (i + 4) \<noteq> None" if i: "i \<in> set (List.map fst ?A)" for i
    proof -
      from i obtain l where "(i, l) \<in> set ?A" by auto
      then have m: "(i, l) \<in> set (frees 0 ss)" by (simp add: fr)
      then show ?thesis using fa(2,7) [OF m] link4 [of i] inA [of i] i req by auto
    qed
    moreover have "distinct (List.map fst ?A)" using frees_distinct [of xs 0] q by (simp add: ss)
    moreover have "set (List.map fst ?A) \<inter> set ?Z = {}"
    proof -
      have "i < ?off" if "i \<in> set (List.map fst ?A)" for i using inA [of i] that by simp
      moreover have "?off \<le> i" if "i \<in> set ?Z" for i
        using inB [of i] that by (cases "i \<in> fst ` set ?B") (simp_all split: if_splits)
      ultimately show ?thesis by (meson disjoint_iff not_le)
    qed
    ultimately show ?thesis
      using set_next_spec [OF l1 l2 ar(1)] that by blast
  qed
  let ?b' = "b2\<lparr>nAllocSeg := nAllocSeg b2 + 1\<rparr>"
  have fst_fit: "fstFit (of_nat req) b h = Some (?d + of_nat ?off, ?b', h2)"
  proof (rule fstFitI [OF _ h1(1) h2(1)])
    show "fstFit_loop (of_nat req) 0 0 (hdFreeSeg b) h
        = Some (Inr (if ?F = [] then 0 else ?d + of_nat (last ?F), ?d + of_nat ?off, of_nat k))"
      unfolding loop by (simp add: last_map)
  qed
  let ?u = "view h2 ?d ?n"
  have tot: "seg_total ts = ?n" using req(3) by (simp add: ts ss)
  have wi: "within ?d (free_span ss) h h2"
  proof (rule within_trans [OF h1(2) h2(4)])
    have "(\<lambda>i. i + 4) ` set ?F \<subseteq> (\<lambda>i. i + 4) ` fst ` set (frees 0 ss)" by (auto simp: fr)
    then show "{?off..<?off + k} \<union> (\<lambda>i. i + 4) ` set ?F \<subseteq> free_span ss"
      using free_spanI [OF me] free_span_links [OF q] by blast
  qed
  have at8: "?u i = ?v i" if "8 dvd i" for i
  proof -
    have "i \<noteq> last ?F + 4" if "?F \<noteq> []"
    proof -
      have "8 dvd last ?F" using inA [of "last ?F"] last_in_set [OF that] by simp
      then show ?thesis using \<open>8 dvd i\<close> by presburger
    qed
    then show ?thesis by (auto simp: h2(5))
  qed
  have "heads ?u 0 ts"
  proof -
    have rk: "req = k \<or> req + 8 \<le> k" using req(1,3) dv(2) by presburger
    have qx: "quanta xs" "quanta ys" using q by (simp_all add: ss)
    have "heads ?u 0 xs = heads ?w 0 xs"
      by (rule heads_frame) (use qx rk req in \<open>auto simp: at8 intro!: keep\<close>)
    moreover have "heads ?u (?off + k) ys = heads ?w (?off + k) ys"
      by (rule heads_frame) (use qx rk req dv in \<open>auto simp: at8 intro!: keep\<close>)
    moreover have "?u ?off = Some (seg_word (req, True))"
      using at8 [OF dv(1)] req by (simp add: h1(3))
    moreover have "?u (?off + req) = Some (seg_word (k - req, False))" if "req \<noteq> k"
      using at8 [of "?off + req"] dv(1) req that by (simp add: h1(3) seg_word_def)
    ultimately show ?thesis using sr req by (auto simp: ts ss seg_rep_def)
  qed
  moreover have "links ?u ?d (hdFreeSeg ?b') (List.map fst (frees 0 ts))"
    using h2(2) req by (auto simp: ts)
  moreover have "\<forall>i < ?n. 4 dvd i \<longrightarrow> ?u i \<noteq> None"
    using sr within_view [OF wi] by (auto simp: seg_rep_def)
  ultimately have "seg_rep h2 ?d (hdFreeSeg ?b') ts" by (simp add: seg_rep_def tot)
  moreover have "quanta ts" using q req dv(2) by (auto simp: ts ss dvd_diff_nat) (use dvd_imp_le in force)
  moreover have "coalesced ts" using co by (auto simp: ts ss coalesced_append coalesced_Cons)
  moreover have "nFreeSeg ?b' = of_nat (n_free ts)" "nAllocSeg ?b' = of_nat (n_alloc ts)"
  proof -
    have c: "nFreeSeg b = of_nat (n_free ss)" "nAllocSeg b = of_nat (n_alloc ss)" using rep by (auto simp: block_rep_def)
    show "nFreeSeg ?b' = of_nat (n_free ts)"
      by (subst h2(3)) (use c(1) in \<open>auto simp: ts ss\<close>)
    show "nAllocSeg ?b' = of_nat (n_alloc ts)"
      by (subst h2(3)) (use c(2) in \<open>auto simp: ts ss\<close>)
  qed
  moreover have "of_nat n \<le> maxFreeSegLen ?b'" if n: "(n, False) \<in> set ts" for n
  proof (cases "nFreeSeg b = 1")
    case True
    have "n_free ss < 2 ^ 32" using count_bounds [OF q] ar(3) by simp
    then have "n_free ss = 1" using True rep unat_small [of "n_free ss"] by (simp add: block_rep_def)
    then have "\<forall>n. (n, False) \<notin> set xs \<and> (n, False) \<notin> set ys" unfolding ss n_free_one .
    then show ?thesis using n True by (subst h2(3)) (auto simp: ts split: if_splits)
  next
    case False
    then have "maxFreeSegLen ?b' = maxFreeSegLen b" by (subst h2(3)) auto
    moreover have "\<exists>l. (l, False) \<in> set ss \<and> n \<le> l" using n by (auto simp: ts ss split: if_splits)
    ultimately show ?thesis using max_bound [OF mx ar(3)] by auto
  qed
  moreover have same: "blk_base b2 = blk_base b" "blk_len b2 = blk_len b" by (subst h2(3), simp)+
  moreover have "blk_data ?b' = ?d" "blk_base ?b' = blk_base b" "blk_len ?b' = blk_len b"
    by (simp_all add: blk_data_def same)
  moreover have "blk_base b \<noteq> 0" "unat (blk_base b) + unat (blk_len b) < 2 ^ 32" "unat (blk_len b) = 28 + seg_total ss"
    using rep by (simp_all add: block_rep_def)
  ultimately have "block_rep h2 ?b' ts" unfolding block_rep_def tot by metis
  then show ?thesis using fst_fit wi same
    by (intro exI [of _ ?b'] exI [of _ h2]) simp
qed

lemma fstFit_miss:
  assumes rep: "block_rep h b ss" and small: "\<And>n. (n, False) \<in> set ss \<Longrightarrow> n < req" and "req < 2 ^ 32" "hdFreeSeg b \<noteq> 0"
  shows "\<exists>b'. fstFit (of_nat req) b h = Some (0, b', h) \<and> block_rep h b' ss
    \<and> blk_base b' = blk_base b \<and> blk_len b' = blk_len b"
proof -
  let ?d = "blk_data b" and ?n = "seg_total ss" and ?F = "frees 0 ss"
  note ar = block_area [OF rep]
  have q: "quanta ss" and sr: "seg_rep h ?d (hdFreeSeg b) ss" using rep by (auto simp: block_rep_def)
  note fa = frees_at [OF sr q ar(3)]
  have lk: "links (view h ?d ?n) ?d (hdFreeSeg b) (List.map fst ?F)" using sr by (simp add: seg_rep_def)
  then have ne: "?F \<noteq> []" using assms(4) by auto
  obtain mx where mx: "fstFit_loop (of_nat req) 0 0 (hdFreeSeg b) h = Some (Inl mx)" "\<forall>(i, k) \<in> set ?F. of_nat k \<le> mx"
  proof -
    have "view h ?d ?n i = Some (of_nat k) \<and> i + 8 \<le> ?n \<and> k \<le> ?n \<and> (of_nat k :: u32) < of_nat req"
      if m: "(i, k) \<in> set ?F" for i k
    proof -
      have "k < req" using small frees_set [OF m] by simp
      then have "(of_nat k :: u32) < of_nat req" using unat_small assms(3) by (simp add: word_less_nat_alt)
      then show ?thesis using fa(1,2,3) [OF m] by blast
    qed
    then show ?thesis using fstFit_loop_miss [OF lk ne ar(1), of "of_nat req" 0 0] that by blast
  qed
  have "of_nat n \<le> mx" if "(n, False) \<in> set ss" for n using in_frees [OF that, of 0] mx(2) by fastforce
  then have "block_rep h (b\<lparr>maxFreeSegLen := mx\<rparr>) ss" using rep by (simp add: block_rep_def blk_data_def)
  then show ?thesis by (simp add: fstFit_def mx(1))
qed

text \<open>\<open>SegBlk::fstFit\<close> implements \<open>carve\<close>.\<close>

lemma fstFit_carve:
  assumes "block_rep h b ss" "8 dvd req" "8 \<le> req" "req < 2 ^ 32" "hdFreeSeg b \<noteq> 0"
  shows "case carve req ss of
      None \<Rightarrow> \<exists>b'. fstFit (of_nat req) b h = Some (0, b', h) \<and> block_rep h b' ss \<and> blk_base b' = blk_base b \<and> blk_len b' = blk_len b
    | Some (off, ts) \<Rightarrow> \<exists>b' h'. fstFit (of_nat req) b h = Some (blk_data b + of_nat off, b', h') \<and> block_rep h' b' ts
        \<and> blk_base b' = blk_base b \<and> blk_len b' = blk_len b \<and> within (blk_data b) (free_span ss) h h'"
proof (cases "carve req ss")
  case None
  then show ?thesis using fstFit_miss [OF assms(1) _ assms(4,5)] carve_None [of req ss] by auto
next
  case (Some r)
  obtain off ts where r: "r = (off, ts)" by (cases r)
  from carve_Some [OF Some [unfolded r]] obtain xs n ys where "ss = xs @ (n, False) # ys" "off = seg_total xs" "req \<le> n"
    "\<forall>k. (k, False) \<in> set xs \<longrightarrow> k < req" "ts = xs @ (req, True) # (if n = req then [] else [(n - req, False)]) @ ys" by blast
  then show ?thesis using fstFit_hit [OF assms(1) _ _ assms(2,3), of xs n ys ts] Some r by auto
qed

lemma hdFreeSeg_null:
  assumes "block_rep h b ss"
  shows "hdFreeSeg b = 0 \<longleftrightarrow> (\<forall>n. (n, False) \<notin> set ss)"
proof -
  have lk: "links (view h (blk_data b) (seg_total ss)) (blk_data b) (hdFreeSeg b) (List.map fst (frees 0 ss))"
    using assms by (simp add: block_rep_def seg_rep_def)
  have e: "frees 0 ss = [] \<longleftrightarrow> (\<forall>n. (n, False) \<notin> set ss)"
  proof
    show "frees 0 ss = [] \<Longrightarrow> \<forall>n. (n, False) \<notin> set ss" using in_frees [of _ ss 0] by auto
    show "\<forall>n. (n, False) \<notin> set ss \<Longrightarrow> frees 0 ss = []" using frees_set [of "hd (frees 0 ss)" 0 ss] by (metis hd_in_set)
  qed
  show ?thesis
  proof (cases "frees 0 ss")
    case Nil
    then show ?thesis using lk e by simp
  next
    case (Cons f fs)
    then have "fst f \<le> seg_total ss" using frees_bounds [of f 0 ss] by simp
    then show ?thesis using lk e Cons area_simps(3) [OF block_area(1) [OF assms], of "fst f"] by auto
  qed
qed

subsection \<open>Freeing in a block\<close>

definition joined_next :: "nat \<Rightarrow> seg list \<Rightarrow> nat \<times> seg list" where
  "joined_next n ys = (if ys \<noteq> [] \<and> \<not> snd (hd ys) then (n + fst (hd ys), tl ys) else (n, ys))"

definition joined_prev :: "seg list \<Rightarrow> nat \<Rightarrow> seg list \<times> nat" where
  "joined_prev xs n = (if xs \<noteq> [] \<and> \<not> snd (last xs) then (butlast xs, fst (last xs) + n) else (xs, n))"

lemma fuse_coalesced: "coalesced ss \<Longrightarrow> fuse ss = ss"
  by (induction ss rule: fuse.induct) (auto simp: coalesced_Cons)

lemma fuse_next: "coalesced ys \<Longrightarrow> fuse ((n, False) # ys) = (let (n', ys') = joined_next n ys in (n', False) # ys')"
proof (cases ys)
  case (Cons y ys')
  assume c: "coalesced ys"
  obtain k a where y: "y = (k, a)" by (cases y)
  have f: "fuse ((n + k, False) # ys') = (n + k, False) # ys'" if "\<not> a"
    using c Cons y that by (intro fuse_coalesced) (auto simp: coalesced_Cons)
  show ?thesis
  proof (cases a)
    case True
    then show ?thesis using Cons y c fuse_coalesced [OF c] by (simp add: joined_next_def)
  next
    case False
    then show ?thesis using Cons y f by (simp add: joined_next_def)
  qed
qed (simp add: joined_next_def)

lemma fuse_release:
  assumes "coalesced xs" "coalesced ys"
  shows "fuse (xs @ (n, False) # ys) = (let (n', ys') = joined_next n ys; (xs', n'') = joined_prev xs n' in xs' @ (n'', False) # ys')"
  using assms(1)
proof (induction xs)
  case Nil
  then show ?case using fuse_next [OF assms(2)] by (simp add: joined_prev_def)
next
  case (Cons x xs)
  then have ih: "fuse (xs @ (n, False) # ys) = (let (n', ys') = joined_next n ys; (xs', n'') = joined_prev xs n' in xs' @ (n'', False) # ys')"
    by (simp add: coalesced_Cons)
  obtain k a where x: "x = (k, a)" by (cases x)
  show ?case
  proof (cases "xs")
    case Nil
    obtain n' ys' where j: "joined_next n ys = (n', ys')" by (cases "joined_next n ys")
    show ?thesis
    proof (cases a)
      case True
      then show ?thesis using ih Nil x by (simp add: joined_prev_def split_def Let_def)
    next
      case False
      have "joined_next (k + n) ys = (k + n', ys')" using j by (auto simp: joined_next_def split: if_splits)
      then show ?thesis using fuse_next [OF assms(2), of "k + n"] False Nil x j by (simp add: joined_prev_def)
    qed
  next
    case (Cons x' xs')
    then have "snd x \<or> snd x'" using Cons.prems by simp
    then have "fuse (x # xs @ (n, False) # ys) = x # fuse (xs @ (n, False) # ys)"
      using Cons x by (cases x', cases "snd x") (auto simp: Cons)
    then show ?thesis using ih Cons by (auto simp: joined_prev_def split_def Let_def)
  qed
qed

lemma free_pos_spec:
  assumes "links (view h d n) d p (fs @ gs)" "area d n" "\<And>i. i \<in> set fs \<Longrightarrow> i < f" "\<And>i. i \<in> set gs \<Longrightarrow> f \<le> i"
    and "\<And>i. i \<in> set (fs @ gs) \<Longrightarrow> i + 8 \<le> n" "f \<le> n"
  shows "free_pos (d + of_nat f) prev p h
    = Some (if fs = [] then prev else d + of_nat (last fs), if gs = [] then 0 else d + of_nat (hd gs))"
  using assms(1,3,5)
proof (induction fs arbitrary: p prev)
  case Nil
  note prems = Nil.prems
  show ?case
  proof (cases gs)
    case Nil
    then show ?thesis using prems by (subst free_pos.simps) simp
  next
    case (Cons g gs')
    then have "p = d + of_nat g" "f \<le> g" "g \<le> n" using prems(1) prems(3) [of g] assms(4) by auto
    then show ?thesis using area_simps(2) [OF assms(2), of g f] assms(6) Cons by (subst free_pos.simps) auto
  qed
next
  case (Cons i fs)
  then obtain q where q: "p = d + of_nat i" "view h d n (i + 4) = Some q" "links (view h d n) d q (fs @ gs)" by auto
  have b: "i < f" "i \<le> n" using Cons.prems(2) [of i] Cons.prems(3) [of i] by auto
  have "p \<noteq> 0" "p < d + of_nat f" using area_simps(2,3) [OF assms(2), of i f] b assms(6) q(1) by auto
  moreover have "h (p + 4) = Some q" using view_read [OF q(2)] by (simp add: q(1) add.assoc)
  moreover have "free_pos (d + of_nat f) p q h = Some (if fs = [] then p else d + of_nat (last fs), if gs = [] then 0 else d + of_nat (hd gs))"
    by (rule Cons.IH [OF q(3)]) (use Cons.prems in auto)
  ultimately show ?case by (subst free_pos.simps) (simp add: q(1))
qed

lemma heads_upd:
  assumes "quanta ss" "8 dvd off" "\<And>i. 8 dvd i \<Longrightarrow> off \<le> i \<Longrightarrow> i < off + seg_total ss \<Longrightarrow> i \<noteq> j"
  shows "heads (w(j \<mapsto> v)) off ss = heads w off ss"
  by (rule heads_frame) (use assms in auto)

lemma links_upd: "(\<And>i. i \<in> set offs \<Longrightarrow> i + 4 \<noteq> j) \<Longrightarrow> links (w(j \<mapsto> v)) d p offs = links w d p offs"
  by (rule links_frame) auto

lemma frees_mod: "quanta ss \<Longrightarrow> 8 dvd off \<Longrightarrow> i \<in> fst ` set (frees off ss) \<Longrightarrow> 8 dvd i \<and> off \<le> i \<and> i + 8 \<le> off + seg_total ss"
  using frees_quanta [of ss off] frees_bounds [of _ off ss] by fastforce

lemma join_next_spec:
  fixes h d n
  defines "w \<equiv> view h d n"
  assumes "area d n" "heads w 0 (xs @ (k, False) # ys)" "quanta (xs @ (k, False) # ys)"
    and "seg_total (xs @ (k, False) # ys) = n" "coalesced ys"
    and "links w d p (as @ List.map fst (frees (seg_total xs + k) ys))"
    and "\<And>i. i \<in> set as \<Longrightarrow> 8 dvd i \<and> i < seg_total xs" "\<And>i. i < n \<Longrightarrow> 4 dvd i \<Longrightarrow> w i \<noteq> None"
    and "joined_next k ys = (k', ys')" "f = seg_total xs"
    and "cur = (case frees (f + k) ys of [] \<Rightarrow> 0 | g # _ \<Rightarrow> d + of_nat (fst g))"
  shows "\<exists>h' q. join_next (d + of_nat f) cur b h
        = Some (if ys' = ys then b\<lparr>nFreeSeg := nFreeSeg b + 1\<rparr> else b, h')
      \<and> within d {f, f + 4} h h' \<and> heads (view h' d n) 0 (xs @ (k', False) # ys')
      \<and> links (view h' d n) d p (as @ List.map fst (frees (f + k) ys))
      \<and> view h' d n (f + 4) = Some q \<and> links (view h' d n) d q (List.map fst (frees (f + k') ys'))"
proof -
  let ?B = "List.map fst (frees (f + k) ys)"
  have q: "quanta xs" "8 dvd k" "8 \<le> k" "quanta ys" using assms(4) by simp_all
  have fd: "8 dvd f" using quanta_total [OF q(1)] by (simp add: assms(11))
  have n: "n = f + k + seg_total ys" using assms(5,11) by simp
  have lt: "n < 2 ^ 32" using assms(2) by (simp add: area_def)
  have a4: "d + of_nat i + 4 = d + of_nat (i + 4)" for i by simp
  have len: "h (d + of_nat f) = Some (of_nat k)"
    using assms(3) seg_word_parts(1) [OF q(2)] n lt view_read [of h d n f] by (simp add: assms(11) w_def)
  have A: "i + 4 \<noteq> f" "i + 4 \<noteq> f + 4" if "i \<in> set as" for i using assms(8) [OF that] fd by (simp_all add: assms(11)) presburger
  have B: "8 dvd i \<and> f + k \<le> i \<and> i + 8 \<le> n" if "i \<in> set ?B" for i
    using frees_mod [OF q(4), of "f + k" i] that fd q(2) n by auto
  obtain c where c: "links w d c ?B" "c = cur"
  proof -
    obtain c where c: "links w d c ?B" using links_tail [OF assms(7) [folded assms(11)]] by blast
    moreover have "c = cur" using c by (cases "frees (f + k) ys") (simp_all add: assms(12))
    ultimately show ?thesis using that by blast
  qed
  show ?thesis
  proof (cases "ys \<noteq> [] \<and> \<not> snd (hd ys)")
    case True
    then obtain m zs where ys: "ys = (m, False) # zs" by (cases ys) (auto simp: prod_eq_iff)
    have j: "k' = k + m" "ys' = zs" using assms(10) ys by (auto simp: joined_next_def)
    have qm: "8 dvd m" "8 \<le> m" "quanta zs" using q(4) ys by simp_all
    let ?g = "f + k"
    have cur: "cur = d + of_nat ?g" by (simp add: assms(12) ys)
    have lm: "h (d + of_nat ?g) = Some (of_nat m)"
      using assms(3) seg_word_parts(1) [OF qm(1)] n lt view_read [of h d n ?g] by (simp add: assms(11) w_def ys)
    from c cur obtain r where r: "w (?g + 4) = Some r" "links w d r (List.map fst (frees (?g + m) zs))" by (auto simp: ys)
    obtain h1 where h1: "store_word (d + of_nat f) (of_nat (k + m)) h = Some h1" "view h1 d n = w(f \<mapsto> of_nat (k + m))" "within d {f} h h1"
      using store_at [OF _ assms(2), of h f "of_nat (k + m)"] assms(3) by (auto simp: assms(11) w_def)
    have r1: "h1 (d + of_nat (?g + 4)) = Some r" by (rule view_read [where h = h1 and n = n]) (use q(3) r(1) in \<open>simp add: h1(2)\<close>)
    have "4 dvd f + 4" using fd by presburger
    then have "view h1 d n (f + 4) \<noteq> None" unfolding h1(2) using assms(9) [of "f + 4"] n q(3) by simp
    then obtain h2 where h2: "store_word (d + of_nat (f + 4)) r h1 = Some h2" "view h2 d n = (view h1 d n)(f + 4 \<mapsto> r)" "within d {f + 4} h1 h2"
      using store_at [OF _ assms(2), of h1 "f + 4" r] by blast
    let ?v = "w(f \<mapsto> of_nat (k + m), f + 4 \<mapsto> r)"
    have v: "view h2 d n = ?v" by (simp add: h1(2) h2(2))
    have ev: "join_next (d + of_nat f) cur b h = Some (b, h2)"
      using len lm h1(1) r1 h2(1) unfolding join_next_def cur by (simp add: a4 add.assoc del: of_nat_add) (simp add: add.assoc)
    have mods: "i + 4 \<noteq> f \<and> i + 4 \<noteq> f + 4" if "i \<in> set (as @ ?B)" for i
    proof -
      from that consider "i \<in> set as" | "i \<in> set ?B" unfolding set_append by blast
      then show ?thesis
      proof cases
        case 1 then show ?thesis using A by blast
      next
        case 2 then show ?thesis using B [OF 2] fd q(3) by presburger
      qed
    qed
    have "heads ?v 0 (xs @ (k', False) # ys')"
    proof -
      have "heads ?v 0 xs = heads w 0 xs" "heads ?v (f + (k + m)) zs = heads w (f + (k + m)) zs"
        using q qm fd by (intro heads_frame; auto simp: assms(11))+
      then show ?thesis using assms(3) q(3) by (simp add: j ys assms(11) [symmetric] w_def seg_word_def add.assoc)
    qed
    moreover have "links ?v d p (as @ ?B)"
      using assms(7) mods by (subst links_upd; (subst links_upd)?) (auto simp: assms(11) [symmetric])
    moreover have "links ?v d r (List.map fst (frees (f + k') ys'))"
      using r(2) mods by (subst links_upd; (subst links_upd)?) (auto simp: j ys add.assoc)
    ultimately show ?thesis
      using ev within_trans [OF h1(3) h2(3), of "{f, f + 4}"] by (intro exI [of _ h2] exI [of _ r]) (simp add: v j ys)
  next
    case False
    then have j: "k' = k" "ys' = ys" using assms(10) by (auto simp: joined_next_def)
    have "4 dvd f + 4" using fd by presburger
    then have "w (f + 4) \<noteq> None" using assms(9) [of "f + 4"] n q(3) by simp
    then obtain h1 where h1: "store_word (d + of_nat (f + 4)) cur h = Some h1" "view h1 d n = w(f + 4 \<mapsto> cur)" "within d {f + 4} h h1"
      using store_at [OF _ assms(2), of h "f + 4" cur] by (auto simp: w_def)
    have ne: "d + of_nat f + of_nat k \<noteq> cur"
    proof (cases "frees (f + k) ys")
      case Nil
      then show ?thesis using area_simps(3) [OF assms(2), of "f + k" 0] n by (simp add: assms(12) add.assoc)
    next
      case (Cons g gs)
      from Cons obtain m zs where ys: "ys = (m, True) # zs" using False by (cases ys) (auto simp: prod_eq_iff)
      have "fst g \<in> fst ` set (frees (f + k + m) zs)" using Cons by (simp add: ys)
      then have "f + k + m \<le> fst g" "fst g \<le> n" "8 \<le> m"
        using frees_mod [of zs "f + k + m" "fst g"] q(2,4) fd n by (auto simp: ys)
      then have "d + of_nat (f + k) \<noteq> d + of_nat (fst g)" using area_simps(1) [OF assms(2), of "f + k" "fst g"] n by simp
      then show ?thesis using Cons by (simp add: assms(12) add.assoc)
    qed
    have mods: "8 dvd i" if "i \<in> set (as @ ?B)" for i using that assms(8) B unfolding set_append by blast
    have nf: "i + 4 \<noteq> f + 4" if "i \<in> set (as @ ?B)" for i
    proof -
      from that consider "i \<in> set as" | "i \<in> set ?B" unfolding set_append by blast
      then show ?thesis by cases (use A B q(3) in fastforce)+
    qed
    have "heads (w(f + 4 \<mapsto> cur)) 0 (xs @ (k', False) # ys')"
    proof -
      have "4 dvd i + 4 \<and> \<not> 8 dvd i + 4" if "8 dvd i" for i :: nat using that by presburger
      then have "f + 4 \<noteq> i" if "8 dvd i" for i using that fd by blast
      then have "heads (w(f + 4 \<mapsto> cur)) 0 (xs @ (k, False) # ys) = heads w 0 (xs @ (k, False) # ys)"
        by (intro heads_upd) (use assms(4) in auto)
      then show ?thesis using assms(3) by (simp add: j w_def)
    qed
    moreover have "links (w(f + 4 \<mapsto> cur)) d p (as @ ?B)"
      using assms(7) nf by (subst links_upd) (auto simp: assms(11) [symmetric])
    moreover have "links (w(f + 4 \<mapsto> cur)) d cur (List.map fst (frees (f + k') ys'))"
      using c nf by (subst links_upd) (auto simp: j)
    moreover have "join_next (d + of_nat f) cur b h = Some (b\<lparr>nFreeSeg := nFreeSeg b + 1\<rparr>, h1)"
      using len ne h1(1) unfolding join_next_def by (simp add: a4 del: of_nat_add)
    ultimately show ?thesis
      using within_mono [OF h1(3), of "{f, f + 4}"] by (intro exI [of _ h1] exI [of _ cur]) (simp add: h1(2) j)
  qed
qed

lemma frees_last:
  assumes "xs \<noteq> []" "\<not> snd (last xs)"
  shows "xs = butlast xs @ [(fst (last xs), False)]"
    "frees off xs = frees off (butlast xs) @ [(off + seg_total (butlast xs), fst (last xs))]"
proof -
  show e: "xs = butlast xs @ [(fst (last xs), False)]"
    using assms append_butlast_last_id [of xs] by (cases "last xs") auto
  show "frees off xs = frees off (butlast xs) @ [(off + seg_total (butlast xs), fst (last xs))]"
    by (subst e) simp
qed

lemma raise_max_fields [simp]:
  "blk_base (raise_max k b) = blk_base b" "blk_len (raise_max k b) = blk_len b" "nAllocSeg (raise_max k b) = nAllocSeg b"
  "nFreeSeg (raise_max k b) = nFreeSeg b" "hdFreeSeg (raise_max k b) = hdFreeSeg b"
  "maxFreeSegLen b \<le> maxFreeSegLen (raise_max k b)" "k \<le> maxFreeSegLen (raise_max k b)"
  by (auto simp: raise_max_def)

lemma join_prev_spec:
  fixes h d n
  defines "w \<equiv> view h d n"
  assumes "area d n" "heads w 0 (xs @ (k, False) # ys)" "quanta (xs @ (k, False) # ys)"
    and "seg_total (xs @ (k, False) # ys) = n" "f = seg_total xs"
    and "links w d (hdFreeSeg b) (List.map fst (frees 0 xs) @ cs)"
    and "w (f + 4) = Some q" "links w d q (List.map fst (frees (f + k) ys))"
    and "\<And>i. i < n \<Longrightarrow> 4 dvd i \<Longrightarrow> w i \<noteq> None" "joined_prev xs k = (xs', k')"
    and "prev = (if List.map fst (frees 0 xs) = [] then 0 else d + of_nat (last (List.map fst (frees 0 xs))))"
    and "\<And>i. i \<in> set cs \<Longrightarrow> 8 dvd i"
  shows "\<exists>b' h'. join_prev (d + of_nat f) prev b h = Some (b', h')
      \<and> within d (free_span xs) h h' \<and> heads (view h' d n) 0 (xs' @ (k', False) # ys)
      \<and> links (view h' d n) d (hdFreeSeg b') (List.map fst (frees 0 (xs' @ (k', False) # ys)))
      \<and> blk_base b' = blk_base b \<and> blk_len b' = blk_len b \<and> nAllocSeg b' = nAllocSeg b
      \<and> nFreeSeg b' = (if xs' = xs then nFreeSeg b else nFreeSeg b - 1)
      \<and> maxFreeSegLen b \<le> maxFreeSegLen b' \<and> of_nat k' \<le> maxFreeSegLen b'"
proof -
  let ?A = "List.map fst (frees 0 xs)" and ?B = "List.map fst (frees (f + k) ys)"
  have qs: "quanta xs" "8 dvd k" "8 \<le> k" "quanta ys" using assms(4) by simp_all
  have fd: "8 dvd f" using quanta_total [OF qs(1)] by (simp add: assms(6))
  have n: "n = f + k + seg_total ys" using assms(5,6) by simp
  have lt: "n < 2 ^ 32" using assms(2) by (simp add: area_def)
  have a4: "d + of_nat i + 4 = d + of_nat (i + 4)" for i by simp
  have len: "h (d + of_nat f) = Some (of_nat k)"
    using assms(3) seg_word_parts(1) [OF qs(2)] n lt view_read [of h d n f] by (simp add: assms(6) w_def)
  have A: "8 dvd i \<and> i + 8 \<le> f" if "i \<in> set ?A" for i
    using frees_mod [OF qs(1), of 0 i] that by (simp add: assms(6))
  have B: "8 dvd i \<and> f + k \<le> i \<and> i + 8 \<le> n" if "i \<in> set ?B" for i
    using frees_mod [OF qs(4), of "f + k" i] that fd qs(2) n by simp
  show ?thesis
  proof (cases "xs \<noteq> [] \<and> \<not> snd (last xs)")
    case True
    let ?g = "seg_total (butlast xs)" and ?l = "fst (last xs)" and ?A' = "List.map fst (frees 0 (butlast xs))"
    note last = frees_last [of xs]
    have x: "xs = butlast xs @ [(?l, False)]" "?A = ?A' @ [?g]" using last True by simp_all
    have j: "xs' = butlast xs" "k' = ?l + k" using assms(11) True by (auto simp: joined_prev_def)
    have gl: "f = ?g + ?l" "quanta (butlast xs)" "8 dvd ?l" "8 \<le> ?l"
      using arg_cong [OF x(1), of seg_total] arg_cong [OF x(1), of quanta] qs(1) by (simp_all add: assms(6))
    have gd: "8 dvd ?g" using quanta_total [OF gl(2)] .
    have hx: "heads w 0 (butlast xs)" "w ?g = Some (seg_word (?l, False))" "heads w (f + k) ys"
      using assms(3) arg_cong [OF x(1), of "heads w 0"] by (simp_all add: assms(6) [symmetric] w_def)
    have pv: "prev = d + of_nat ?g" using assms(12) by (simp add: x(2))
    have nz: "prev \<noteq> 0" using area_simps(3) [OF assms(2), of ?g 0] gl(1) n by (simp add: pv)
    have adj: "prev + of_nat ?l = d + of_nat f" by (simp add: pv gl(1) add.assoc)
    have lp: "h (d + of_nat ?g) = Some (of_nat ?l)"
      using hx(2) seg_word_parts(1) [OF gl(3)] gl(1) n lt view_read [of h d n ?g] by (simp add: w_def)
    obtain h1 where h1: "store_word (d + of_nat ?g) (of_nat (?l + k)) h = Some h1" "view h1 d n = w(?g \<mapsto> of_nat (?l + k))" "within d {?g} h h1"
      using store_at [OF _ assms(2), of h ?g "of_nat (?l + k)"] hx(2) by (auto simp: w_def)
    have gf: "?g \<noteq> f + 4" "?g \<noteq> f" using gl by simp_all
    have q1: "h1 (d + of_nat (f + 4)) = Some q"
      by (rule view_read [where h = h1 and n = n]) (use gf assms(8) in \<open>simp add: h1(2)\<close>)
    have "4 dvd ?g + 4" using gd by presburger
    then have "view h1 d n (?g + 4) \<noteq> None" unfolding h1(2) using assms(10) [of "?g + 4"] n gl by simp
    then obtain h2 where h2: "store_word (d + of_nat (?g + 4)) q h1 = Some h2" "view h2 d n = (view h1 d n)(?g + 4 \<mapsto> q)" "within d {?g + 4} h1 h2"
      using store_at [OF _ assms(2), of h1 "?g + 4" q] by blast
    have "(?g, ?l) \<in> set (frees 0 xs)" using last(2) [of 0] True by simp
    then have in_free: "{?g} \<union> {?g + 4} \<subseteq> free_span xs" using free_spanI [of ?g ?l xs] gl(4) by auto
    let ?w1 = "w(?g \<mapsto> of_nat (?l + k))"
    let ?v = "?w1(?g + 4 \<mapsto> q)"
    have par: "i + 4 \<noteq> ?g" if "8 dvd i" for i using that gd by presburger
    have ev: "join_prev (d + of_nat f) prev b h = Some ((raise_max (of_nat (?l + k)) b)\<lparr>nFreeSeg := nFreeSeg (raise_max (of_nat (?l + k)) b) - 1\<rparr>, h2)"
      using len lp h1(1) q1 h2(1) nz adj unfolding join_prev_def pv by (simp add: a4 del: of_nat_add) (simp add: add.assoc)
    have "heads ?v 0 (xs' @ (k', False) # ys)"
    proof -
      have "heads ?v 0 (butlast xs) = heads w 0 (butlast xs)" "heads ?v (f + k) ys = heads w (f + k) ys"
        using qs gl gd fd by (intro heads_frame; auto)+
      then show ?thesis using hx gl(1) by (simp add: j seg_word_def add.assoc)
    qed
    moreover have "links ?v d (hdFreeSeg b) (List.map fst (frees 0 (xs' @ (k', False) # ys)))"
    proof -
      have dv: "8 dvd i" if "i \<in> set (?A' @ [?g])" for i using A [of i] that unfolding x(2) by blast
      have "links w d (hdFreeSeg b) ((?A' @ [?g]) @ cs)" using assms(7) unfolding x(2) .
      then have "links ?w1 d (hdFreeSeg b) (?A' @ ?g # cs)"
        using par dv assms(13) by (subst links_upd) auto
      moreover have "links ?w1 d q ?B" using assms(9) par B by (subst links_upd) auto
      moreover have "?g \<notin> set ?B"
      proof
        assume "?g \<in> set ?B"
        from B [OF this] show False using gl by simp
      qed
      moreover have "distinct (?A' @ [?g])" using frees_distinct [OF qs(1), of 0] unfolding x(2) .
      ultimately have "links ?v d (hdFreeSeg b) (?A' @ ?g # ?B)" by (intro links_relink)
      then show ?thesis using gl(1) by (simp add: j add.assoc)
    qed
    moreover have "view h2 d n = ?v" by (simp add: h1(2) h2(2))
    ultimately have "heads (view h2 d n) 0 (xs' @ (k', False) # ys)"
      "links (view h2 d n) d (hdFreeSeg b) (List.map fst (frees 0 (xs' @ (k', False) # ys)))" by (simp_all only:)
    moreover have "butlast xs \<noteq> xs" using True by (metis append_butlast_last_id not_Cons_self2 self_append_conv)
    moreover have "of_nat k' \<le> maxFreeSegLen (raise_max (of_nat (?l + k)) b)" unfolding j by (rule raise_max_fields(7))
    ultimately show ?thesis
      using ev within_trans [OF h1(3) h2(3) in_free] raise_max_fields(1-6) [where b = b and k = "of_nat (?l + k)"]
      by (intro exI [of _ "(raise_max (of_nat (?l + k)) b)\<lparr>nFreeSeg := nFreeSeg (raise_max (of_nat (?l + k)) b) - 1\<rparr>"] exI [of _ h2])
        (simp add: j(1))
  next
    case False
    have j: "xs' = xs" "k' = k" using False assms(11) by (auto simp: joined_prev_def)
    have "(if prev \<noteq> 0 then do { n \<leftarrow> h prev; Some (prev + n = d + of_nat f) } else Some False) = Some False"
    proof (cases "frees 0 xs" rule: rev_cases)
      case Nil
      then show ?thesis by (simp add: assms(12))
    next
      case (snoc us g)
      obtain i l where g: "g = (i, l)" by (cases g)
      from snoc have "xs \<noteq> []" by auto
      with False have x: "xs = butlast xs @ [(fst (last xs), True)]"
        using append_butlast_last_id [of xs] by (cases "last xs") auto
      have "f = seg_total (butlast xs) + fst (last xs)" "8 \<le> fst (last xs)" "frees 0 xs = frees 0 (butlast xs)"
        using arg_cong [OF x, of seg_total] arg_cong [OF x, of quanta] arg_cong [OF x, of "frees 0"] qs(1) by (simp_all add: assms(6))
      moreover have "(i, l) \<in> set (frees 0 xs)" by (simp add: snoc g)
      ultimately have il: "i + l < f" "8 dvd l" "w i = Some (of_nat l)"
        using frees_bounds [of "(i, l)" 0 "butlast xs"] frees_quanta [OF qs(1), of 0 "(i, l)"] assms(3) n lt
          heads_free [of w 0 xs i l] seg_word_parts(1) [of l] by (auto simp: w_def)
      then have "d + of_nat (i + l) \<noteq> d + of_nat f" using area_simps(1) [OF assms(2), of "i + l" f] n by simp
      then show ?thesis using view_read [of h d n i] il(3) by (simp add: assms(12) snoc g w_def add.assoc)
    qed
    then have ev: "join_prev (d + of_nat f) prev b h
        = map_option (\<lambda>(b, h). (raise_max (of_nat k) b, h)) (set_next prev (d + of_nat f) b h)"
      using len by (simp add: join_prev_def split_def map_conv_bind_option comp_def)
    have lf: "links w d (d + of_nat f) (f # ?B)" using assms(8,9) by simp
    obtain b1 h1 where h1: "set_next prev (d + of_nat f) b h = Some (b1, h1)" "links (view h1 d n) d (hdFreeSeg b1) (?A @ f # ?B)"
      "b1 = b\<lparr>hdFreeSeg := hdFreeSeg b1\<rparr>" "within d ((\<lambda>i. i + 4) ` set ?A) h h1" "view h1 d n = (if ?A = [] then w else w(last ?A + 4 \<mapsto> d + of_nat f))"
    proof -
      have "i + 8 \<le> n \<and> w (i + 4) \<noteq> None" if i: "i \<in> set ?A" for i
      proof -
        have "4 dvd i + 4" using A [OF i] by presburger
        then show ?thesis using A [OF i] assms(10) [of "i + 4"] n qs(3) by simp
      qed
      moreover have "set ?A \<inter> set (f # ?B) = {}"
      proof -
        have "i < f" if "i \<in> set ?A" for i using A [OF that] by simp
        moreover have "f \<le> i" if "i \<in> set (f # ?B)" for i using B [of i] that by (cases "i \<in> set ?B") simp_all
        ultimately show ?thesis by (meson disjoint_iff not_le)
      qed
      ultimately show ?thesis
        using set_next_spec [OF assms(7) [unfolded w_def] lf [unfolded w_def] assms(2)] frees_distinct [OF qs(1), of 0] that
        unfolding w_def assms(12) by blast
    qed
    have "heads (view h1 d n) 0 (xs @ (k, False) # ys)"
    proof (cases "?A = []")
      case False
      then have "8 dvd last ?A" using A [OF last_in_set] by blast
      then have "last ?A + 4 \<noteq> i" if "8 dvd i" for i using that by presburger
      then have "heads (w(last ?A + 4 \<mapsto> d + of_nat f)) 0 (xs @ (k, False) # ys) = heads w 0 (xs @ (k, False) # ys)"
        by (intro heads_upd assms(4)) auto
      then show ?thesis using assms(3) False by (simp add: h1(5) w_def)
    qed (use assms(3) in \<open>simp add: h1(5) w_def\<close>)
    moreover have "blk_base b1 = blk_base b" "blk_len b1 = blk_len b" "nAllocSeg b1 = nAllocSeg b" "nFreeSeg b1 = nFreeSeg b"
      "maxFreeSegLen b1 = maxFreeSegLen b" by (subst h1(3), simp)+
    ultimately show ?thesis
      using h1(1,2) within_mono [OF h1(4), of "free_span xs"] free_span_links [OF qs(1)] ev raise_max_fields(6,7) [where b = b1 and k = "of_nat k"]
      by (intro exI [of _ "raise_max (of_nat k) b1"] exI [of _ h1]) (simp add: j assms(6))
  qed
qed

lemma joined_next_props:
  assumes "joined_next k ys = (k', ys')" "quanta ys" "coalesced ys" "8 dvd k" "8 \<le> k"
  shows "quanta ys'" "coalesced ys'" "8 dvd k'" "8 \<le> k'" "k' + seg_total ys' = k + seg_total ys" "set ys' \<subseteq> set ys"
    "n_alloc ys' = n_alloc ys" "n_free ys' + of_bool (ys' \<noteq> ys) = n_free ys" "used ys' = used ys" "ys' \<noteq> [] \<longrightarrow> snd (hd ys')"
  using assms by (cases ys; auto simp: joined_next_def coalesced_Cons split: if_splits)+

lemma joined_prev_props:
  assumes "joined_prev xs k = (xs', k')" "quanta xs" "coalesced xs" "8 dvd k" "8 \<le> k"
  shows "quanta xs'" "coalesced xs'" "8 dvd k'" "8 \<le> k'" "seg_total xs' + k' = seg_total xs + k" "set xs' \<subseteq> set xs"
    "n_alloc xs' = n_alloc xs" "n_free xs' + of_bool (xs' \<noteq> xs) = n_free xs" "used xs' = used xs" "xs' \<noteq> [] \<longrightarrow> snd (last xs')"
    "seg_total xs' \<le> seg_total xs" "free_span xs \<subseteq> free_span xs' \<union> {seg_total xs'..<seg_total xs' + k'}"
proof -
  have "quanta xs' \<and> coalesced xs' \<and> 8 dvd k' \<and> 8 \<le> k' \<and> seg_total xs' + k' = seg_total xs + k \<and> set xs' \<subseteq> set xs
      \<and> n_alloc xs' = n_alloc xs \<and> n_free xs' + of_bool (xs' \<noteq> xs) = n_free xs \<and> used xs' = used xs \<and> (xs' \<noteq> [] \<longrightarrow> snd (last xs'))
      \<and> seg_total xs' \<le> seg_total xs \<and> free_span xs \<subseteq> free_span xs' \<union> {seg_total xs'..<seg_total xs' + k'}"
  proof (cases xs rule: rev_cases)
    case (snoc us u)
    then show ?thesis using assms
      by (auto simp: joined_prev_def coalesced_append coalesced_Cons dvd_add free_span_def split: if_splits)
  qed (use assms in \<open>auto simp: joined_prev_def\<close>)
  then show "quanta xs'" "coalesced xs'" "8 dvd k'" "8 \<le> k'" "seg_total xs' + k' = seg_total xs + k" "set xs' \<subseteq> set xs"
    "n_alloc xs' = n_alloc xs" "n_free xs' + of_bool (xs' \<noteq> xs) = n_free xs" "used xs' = used xs" "xs' \<noteq> [] \<longrightarrow> snd (last xs')"
    "seg_total xs' \<le> seg_total xs" "free_span xs \<subseteq> free_span xs' \<union> {seg_total xs'..<seg_total xs' + k'}"
    by blast+
qed

text \<open>Freeing in a block that keeps other segments implements \<open>release\<close>.\<close>

lemma free_in_block:
  assumes rep: "block_rep h b ss" and ss: "ss = xs @ (k, True) # ys"
  shows "\<exists>prev cur b1 h1 b2 h2. let freeSeg = blk_data b + of_nat (seg_total xs); h0 = h(freeSeg \<mapsto> of_nat k) in
      free_pos freeSeg 0 (hdFreeSeg b) h0 = Some (prev, cur)
      \<and> join_next freeSeg cur (b\<lparr>nAllocSeg := nAllocSeg b - 1\<rparr>) h0 = Some (b1, h1)
      \<and> join_prev freeSeg prev b1 h1 = Some (b2, h2) \<and> block_rep h2 b2 (fuse (xs @ (k, False) # ys))
      \<and> blk_base b2 = blk_base b \<and> blk_len b2 = blk_len b \<and> within (blk_data b) (free_span (fuse (xs @ (k, False) # ys))) h h2"
proof -
  let ?d = "blk_data b" and ?n = "seg_total ss" and ?f = "seg_total xs"
  let ?w = "view h ?d ?n" and ?h0 = "h(?d + of_nat ?f \<mapsto> of_nat k)" and ?b0 = "b\<lparr>nAllocSeg := nAllocSeg b - 1\<rparr>"
  let ?A = "List.map fst (frees 0 xs)" and ?B = "List.map fst (frees (?f + k) ys)"
  note ar = block_area [OF rep]
  have q: "quanta ss" and co: "coalesced ss" and sr: "seg_rep h ?d (hdFreeSeg b) ss" using rep by (auto simp: block_rep_def)
  have qs: "quanta xs" "quanta ys" "8 dvd k" "8 \<le> k" and cs: "coalesced xs" "coalesced ys"
    using q co by (auto simp: ss coalesced_append coalesced_Cons)
  have fd: "8 dvd ?f" using quanta_total [OF qs(1)] .
  have fn: "?f < ?n" "?n = ?f + k + seg_total ys" using qs by (simp_all add: ss)
  have w0: "view ?h0 ?d ?n = ?w(?f \<mapsto> of_nat k)" by (rule view_store [OF ar(1) fn(1)])
  have A: "8 dvd i \<and> i + 8 \<le> ?f" if "i \<in> set ?A" for i using frees_mod [OF qs(1), of 0 i] that by simp
  have B: "8 dvd i \<and> ?f + k \<le> i \<and> i + 8 \<le> ?n" if "i \<in> set ?B" for i
    using frees_mod [OF qs(2), of "?f + k" i] that fd qs(3) fn(2) by simp
  have AB: "8 dvd i \<and> i + 8 \<le> ?n" if "i \<in> set (?A @ ?B)" for i
    using that A B fn(2) unfolding set_append by fastforce
  have l0: "links (view ?h0 ?d ?n) ?d (hdFreeSeg b) (?A @ ?B)"
  proof -
    have "i + 4 \<noteq> ?f" if "8 dvd i" for i using that fd by presburger
    then show ?thesis unfolding w0 using sr AB by (subst links_upd) (auto simp: seg_rep_def ss)
  qed
  have h0: "heads (view ?h0 ?d ?n) 0 (xs @ (k, False) # ys)"
  proof -
    have "heads (?w(?f \<mapsto> of_nat k)) 0 xs = heads ?w 0 xs" "heads (?w(?f \<mapsto> of_nat k)) (?f + k) ys = heads ?w (?f + k) ys"
      using qs fd by (intro heads_upd; auto)+
    then show ?thesis unfolding w0 using sr by (simp add: seg_rep_def ss seg_word_def)
  qed
  have c0: "view ?h0 ?d ?n i \<noteq> None" if "i < ?n" "4 dvd i" for i unfolding w0 using sr that by (auto simp: seg_rep_def)
  have wi: "within ?d {?f} h ?h0"
  proof -
    have "?w ?f = Some (seg_word (k, True))" using sr by (simp add: seg_rep_def ss)
    then show ?thesis using store_at [OF _ ar(1), of h ?f "of_nat k"] store_view [of h ?d ?n ?f _ "of_nat k"] by auto
  qed
  obtain k1 ys' where j1: "joined_next k ys = (k1, ys')" by (cases "joined_next k ys")
  obtain xs' k2 where j2: "joined_prev xs k1 = (xs', k2)" by (cases "joined_prev xs k1")
  note p1 = joined_next_props [OF j1 qs(2) cs(2) qs(3,4)]
  note p2 = joined_prev_props [OF j2 qs(1) cs(1) p1(3,4)]
  define prev where "prev = (if ?A = [] then 0 else ?d + of_nat (last ?A))"
  define cur where "cur = (if ?B = [] then 0 else ?d + of_nat (hd ?B))"
  have pos: "free_pos (?d + of_nat ?f) 0 (hdFreeSeg b) ?h0 = Some (prev, cur)"
    unfolding prev_def cur_def
  proof (rule free_pos_spec [OF l0 ar(1)])
    show "i < ?f" if "i \<in> set ?A" for i using A [OF that] by simp
    show "?f \<le> i" if "i \<in> set ?B" for i using B [OF that] by simp
    show "i + 8 \<le> ?n" if "i \<in> set (?A @ ?B)" for i using AB [OF that] by simp
  qed (use fn in simp)
  have tot: "seg_total (xs @ (k, False) # ys) = ?n" "quanta (xs @ (k, False) # ys)" using qs by (simp_all add: ss)
  obtain h1 qn where s1: "join_next (?d + of_nat ?f) cur ?b0 ?h0 = Some (if ys' = ys then ?b0\<lparr>nFreeSeg := nFreeSeg ?b0 + 1\<rparr> else ?b0, h1)"
    "within ?d {?f, ?f + 4} ?h0 h1" "heads (view h1 ?d ?n) 0 (xs @ (k1, False) # ys')" "links (view h1 ?d ?n) ?d (hdFreeSeg b) (?A @ ?B)"
    "view h1 ?d ?n (?f + 4) = Some qn" "links (view h1 ?d ?n) ?d qn (List.map fst (frees (?f + k1) ys'))"
  proof -
    have "cur = (case frees (?f + k) ys of [] \<Rightarrow> 0 | g # _ \<Rightarrow> ?d + of_nat (fst g))"
      by (cases "frees (?f + k) ys") (simp_all add: cur_def)
    moreover have "8 dvd i \<and> i < ?f" if "i \<in> set ?A" for i using A [OF that] by simp
    ultimately show ?thesis
      using join_next_spec [OF ar(1) h0 tot(2,1) cs(2) l0 _ c0 j1 refl, where b = ?b0] that by blast
  qed
  let ?b1 = "if ys' = ys then ?b0\<lparr>nFreeSeg := nFreeSeg ?b0 + 1\<rparr> else ?b0"
  have hd1: "hdFreeSeg ?b1 = hdFreeSeg b" by simp
  have tot1: "seg_total (xs @ (k1, False) # ys') = ?n" "quanta (xs @ (k1, False) # ys')" using qs p1 by (simp_all add: ss)
  have c1: "view h1 ?d ?n i \<noteq> None" if "i < ?n" "4 dvd i" for i using c0 [OF that] within_view [OF s1(2)] by simp
  obtain b2 h2 where s2: "join_prev (?d + of_nat ?f) prev ?b1 h1 = Some (b2, h2)" "within ?d (free_span xs) h1 h2"
    "heads (view h2 ?d ?n) 0 (xs' @ (k2, False) # ys')"
    "links (view h2 ?d ?n) ?d (hdFreeSeg b2) (List.map fst (frees 0 (xs' @ (k2, False) # ys')))"
    "blk_base b2 = blk_base ?b1" "blk_len b2 = blk_len ?b1" "nAllocSeg b2 = nAllocSeg ?b1"
    "nFreeSeg b2 = (if xs' = xs then nFreeSeg ?b1 else nFreeSeg ?b1 - 1)"
    "maxFreeSegLen ?b1 \<le> maxFreeSegLen b2" "of_nat k2 \<le> maxFreeSegLen b2"
    using join_prev_spec [OF ar(1) s1(3) tot1(2,1) refl s1(4) [folded hd1] s1(5,6) c1 j2 prev_def] B by blast
  let ?ts = "xs' @ (k2, False) # ys'"
  have ts: "fuse (xs @ (k, False) # ys) = ?ts" using fuse_release [OF cs] by (simp add: j1 j2)
  have total: "seg_total ?ts = ?n" using p1(5) p2(5) tot1(1) by simp
  have "block_rep h2 b2 ?ts"
    unfolding block_rep_def
  proof (intro conjI allI impI)
    show "seg_rep h2 (blk_data b2) (hdFreeSeg b2) ?ts"
    proof -
      have "blk_data b2 = ?d" using s2(5) by (simp add: blk_data_def)
      moreover have "\<forall>i < ?n. 4 dvd i \<longrightarrow> view h2 ?d ?n i \<noteq> None" using c1 within_view [OF s2(2)] by blast
      ultimately show ?thesis unfolding seg_rep_def total using s2(3,4) by metis
    qed
    show "nFreeSeg b2 = of_nat (n_free ?ts)" "nAllocSeg b2 = of_nat (n_alloc ?ts)"
    proof -
      have step: "ys' \<noteq> ys \<Longrightarrow> n_free ys = Suc (n_free ys')" "xs' \<noteq> xs \<Longrightarrow> n_free xs = Suc (n_free xs')"
        using p1(8) p2(8) by simp_all
      have "nFreeSeg b = of_nat (n_free xs) + of_nat (n_free ys)" "nAllocSeg b = of_nat (n_alloc xs) + 1 + of_nat (n_alloc ys)"
        using rep by (simp_all add: block_rep_def ss)
      moreover from this have "nFreeSeg ?b1 = of_nat (n_free xs) + of_nat (n_free ys') + 1"
        using step(1) by (cases "ys' = ys") simp_all
      then have "nFreeSeg b2 = of_nat (n_free xs') + of_nat (n_free ys') + 1"
        using s2(8) step(2) by (cases "xs' = xs") simp_all
      ultimately show "nFreeSeg b2 = of_nat (n_free ?ts)" "nAllocSeg b2 = of_nat (n_alloc ?ts)"
        using s2(7) p1(7) p2(7) by simp_all
    qed
    show "coalesced ?ts" using p1(2,10) p2(2,10) by (auto simp: coalesced_append coalesced_Cons)
    show "of_nat n \<le> maxFreeSegLen b2" if "(n, False) \<in> set ?ts" for n
    proof -
      from that consider "(n, False) \<in> set ss" | "n = k2" using p1(6) p2(6) by (auto simp: ss)
      then show ?thesis
      proof cases
        case 1
        then have "of_nat n \<le> maxFreeSegLen ?b1" using rep by (simp add: block_rep_def)
        then show ?thesis using s2(9) by simp
      qed (use s2(10) in simp)
    qed
  qed (use rep s2(5,6) total p1 p2 in \<open>auto simp: block_rep_def\<close>)
  moreover have "blk_base b2 = blk_base b" "blk_len b2 = blk_len b" using s2(5,6) by simp_all
  moreover have "within ?d (free_span ?ts) h h2"
  proof (rule within_trans [OF within_trans [OF wi s1(2) subset_refl] s2(2)])
    have "{seg_total xs'..<seg_total xs' + k2} \<subseteq> free_span ?ts" by (rule free_spanI) simp
    moreover have "?f \<in> {seg_total xs'..<seg_total xs' + k2}" "?f + 4 \<in> {seg_total xs'..<seg_total xs' + k2}"
      using p2(5,11) p1(4) by simp_all
    moreover have "free_span xs' \<subseteq> free_span ?ts" by (auto simp: free_span_def)
    ultimately show "({?f} \<union> {?f, ?f + 4}) \<union> free_span xs \<subseteq> free_span ?ts" using p2(12) by blast
  qed
  ultimately show ?thesis
    using pos s1(1) s2(1) unfolding ts Let_def
    by (intro exI [of _ prev] exI [of _ cur] exI [of _ ?b1] exI [of _ h1] exI [of _ b2] exI [of _ h2] conjI)
qed

end
