(* ===== verification/MSA_Alloc.thy ===== *)
theory MSA_Alloc imports MSA begin

text \<open>
  The whole state of the segment allocator (header/MSA.h and API/MSA) read as a list of segments for every
  block: \<open>msa_rep\<close> says that a state represents such lists, with its blocks apart and its counts exact.
  Adding a block, allocating and freeing implement the operations on these lists (\<open>addBlk_spec\<close>,
  \<open>alloc_spec\<close>, \<open>free_spec\<close>).
\<close>

subsection \<open>The allocator's state\<close>

definition extent :: "SegBlk \<Rightarrow> addr set" where
  "extent b = span (blk_base b) (unat (blk_len b))"

definition blk_use :: "seg list \<Rightarrow> nat" where
  "blk_use ss = 28 + seg_total ss"

definition sum_of :: "('a \<Rightarrow> nat) \<Rightarrow> 'a list \<Rightarrow> u32" where
  "sum_of f xs = of_nat (sum_list (List.map f xs))"

definition msa_rep :: "MSA \<Rightarrow> seg list list \<Rightarrow> bool" where
  "msa_rep m bss \<longleftrightarrow> list_all2 (block_rep (words m)) (blks m) bss
     \<and> sorted_wrt (\<lambda>a b. extent a \<inter> extent b = {}) (blks m)
     \<and> (\<forall>ss \<in> set bss. 0 < n_alloc ss)
     \<and> (if blks m = [] then currBlk m = 0 else currBlk m \<in> blk_base ` set (blks m))
     \<and> nBlk m = of_nat (length bss) \<and> nSeg m = sum_of n_alloc bss \<and> currUse m = sum_of used bss
     \<and> totUse m = sum_of blk_use bss \<and> (\<exists>k. unat (blkLen m) = 28 + 8 * k)"

text \<open>What the allocator relies on: a block that \<open>new\<close> returns neither wraps around nor overlaps the others.\<close>

definition new_ok :: "new_op \<Rightarrow> MSA \<Rightarrow> bool" where
  "new_ok os m \<longleftrightarrow> (\<forall>len base c. os len = Some (base, c) \<longrightarrow> base \<noteq> 0 \<and> unat base + unat len < 2 ^ 32
     \<and> (\<forall>b \<in> set (blks m). span base (unat len) \<inter> extent b = {}))"

lemma sum_of_simps [simp]: "sum_of f [] = 0" "sum_of f (x # xs) = of_nat (f x) + sum_of f xs"
    "sum_of f (xs @ ys) = sum_of f xs + sum_of f ys"
  by (simp_all add: sum_of_def)

lemma sum_of_update:
  assumes "i < length xs"
  shows "sum_of f (xs[i := x]) = sum_of f xs - of_nat (f (xs ! i)) + of_nat (f x)"
proof -
  have "sum_of f (xs[i := x]) = sum_of f (take i xs) + (of_nat (f x) + sum_of f (drop (Suc i) xs))"
    by (simp add: upd_conv_take_nth_drop assms)
  moreover have "sum_of f xs = sum_of f (take i xs) + (of_nat (f (xs ! i)) + sum_of f (drop (Suc i) xs))"
    by (subst id_take_nth_drop [OF assms]) simp
  ultimately show ?thesis by simp
qed

lemma blk_index_nth: "blk_index a bs = Some i \<Longrightarrow> i < length bs \<and> blk_base (bs ! i) = a"
  by (induction bs arbitrary: i) (auto split: if_splits)

lemma blk_index_known: "a \<in> blk_base ` set bs \<Longrightarrow> \<exists>i. blk_index a bs = Some i"
  by (induction bs) auto

text \<open>Blocks outside which nothing changes keep their segments.\<close>

lemma data_extent:
  assumes "block_rep h b ss" "i < seg_total ss"
  shows "blk_data b + of_nat i \<in> extent b"
proof -
  have "blk_data b + of_nat i = blk_base b + of_nat (28 + i)" by (simp add: blk_data_def MSA_BLK_HDR_LENGTH_def)
  moreover have "28 + i < unat (blk_len b)" using assms by (simp add: block_rep_def)
  ultimately show ?thesis unfolding extent_def span_def by blast
qed

lemma block_rep_cong:
  assumes "block_rep h b ss" "\<And>a. a \<in> extent b \<Longrightarrow> h' a = h a"
  shows "block_rep h' b ss"
proof -
  have "view h' (blk_data b) (seg_total ss) = view h (blk_data b) (seg_total ss)"
    using assms(2) data_extent [OF assms(1)] by (auto simp: view_def fun_eq_iff)
  then show ?thesis using assms(1) by (simp add: block_rep_def seg_rep_def)
qed

lemma extent_same: "blk_base b' = blk_base b \<Longrightarrow> blk_len b' = blk_len b \<Longrightarrow> extent b' = extent b"
  by (simp add: extent_def)

lemma free_span_total: "i \<in> free_span ss \<Longrightarrow> i < seg_total ss"
  using frees_bounds [of _ 0 ss] by (fastforce simp: free_span_def)

lemma within_extent:
  assumes "within (blk_data b) F h h'" "block_rep g b ss" "\<And>i. i \<in> F \<Longrightarrow> i < seg_total ss" "a \<notin> extent b"
  shows "h' a = h a"
proof -
  have "a \<notin> (\<lambda>i. blk_data b + of_nat i) ` F" using data_extent [OF assms(2)] assms(3,4) by blast
  then show ?thesis using assms(1) by (simp add: within_def)
qed

lemma sorted_wrt_nth_sym:
  "sorted_wrt P xs \<Longrightarrow> (\<And>a b. P a b \<Longrightarrow> P b a) \<Longrightarrow> i < length xs \<Longrightarrow> j < length xs \<Longrightarrow> i \<noteq> j \<Longrightarrow> P (xs ! i) (xs ! j)"
  by (metis nat_neq_iff sorted_wrt_nth_less)

lemma sorted_wrt_upd:
  assumes "sorted_wrt P xs" "\<And>y. P (xs ! i) y \<Longrightarrow> P x y" "\<And>y. P y (xs ! i) \<Longrightarrow> P y x"
  shows "sorted_wrt P (xs[i := x])"
  using assms by (cases "i < length xs") (auto simp: sorted_wrt_iff_nth_less nth_list_update list_update_beyond)

text \<open>A block's segments replaced by others: what the operations in one block amount to.\<close>

definition replaced :: "nat \<Rightarrow> SegBlk \<Rightarrow> words \<Rightarrow> MSA \<Rightarrow> MSA" where
  "replaced i b h m = m\<lparr>blks := (blks m)[i := b], words := h\<rparr>"

lemma blocks_replaced:
  assumes "list_all2 (block_rep (words m)) (blks m) bss" "sorted_wrt (\<lambda>a b. extent a \<inter> extent b = {}) (blks m)"
    and "i < length bss" "block_rep h b ts" "blk_base b = blk_base (blks m ! i)" "blk_len b = blk_len (blks m ! i)"
    and "within (blk_data (blks m ! i)) F (words m) h" "\<And>j. j \<in> F \<Longrightarrow> j < seg_total (bss ! i)"
  shows "list_all2 (block_rep h) ((blks m)[i := b]) (bss[i := ts])"
    "sorted_wrt (\<lambda>a b. extent a \<inter> extent b = {}) ((blks m)[i := b])"
    "blk_base ` set ((blks m)[i := b]) = blk_base ` set (blks m)"
proof -
  have n: "length (blks m) = length bss" using assms(1) by (rule list_all2_lengthD)
  have e: "extent b = extent (blks m ! i)" using assms(5,6) by (rule extent_same)
  have bi: "block_rep (words m) (blks m ! i) (bss ! i)" using assms(1,3) n by (simp add: list_all2_nthD2)
  show "list_all2 (block_rep h) ((blks m)[i := b]) (bss[i := ts])"
  proof (rule list_all2_all_nthI)
    fix j assume j: "j < length ((blks m)[i := b])"
    show "block_rep h ((blks m)[i := b] ! j) (bss[i := ts] ! j)"
    proof (cases "j = i")
      case True
      then show ?thesis using assms(3,4) n by simp
    next
      case False
      have "block_rep (words m) (blks m ! j) (bss ! j)" using assms(1) j n by (simp add: list_all2_nthD2)
      moreover have "h a = words m a" if "a \<in> extent (blks m ! j)" for a
      proof (rule within_extent [OF assms(7) bi assms(8)])
        have "extent (blks m ! j) \<inter> extent (blks m ! i) = {}"
          by (rule sorted_wrt_nth_sym [OF assms(2)]) (use False j n assms(3) in auto)
        then show "a \<notin> extent (blks m ! i)" using that by blast
      qed
      ultimately show ?thesis using False by (simp add: block_rep_cong)
    qed
  qed (simp add: n)
  show "sorted_wrt (\<lambda>a b. extent a \<inter> extent b = {}) ((blks m)[i := b])"
    by (rule sorted_wrt_upd [OF assms(2)]) (simp_all add: e)
  have "i < length (blks m)" using n assms(3) by simp
  then show "blk_base ` set ((blks m)[i := b]) = blk_base ` set (blks m)"
    using assms(5) by (metis list_update_id map_update set_map)
qed

definition blocks_rep :: "MSA \<Rightarrow> seg list list \<Rightarrow> bool" where
  "blocks_rep m bss \<longleftrightarrow> list_all2 (block_rep (words m)) (blks m) bss \<and> sorted_wrt (\<lambda>a b. extent a \<inter> extent b = {}) (blks m)"

definition same_frame :: "MSA \<Rightarrow> MSA \<Rightarrow> bool" where
  "same_frame m m' \<longleftrightarrow> m' = m\<lparr>blks := blks m', words := words m'\<rparr> \<and> List.map blk_base (blks m') = List.map blk_base (blks m)
     \<and> List.map blk_len (blks m') = List.map blk_len (blks m)"

lemma same_frame_refl [simp, intro!]: "same_frame m m"
  by (simp add: same_frame_def)

lemma same_frame_trans: "same_frame a b \<Longrightarrow> same_frame b c \<Longrightarrow> same_frame a c"
  by (cases a; cases b; cases c) (simp add: same_frame_def)

lemma blocks_rep_nth:
  assumes "blocks_rep m bss" "i < length bss"
  shows "block_rep (words m) (blks m ! i) (bss ! i)" "i < length (blks m)"
  using assms by (auto simp: blocks_rep_def list_all2_nthD2 dest: list_all2_lengthD)

lemma blocks_rep_replaced:
  assumes "blocks_rep m bss" "i < length bss" "block_rep h b ts"
    and "blk_base b = blk_base (blks m ! i)" "blk_len b = blk_len (blks m ! i)"
    and "within (blk_data (blks m ! i)) F (words m) h" "\<And>j. j \<in> F \<Longrightarrow> j < seg_total (bss ! i)"
  shows "blocks_rep (m\<lparr>blks := (blks m)[i := b], words := h\<rparr>) (bss[i := ts])"
    "same_frame m (m\<lparr>blks := (blks m)[i := b], words := h\<rparr>)"
proof -
  show "blocks_rep (m\<lparr>blks := (blks m)[i := b], words := h\<rparr>) (bss[i := ts])"
    using blocks_replaced(1,2) [OF _ _ assms(2-7)] assms(1) by (simp add: blocks_rep_def)
  show "same_frame m (m\<lparr>blks := (blks m)[i := b], words := h\<rparr>)"
    using assms(4,5) blocks_rep_nth(2) [OF assms(1,2)] by (simp add: same_frame_def map_update list_update_same_conv)
qed

lemma carve_skipped:
  assumes "block_rep h b ss" "\<not> (hdFreeSeg b \<noteq> 0 \<and> of_nat req \<le> maxFreeSegLen b)" "req < 2 ^ 32"
  shows "carve req ss = None"
proof -
  have "n < req" if n: "(n, False) \<in> set ss" for n
  proof -
    have "hdFreeSeg b \<noteq> 0" using hdFreeSeg_null [OF assms(1)] n by blast
    then have "\<not> of_nat req \<le> maxFreeSegLen b" using assms(2) by blast
    moreover have "of_nat k \<le> maxFreeSegLen b" if "k \<le> n" for k
      using max_bound [OF _ block_area(3) [OF assms(1)] n that] assms(1) by (auto simp: block_rep_def)
    ultimately show ?thesis using not_le by blast
  qed
  then show ?thesis by (simp add: carve_None)
qed

lemma search_spec:
  assumes "blocks_rep m bss" "\<forall>i \<in> set is. i < length bss" "8 dvd req" "8 \<le> req" "req < 2 ^ 32"
  shows "\<exists>r m'. search (of_nat req) is m = Some (r, m') \<and> same_frame m m'
     \<and> (case r of
          None \<Rightarrow> blocks_rep m' bss \<and> words m' = words m \<and> (\<forall>i \<in> set is. carve req (bss ! i) = None)
        | Some (i, d) \<Rightarrow> i \<in> set is \<and> (\<exists>off ts. carve req (bss ! i) = Some (off, ts) \<and> d = blk_data (blks m ! i) + of_nat off
            \<and> blocks_rep m' (bss[i := ts]) \<and> within (blk_data (blks m ! i)) (free_span (bss ! i)) (words m) (words m')))"
  using assms(1,2)
proof (induction "is" arbitrary: m)
  case (Cons i "is")
  have i: "i < length bss" using Cons.prems(2) by simp
  note b = blocks_rep_nth [OF Cons.prems(1) i]
  let ?b = "blks m ! i"
  show ?case
  proof (cases "hdFreeSeg ?b \<noteq> 0 \<and> of_nat req \<le> maxFreeSegLen ?b")
    case False
    then have s: "search (of_nat req) (i # is) m = search (of_nat req) is m" by (auto simp: Let_def)
    have "\<forall>i \<in> set is. i < length bss" using Cons.prems(2) by simp
    from Cons.IH [OF Cons.prems(1) this] obtain x m' where x: "search (of_nat req) is m = Some (x, m')" "same_frame m m'"
      "case x of
          None \<Rightarrow> blocks_rep m' bss \<and> words m' = words m \<and> (\<forall>i \<in> set is. carve req (bss ! i) = None)
        | Some (i, d) \<Rightarrow> i \<in> set is \<and> (\<exists>off ts. carve req (bss ! i) = Some (off, ts) \<and> d = blk_data (blks m ! i) + of_nat off
            \<and> blocks_rep m' (bss[i := ts]) \<and> within (blk_data (blks m ! i)) (free_span (bss ! i)) (words m) (words m'))" by blast
    show ?thesis
      using x carve_skipped [OF b(1) False assms(5)] unfolding s
      by (intro exI [of _ x] exI [of _ m']) (auto split: option.splits)
  next
    case True
    note fit = fstFit_carve [OF b(1) assms(3-5) conjunct1 [OF True]]
    show ?thesis
    proof (cases "carve req (bss ! i)")
      case None
      with fit obtain b' where b': "fstFit (of_nat req) ?b (words m) = Some (0, b', words m)" "block_rep (words m) b' (bss ! i)"
        "blk_base b' = blk_base ?b" "blk_len b' = blk_len ?b" by auto
      let ?m = "m\<lparr>blks := (blks m)[i := b'], words := words m\<rparr>"
      have r: "blocks_rep ?m bss" "same_frame m ?m"
        using blocks_rep_replaced [OF Cons.prems(1) i b'(2-4), of "{}"] by simp_all
      have d: "blk_data (blks ?m ! j) = blk_data (blks m ! j)" if "j < length bss" for j
        using b'(3) blocks_rep_nth(2) [OF Cons.prems(1)] i by (cases "j = i") (simp_all add: blk_data_def)
      from Cons.IH [OF r(1)] Cons.prems(2) obtain x m' where "search (of_nat req) is ?m = Some (x, m')" "same_frame ?m m'"
        and x: "case x of
          None \<Rightarrow> blocks_rep m' bss \<and> words m' = words ?m \<and> (\<forall>i \<in> set is. carve req (bss ! i) = None)
        | Some (i, d) \<Rightarrow> i \<in> set is \<and> (\<exists>off ts. carve req (bss ! i) = Some (off, ts) \<and> d = blk_data (blks ?m ! i) + of_nat off
            \<and> blocks_rep m' (bss[i := ts]) \<and> within (blk_data (blks ?m ! i)) (free_span (bss ! i)) (words ?m) (words m'))" by auto
      moreover from this have "search (of_nat req) (i # is) m = Some (x, m')" using True b'(1) by (simp add: Let_def)
      ultimately show ?thesis
        using same_frame_trans [OF r(2)] None Cons.prems(2) d by (intro exI [of _ x] exI [of _ m']) (auto split: option.splits)
    next
      case (Some p)
      obtain off ts where p: "p = (off, ts)" by (cases p)
      from fit obtain b' h' where b': "fstFit (of_nat req) ?b (words m) = Some (blk_data ?b + of_nat off, b', h')" "block_rep h' b' ts"
        "blk_base b' = blk_base ?b" "blk_len b' = blk_len ?b" "within (blk_data ?b) (free_span (bss ! i)) (words m) h'"
        by (auto simp: Some p)
      let ?m = "m\<lparr>blks := (blks m)[i := b'], words := h'\<rparr>"
      have r: "blocks_rep ?m (bss[i := ts])" "same_frame m ?m"
        using blocks_rep_replaced [OF Cons.prems(1) i b'(2-5)] free_span_total by blast+
      have "off \<le> seg_total (bss ! i)" using carve_Some [OF Some [unfolded p]] by auto
      then have "blk_data ?b + of_nat off \<noteq> 0" using area_simps(3) [OF block_area(1) [OF b(1)], of off 0] by simp
      then have "search (of_nat req) (i # is) m = Some (Some (i, blk_data ?b + of_nat off), ?m)"
        using True b'(1) by (simp add: Let_def)
      then show ?thesis using r b'(5) Some p by auto
    qed
  qed
qed auto

lemma word_of_block_offset:
  assumes "4 dvd i" "i + 4 \<le> n" "n < 2 ^ 32"
  shows "word_of_block a (of_nat n) (a + of_nat i)"
proof -
  have "(of_nat i :: u32) AND 3 = take_bit 2 (of_nat i)" by (simp add: take_bit_eq_mask mask_eq_exp_minus_1)
  also have "\<dots> = of_nat (take_bit 2 i)" by (simp add: take_bit_of_nat)
  also have "take_bit 2 i = 0" using assms(1) by (auto simp: take_bit_eq_mod)
  finally show ?thesis using assms unat_small [of i] unat_small [of n] by (simp add: word_of_block_def)
qed

lemma word_of_block_span:
  assumes "word_of_block (base + 28) (of_nat n) x" "28 + n < 2 ^ 32"
  shows "x \<in> span base (28 + n)"
proof -
  have "unat (x - (base + 28)) < n" using assms unat_small [of n] by (auto simp: word_of_block_def)
  moreover have "x = base + of_nat (28 + unat (x - (base + 28)))" by simp
  ultimately show ?thesis unfolding span_def by (metis (mono_tags, lifting) add_less_cancel_left mem_Collect_eq)
qed

text \<open>A block for a request exceeds the limit, and what the limit leaves is less than the request: then none is
  added.\<close>

definition over_limit :: "u32 \<Rightarrow> MSA \<Rightarrow> bool" where
  "over_limit reqLen m \<longleftrightarrow> msa_limit m \<noteq> 0 \<and> msa_limit m < totUse m + addBlk_len reqLen m"

definition refused :: "u32 \<Rightarrow> MSA \<Rightarrow> bool" where
  "refused reqLen m \<longleftrightarrow> over_limit reqLen m \<and> msa_limit m - totUse m < reqLen"

lemma addBlk_refused: "refused reqLen m \<Longrightarrow> addBlk os reqLen m = Some (-1, m)"
  by (simp add: refused_def over_limit_def addBlk_def Let_def)

lemma addBlk_spec:
  assumes "blocks_rep m bss" "new_ok os m" "\<not> over_limit (of_nat R) m" "unat (blkLen m) = 28 + 8 * k"
    and R: "8 dvd R" "8 \<le> R" "R + 28 < 2 ^ 32"
  shows "case os (addBlk_len (of_nat R) m) of None \<Rightarrow> addBlk os (of_nat R) m = Some (-1, m)
    | Some (base, c) \<Rightarrow> \<exists>L b h. addBlk os (of_nat R) m
          = Some (0, m\<lparr>blks := blks m @ [b], totUse := totUse m + of_nat (28 + L), nBlk := nBlk m + 1, words := h\<rparr>)
        \<and> R \<le> L \<and> 8 dvd L \<and> block_rep h b [(L, False)] \<and> blk_base b = base
        \<and> list_all2 (block_rep h) (blks m @ [b]) (bss @ [[(L, False)]])
        \<and> sorted_wrt (\<lambda>a b. extent a \<inter> extent b = {}) (blks m @ [b])
        \<and> (\<forall>a. a \<notin> extent b \<longrightarrow> h a = words m a)"
proof -
  let ?len = "addBlk_len (of_nat R) m"
  obtain L where L: "?len = of_nat (28 + L)" "R \<le> L" "8 dvd L" "28 + L < 2 ^ 32"
  proof -
    have r: "unat (of_nat R + 28 :: u32) = R + 28" using R(3) by (simp add: unat_word_ariths unat_small)
    show ?thesis
    proof (cases "blkLen m < of_nat R + 28")
      case True
      then show ?thesis using that [of R] R by (simp add: addBlk_len_def MSA_BLK_HDR_LENGTH_def add.commute)
    next
      case False
      have "blkLen m = of_nat (28 + 8 * k)" using arg_cong [OF assms(4), of "of_nat :: nat \<Rightarrow> u32"] by simp
      moreover have "R \<le> 8 * k" using False r assms(4) by (simp add: word_less_nat_alt)
      moreover have "unat (blkLen m) < 2 ^ 32" by (rule order_less_le_trans [OF unsigned_less]) simp
      then have "28 + 8 * k < 2 ^ 32" unfolding assms(4) .
      ultimately show ?thesis using that [of "8 * k"] False by (simp add: addBlk_len_def MSA_BLK_HDR_LENGTH_def)
    qed
  qed
  have over: "\<not> (msa_limit m \<noteq> 0 \<and> msa_limit m < totUse m + ?len)" using assms(3) by (simp add: over_limit_def)
  show ?thesis
  proof (cases "os ?len")
    case None
    then show ?thesis using over by (auto simp: addBlk_def Let_def)
  next
    case (Some r)
    obtain base c where r: "r = (base, c)" by (cases r)
    have ul: "unat ?len = 28 + L" unfolding L(1) by (rule unat_small [OF L(4)])
    have base: "base \<noteq> 0" "unat base + (28 + L) < 2 ^ 32" "\<And>b. b \<in> set (blks m) \<Longrightarrow> span base (28 + L) \<inter> extent b = {}"
      using assms(2) [unfolded new_ok_def, rule_format, OF Some [unfolded r]] unfolding ul by blast+
    let ?seg = "base + 28"
    have free: "?len - 28 = of_nat L" unfolding L(1) by simp
    have "unat ?seg = unat base + 28" using base(2) by (simp add: unat_word_ariths)
    then have ar: "area ?seg L" using base(2) by (auto simp: area_def)
    define h0 where "h0 = (\<lambda>x. if word_of_block ?seg (of_nat L) x then Some (c x) else words m x)"
    have cells: "view h0 ?seg L i \<noteq> None" if "i < L" "4 dvd i" for i
    proof -
      have "i + 4 \<le> L" using that L(3) by presburger
      then show ?thesis using word_of_block_offset [OF that(2), of L ?seg] L(4) that(1) by (simp add: view_def h0_def)
    qed
    obtain h1 where h1: "store_word ?seg (of_nat L) h0 = Some h1" "view h1 ?seg L = (view h0 ?seg L)(0 \<mapsto> of_nat L)" "within ?seg {0} h0 h1"
      using store_at [OF _ ar, of h0 0] cells [of 0] L R by auto
    have "view h1 ?seg L 4 \<noteq> None" using cells [of 4] L R by (simp add: h1(2))
    then obtain h2 where h2: "store_word (?seg + 4) 0 h1 = Some h2" "view h2 ?seg L = (view h1 ?seg L)(4 \<mapsto> 0)" "within ?seg {4} h1 h2"
      using store_at [OF _ ar, of h1 4 0] by auto
    let ?b = "\<lparr>blk_base = base, blk_len = ?len, maxFreeSegLen = of_nat L, nAllocSeg = 0, nFreeSeg = 1, hdFreeSeg = ?seg\<rparr>"
    have v: "view h2 ?seg L = (view h0 ?seg L)(0 \<mapsto> of_nat L, 4 \<mapsto> 0)" by (simp add: h1(2) h2(2))
    have rep: "block_rep h2 ?b [(L, False)]"
    proof -
      have "\<forall>i < L. 4 dvd i \<longrightarrow> view h2 ?seg L i \<noteq> None" using cells unfolding v by auto
      then have "seg_rep h2 ?seg ?seg [(L, False)]" unfolding seg_rep_def by (simp add: v seg_word_def)
      then show ?thesis using base(1,2) ul L(2,3) R by (simp add: block_rep_def blk_data_def MSA_BLK_HDR_LENGTH_def)
    qed
    have out: "h2 a = words m a" if "a \<notin> extent ?b" for a
    proof -
      have e: "extent ?b = span base (28 + L)" by (simp add: extent_def ul)
      have "\<not> word_of_block ?seg (of_nat L) a" using word_of_block_span [of base L a] L(4) that e by blast
      then have "h0 a = words m a" by (simp add: h0_def)
      moreover have "h2 a = h0 a"
      proof (rule within_extent [OF _ rep _ that])
        show "within (blk_data ?b) {0, 4} h0 h2"
          using within_trans [OF h1(3) h2(3)] by (simp add: blk_data_def MSA_BLK_HDR_LENGTH_def)
      qed (use L R in auto)
      ultimately show ?thesis by simp
    qed
    have "addBlk os (of_nat R) m
        = Some (0, m\<lparr>blks := blks m @ [?b], totUse := totUse m + of_nat (28 + L), nBlk := nBlk m + 1, words := h2\<rparr>)"
    proof -
      have "\<not> ?len < 28" using ul by (simp add: word_less_nat_alt)
      then show ?thesis
        using over Some h1(1) h2(1) free L(1) unfolding addBlk_def Let_def h0_def
        by (cases "msa_limit m = 0") (simp_all add: r MSA_BLK_HDR_LENGTH_def)
    qed
    moreover have "list_all2 (block_rep h2) (blks m @ [?b]) (bss @ [[(L, False)]])"
    proof -
      have "block_rep h2 b ss" if "block_rep (words m) b ss" "b \<in> set (blks m)" for b ss
      proof (rule block_rep_cong [OF that(1)])
        fix a assume "a \<in> extent b"
        moreover have "extent ?b \<inter> extent b = {}" using base(3) [OF that(2)] by (simp add: extent_def ul)
        ultimately show "h2 a = words m a" by (intro out) blast
      qed
      then have "list_all2 (block_rep h2) (blks m) bss"
        using assms(1) unfolding blocks_rep_def by (auto elim!: list.rel_mono_strong)
      then show ?thesis using rep by (simp add: list_all2_appendI)
    qed
    moreover have "sorted_wrt (\<lambda>a b. extent a \<inter> extent b = {}) (blks m @ [?b])"
      using assms(1) base(3) by (auto simp: blocks_rep_def sorted_wrt_append extent_def ul)
    ultimately show ?thesis using Some r rep L(2,3) out by (simp, intro exI [of _ L] exI [of _ ?b] exI [of _ h2]) simp
  qed
qed

definition cur_ok :: "addr \<Rightarrow> SegBlk list \<Rightarrow> bool" where
  "cur_ok a bs \<longleftrightarrow> (if bs = [] then a = 0 else a \<in> blk_base ` set bs)"

lemma msa_rep_alt:
  "msa_rep m bss \<longleftrightarrow> blocks_rep m bss \<and> (\<forall>ss \<in> set bss. 0 < n_alloc ss) \<and> cur_ok (currBlk m) (blks m)
     \<and> nBlk m = of_nat (length bss) \<and> nSeg m = sum_of n_alloc bss \<and> currUse m = sum_of used bss
     \<and> totUse m = sum_of blk_use bss \<and> (\<exists>k. unat (blkLen m) = 28 + 8 * k)"
  by (auto simp: msa_rep_def blocks_rep_def cur_ok_def)

lemma blocks_rep_length: "blocks_rep m bss \<Longrightarrow> length (blks m) = length bss"
  by (auto simp: blocks_rep_def dest: list_all2_lengthD)

lemma search_all_spec:
  assumes "blocks_rep m bss" "cur_ok (currBlk m) (blks m)" "8 dvd req" "8 \<le> req" "req < 2 ^ 32"
  shows "\<exists>a r m'. search_all (of_nat req) m = Some (r, m') \<and> cur_ok a (blks m) \<and> same_frame (m\<lparr>currBlk := a\<rparr>) m'
     \<and> (case r of
          None \<Rightarrow> blocks_rep m' bss \<and> words m' = words m \<and> (\<forall>ss \<in> set bss. carve req ss = None)
        | Some (i, d) \<Rightarrow> i < length bss \<and> (\<exists>off ts. carve req (bss ! i) = Some (off, ts) \<and> d = blk_data (blks m ! i) + of_nat off
            \<and> blocks_rep m' (bss[i := ts]) \<and> within (blk_data (blks m ! i)) (free_span (bss ! i)) (words m) (words m')))"
proof (cases "currBlk m = 0")
  case True
  have "blks m = []"
  proof (rule ccontr)
    assume ne: "blks m \<noteq> []"
    then obtain b where b: "b \<in> set (blks m)" "blk_base b = 0" using assms(2) True by (auto simp: cur_ok_def)
    then obtain i where "i < length (blks m)" "b = blks m ! i" by (metis in_set_conv_nth)
    then show False using blocks_rep_nth(1) [OF assms(1), of i] b(2) blocks_rep_length [OF assms(1)] by (simp add: block_rep_def)
  qed
  moreover from this have "bss = []" using blocks_rep_length [OF assms(1)] by simp
  moreover have "same_frame (m\<lparr>currBlk := 0\<rparr>) m" using True by (cases m) (simp add: same_frame_def)
  ultimately show ?thesis using True assms(1,2) by (intro exI [of _ 0]) (simp add: search_all_def)
next
  case False
  have ne: "blks m \<noteq> []" using assms(2) False by (auto simp: cur_ok_def)
  let ?a = "if currUse m * 5 < totUse m * 4 then hdBlk m else currBlk m"
  let ?m = "m\<lparr>currBlk := ?a\<rparr>"
  have a: "cur_ok ?a (blks m)" using assms(2) ne by (cases "blks m") (auto simp: cur_ok_def hdBlk_def)
  then obtain i where i: "blk_index ?a (blks m) = Some i" using blk_index_known ne by (metis cur_ok_def)
  have n: "i < length bss" using blk_index_nth [OF i] blocks_rep_length [OF assms(1)] by simp
  have rep: "blocks_rep ?m bss" using assms(1) by (simp add: blocks_rep_def)
  have all: "search_all (of_nat req) m = do {
      (found, m) \<leftarrow> search (of_nat req) [i..<length (blks m)] ?m;
      (case found of Some r \<Rightarrow> Some (Some r, m) | None \<Rightarrow> search (of_nat req) (rev [0..<i]) m) }"
    using False i by (cases "currUse m * 5 < totUse m * 4") (simp_all add: search_all_def Let_def)
  have "\<forall>j \<in> set [i..<length (blks m)]. j < length bss" using blocks_rep_length [OF assms(1)] by simp
  from search_spec [OF rep this assms(3-5)] obtain r1 m1 where 1: "search (of_nat req) [i..<length (blks m)] ?m = Some (r1, m1)"
    "same_frame ?m m1" "case r1 of
          None \<Rightarrow> blocks_rep m1 bss \<and> words m1 = words ?m \<and> (\<forall>i \<in> set [i..<length (blks m)]. carve req (bss ! i) = None)
        | Some (j, d) \<Rightarrow> j \<in> set [i..<length (blks m)] \<and> (\<exists>off ts. carve req (bss ! j) = Some (off, ts) \<and> d = blk_data (blks ?m ! j) + of_nat off
            \<and> blocks_rep m1 (bss[j := ts]) \<and> within (blk_data (blks ?m ! j)) (free_span (bss ! j)) (words ?m) (words m1))" by blast
  show ?thesis
  proof (cases r1)
    case (Some p)
    then show ?thesis using all 1 a blocks_rep_length [OF assms(1)] by (intro exI [of _ ?a] exI [of _ r1] exI [of _ m1]) auto
  next
    case None
    with 1 have m1: "blocks_rep m1 bss" "words m1 = words m" "\<forall>j. i \<le> j \<and> j < length bss \<longrightarrow> carve req (bss ! j) = None"
      using blocks_rep_length [OF assms(1)] by auto
    have base: "blk_data (blks m1 ! j) = blk_data (blks m ! j)" if "j < length bss" for j
    proof -
      have "List.map blk_base (blks m1) ! j = List.map blk_base (blks m) ! j" using 1(2) by (simp add: same_frame_def)
      then show ?thesis using that blocks_rep_length [OF assms(1)] blocks_rep_length [OF m1(1)] by (simp add: blk_data_def)
    qed
    have "\<forall>j \<in> set (rev [0..<i]). j < length bss" using n by simp
    from search_spec [OF m1(1) this assms(3-5)] obtain r2 m2 where 2: "search (of_nat req) (rev [0..<i]) m1 = Some (r2, m2)"
      "same_frame m1 m2" "case r2 of
          None \<Rightarrow> blocks_rep m2 bss \<and> words m2 = words m1 \<and> (\<forall>i \<in> set (rev [0..<i]). carve req (bss ! i) = None)
        | Some (j, d) \<Rightarrow> j \<in> set (rev [0..<i]) \<and> (\<exists>off ts. carve req (bss ! j) = Some (off, ts) \<and> d = blk_data (blks m1 ! j) + of_nat off
            \<and> blocks_rep m2 (bss[j := ts]) \<and> within (blk_data (blks m1 ! j)) (free_span (bss ! j)) (words m1) (words m2))" by blast
    have "search_all (of_nat req) m = Some (r2, m2)" using all 1(1) 2(1) None by simp
    moreover have "same_frame ?m m2" using same_frame_trans [OF 1(2) 2(2)] .
    moreover have "case r2 of
          None \<Rightarrow> blocks_rep m2 bss \<and> words m2 = words m \<and> (\<forall>ss \<in> set bss. carve req ss = None)
        | Some (i, d) \<Rightarrow> i < length bss \<and> (\<exists>off ts. carve req (bss ! i) = Some (off, ts) \<and> d = blk_data (blks m ! i) + of_nat off
            \<and> blocks_rep m2 (bss[i := ts]) \<and> within (blk_data (blks m ! i)) (free_span (bss ! i)) (words m) (words m2))"
    proof (cases r2)
      case None
      have "carve req ss = None" if "ss \<in> set bss" for ss
      proof -
        from that obtain j where "j < length bss" "ss = bss ! j" by (metis in_set_conv_nth)
        then show ?thesis using m1(3) 2(3) None by (cases "j < i") auto
      qed
      then show ?thesis using None 2(3) m1(2) by auto
    next
      case (Some p)
      then show ?thesis using 2(3) m1(2) base n by fastforce
    qed
    ultimately show ?thesis using a by blast
  qed
qed

subsection \<open>Allocation\<close>

primrec allocs :: "nat \<Rightarrow> seg list \<Rightarrow> (nat \<times> nat) list" where
  "allocs off [] = []"
| "allocs off (s # ss) = (if snd s then [(off, fst s)] else []) @ allocs (off + fst s) ss"

lemma allocs_append [simp]: "allocs off (xs @ ys) = allocs off xs @ allocs (off + seg_total xs) ys"
  by (induction xs arbitrary: off) (auto simp: add.assoc)

lemma carve_props:
  assumes "carve req ss = Some (off, ts)"
  shows "seg_total ts = seg_total ss" "n_alloc ts = n_alloc ss + 1" "used ts = used ss + req"
    "set (allocs 0 ts) = insert (off, req) (set (allocs 0 ss))" "{off..<off + req} \<subseteq> free_span ss" "off + req \<le> seg_total ss"
proof -
  from carve_Some [OF assms] obtain xs n ys where ss: "ss = xs @ (n, False) # ys" "off = seg_total xs" "req \<le> n"
    "ts = xs @ (req, True) # (if n = req then [] else [(n - req, False)]) @ ys" by blast
  then show "seg_total ts = seg_total ss" "n_alloc ts = n_alloc ss + 1" "used ts = used ss + req" "off + req \<le> seg_total ss"
    "set (allocs 0 ts) = insert (off, req) (set (allocs 0 ss))" by auto
  have "{off..<off + n} \<subseteq> free_span ss" by (rule free_spanI) (simp add: ss)
  then show "{off..<off + req} \<subseteq> free_span ss" using ss(3) by auto
qed

definition req_len :: "u32 \<Rightarrow> nat" where
  "req_len len = 8 * ((unat len + 11) div 8)"

lemma allocLen_req:
  assumes "unat len + 39 < 2 ^ 32"
  shows "allocLen len = of_nat (req_len len)" "8 dvd req_len len" "8 \<le> req_len len" "req_len len + 28 < 2 ^ 32"
    "unat len + 4 \<le> req_len len"
proof -
  show r: "8 dvd req_len len" "8 \<le> req_len len" "req_len len + 28 < 2 ^ 32" "unat len + 4 \<le> req_len len"
    using assms by (simp_all add: req_len_def)
  have u: "unat (len + 4 + 7) = unat len + 11" using assms by (simp add: unat_word_ariths)
  have "unat ((len + 4 + 7) div 8) = (unat len + 11) div 8" unfolding unat_div_distrib u by simp
  then have "unat (8 * ((len + 4 + 7) div 8)) = req_len len" using r(3) by (simp add: unat_word_ariths req_len_def)
  then show "allocLen len = of_nat (req_len len)" unfolding allocLen_def by (metis word_of_nat_eq_iff unat_eq_nat_uint of_nat_unat ucast_id)
qed

lemma extents_cong:
  assumes "List.map blk_base bs = List.map blk_base bs'" "List.map blk_len bs = List.map blk_len bs'"
  shows "extent ` set bs = extent ` set bs'"
proof -
  have "List.map extent bs = map2 (\<lambda>a n. span a (unat n)) (List.map blk_base bs) (List.map blk_len bs)" for bs
    by (induction bs) (simp_all add: extent_def)
  then have "List.map extent bs = List.map extent bs'" using assms by simp
  then show ?thesis by (metis set_map)
qed

lemma new_ok_cong:
  assumes "List.map blk_base (blks m') = List.map blk_base (blks m)" "List.map blk_len (blks m') = List.map blk_len (blks m)"
  shows "new_ok os m' = new_ok os m"
proof -
  have "(\<forall>b \<in> set (blks m'). P (extent b)) = (\<forall>b \<in> set (blks m). P (extent b))" for P
    using extents_cong [OF assms] by (metis (mono_tags, lifting) ball_imageD image_eqI imageE)
  from this [where P = "\<lambda>e. span _ _ \<inter> e = {}"] show ?thesis unfolding new_ok_def by simp
qed

lemma cur_ok_cong: "List.map blk_base bs = List.map blk_base bs' \<Longrightarrow> cur_ok a bs = cur_ok a bs'"
  by (metis cur_ok_def list.map_disc_iff set_map)

text \<open>A segment carved from a block of a state that represents \<open>bss\<close>.\<close>

lemma msa_rep_carved:
  assumes "blocks_rep m' (bss[i := ts])" "i < length bss" "carve req (bss ! i) = Some (off, ts)" "\<forall>ss \<in> set (bss[i := ts]). 0 < n_alloc ss"
    and "nBlk m = of_nat (length bss)" "nSeg m = sum_of n_alloc bss" "currUse m = sum_of used bss" "totUse m = sum_of blk_use bss"
    and "unat (blkLen m) = 28 + 8 * k"
    and "m' = m\<lparr>currBlk := currBlk m', blks := blks m', words := words m'\<rparr>"
  shows "msa_rep (snd (allocated_from (of_nat req) i d m')) (bss[i := ts])"
    "fst (allocated_from (of_nat req) i d m') = d + 4" "msa_limit (snd (allocated_from (of_nat req) i d m')) = msa_limit m"
    "blks (snd (allocated_from (of_nat req) i d m')) = blks m'" "words (snd (allocated_from (of_nat req) i d m')) = words m'"
proof -
  have f: "nBlk m' = nBlk m" "nSeg m' = nSeg m" "currUse m' = currUse m" "totUse m' = totUse m" "blkLen m' = blkLen m"
    "msa_limit m' = msa_limit m" by (subst assms(10), simp)+
  note c = carve_props [OF assms(3)]
  have "i < length (blks m')" using blocks_rep_length [OF assms(1)] assms(2) by simp
  then have "cur_ok (blk_base (blks m' ! i)) (blks m')" by (auto simp: cur_ok_def)
  moreover have "sum_of blk_use (bss[i := ts]) = sum_of blk_use bss" "sum_of n_alloc (bss[i := ts]) = sum_of n_alloc bss + 1"
    "sum_of used (bss[i := ts]) = sum_of used bss + of_nat req"
    using c(1-3) assms(2) by (simp_all add: sum_of_update blk_use_def)
  ultimately show "msa_rep (snd (allocated_from (of_nat req) i d m')) (bss[i := ts])"
    using assms(1,4-9) f by (auto simp: msa_rep_alt allocated_from_def Let_def blocks_rep_def)
  show "fst (allocated_from (of_nat req) i d m') = d + 4" "msa_limit (snd (allocated_from (of_nat req) i d m')) = msa_limit m"
    "blks (snd (allocated_from (of_nat req) i d m')) = blks m'" "words (snd (allocated_from (of_nat req) i d m')) = words m'"
    using f by (simp_all add: allocated_from_def Let_def)
qed

text \<open>A block that \<open>alloc\<close> takes a segment from: one the allocator has, or a new one.\<close>

definition source_blocks :: "nat \<Rightarrow> new_op \<Rightarrow> MSA \<Rightarrow> seg list list \<Rightarrow> SegBlk list \<Rightarrow> seg list list \<Rightarrow> bool" where
  "source_blocks R os m bss bs1 bss1 \<longleftrightarrow> (bs1, bss1) = (blks m, bss)
     \<or> (\<forall>ss \<in> set bss. carve R ss = None) \<and> (\<exists>b L c. os (addBlk_len (of_nat R) m) = Some (blk_base b, c)
         \<and> bs1 = blks m @ [b] \<and> R \<le> L \<and> bss1 = bss @ [[(L, False)]] \<and> extent b \<inter> \<Union> (extent ` set (blks m)) = {}
         \<and> (\<forall>i < L. blk_data b + of_nat i \<in> extent b))"

lemma sorted_wrt_last: "sorted_wrt P (xs @ [x]) \<Longrightarrow> y \<in> set xs \<Longrightarrow> P y x"
  by (auto simp: sorted_wrt_append)

lemma alloc_spec:
  assumes "msa_rep m bss" "new_ok os m" "over_limit (of_nat (req_len len)) m \<longrightarrow> refused (of_nat (req_len len)) m"
    "len \<noteq> 0" "unat len + 39 < 2 ^ 32"
  shows "\<exists>p m' bss'. alloc os len m = Some (p, m') \<and> msa_rep m' bss' \<and> msa_limit m' = msa_limit m
    \<and> (p = 0 \<and> bss' = bss \<and> words m' = words m \<and> List.map blk_base (blks m') = List.map blk_base (blks m)
         \<and> (\<forall>ss \<in> set bss. carve (req_len len) ss = None)
         \<and> (os (addBlk_len (of_nat (req_len len)) m) = None \<or> refused (of_nat (req_len len)) m)
       \<or> (\<exists>bs1 bss1 i off ts. source_blocks (req_len len) os m bss bs1 bss1 \<and> i < length bss1 \<and> length bs1 = length bss1
           \<and> carve (req_len len) (bss1 ! i) = Some (off, ts) \<and> p = blk_data (bs1 ! i) + of_nat off + 4 \<and> bss' = bss1[i := ts]
           \<and> List.map blk_base (blks m') = List.map blk_base bs1 \<and> block_rep (words m') (blks m' ! i) ts
           \<and> (\<forall>a. a \<notin> (\<lambda>j. blk_data (bs1 ! i) + of_nat j) ` free_span (bss1 ! i) \<longrightarrow> a \<in> \<Union> (extent ` set (blks m)) \<longrightarrow> words m' a = words m a)))"
proof -
  let ?R = "req_len len"
  note R = allocLen_req [OF assms(5)]
  have R32: "?R < 2 ^ 32" using R(4) by simp
  from assms(1) obtain k where rep: "blocks_rep m bss" "\<forall>ss \<in> set bss. 0 < n_alloc ss" "cur_ok (currBlk m) (blks m)"
    and sums: "nBlk m = of_nat (length bss)" "nSeg m = sum_of n_alloc bss" "currUse m = sum_of used bss" "totUse m = sum_of blk_use bss"
      "unat (blkLen m) = 28 + 8 * k" by (auto simp: msa_rep_alt)
  obtain a r m1 where s: "search_all (of_nat ?R) m = Some (r, m1)" "cur_ok a (blks m)" "same_frame (m\<lparr>currBlk := a\<rparr>) m1"
    "case r of
          None \<Rightarrow> blocks_rep m1 bss \<and> words m1 = words m \<and> (\<forall>ss \<in> set bss. carve ?R ss = None)
        | Some (i, d) \<Rightarrow> i < length bss \<and> (\<exists>off ts. carve ?R (bss ! i) = Some (off, ts) \<and> d = blk_data (blks m ! i) + of_nat off
            \<and> blocks_rep m1 (bss[i := ts]) \<and> within (blk_data (blks m ! i)) (free_span (bss ! i)) (words m) (words m1))"
    using search_all_spec [OF rep(1,3) R(2,3) R32] by blast
  have fr: "m1 = m\<lparr>currBlk := currBlk m1, blks := blks m1, words := words m1\<rparr>"
    "List.map blk_base (blks m1) = List.map blk_base (blks m)" "List.map blk_len (blks m1) = List.map blk_len (blks m)"
    using s(3) by (cases m; cases m1; simp add: same_frame_def)+
  show ?thesis
  proof (cases r)
    case (Some q)
    obtain i d where q: "q = (i, d)" by (cases q)
    with s(4) Some obtain off ts where c: "i < length bss" "carve ?R (bss ! i) = Some (off, ts)" "d = blk_data (blks m ! i) + of_nat off"
      "blocks_rep m1 (bss[i := ts])" "within (blk_data (blks m ! i)) (free_span (bss ! i)) (words m) (words m1)" by auto
    have pos: "\<forall>ss \<in> set (bss[i := ts]). 0 < n_alloc ss"
      using rep(2) carve_props(2) [OF c(2)] set_update_subset_insert [of bss i ts] by fastforce
    note res = msa_rep_carved [OF c(4,1,2) pos sums fr(1), of d]
    let ?m = "snd (allocated_from (of_nat ?R) i d m1)"
    have "alloc os len m = Some (d + 4, ?m)"
      using assms(4) s(1) Some q res(2) by (simp add: alloc_def R(1) prod_eq_iff)
    moreover have "block_rep (words ?m) (blks ?m ! i) ts"
      using blocks_rep_nth(1) [OF c(4), of i] c(1) res(4,5) by simp
    moreover have "source_blocks ?R os m bss (blks m) bss" by (simp add: source_blocks_def)
    moreover have "\<forall>a. a \<notin> (\<lambda>j. blk_data (blks m ! i) + of_nat j) ` free_span (bss ! i) \<longrightarrow> words m1 a = words m a"
      using c(5) by (simp add: within_def)
    ultimately show ?thesis
      using res(1,3,4,5) c(1-3) assms(3) fr(2) blocks_rep_length [OF rep(1)]
      by (intro exI [of _ "d + 4"] exI [of _ ?m] exI [of _ "bss[i := ts]"] conjI disjI2
          exI [of _ "blks m"] exI [of _ bss] exI [of _ i] exI [of _ off] exI [of _ ts]) simp_all
  next
    case None
    with s(4) have m1: "blocks_rep m1 bss" "words m1 = words m" "\<forall>ss \<in> set bss. carve ?R ss = None" by simp_all
    have f: "nBlk m1 = nBlk m" "nSeg m1 = nSeg m" "currUse m1 = currUse m" "totUse m1 = totUse m" "blkLen m1 = blkLen m"
      "msa_limit m1 = msa_limit m" by (subst fr(1), simp)+
    have cur: "currBlk m1 = a" using s(3) by (cases m; cases m1; simp add: same_frame_def)
    have len: "addBlk_len (of_nat ?R) m1 = addBlk_len (of_nat ?R) m" by (simp add: addBlk_len_def f)
    have over: "over_limit r m1 \<longleftrightarrow> over_limit r m" "refused r m1 \<longleftrightarrow> refused r m" for r
      by (simp_all add: refused_def over_limit_def addBlk_len_def f)
    have "unat (blkLen m1) = 28 + 8 * k" using sums(5) f by simp
    note add = addBlk_spec [OF m1(1) new_ok_cong [THEN iffD2, OF fr(2,3) assms(2)] _ this R(2-4), unfolded over [of "of_nat ?R"] len]
    have start: "alloc os len m = do {
            (res, m) \<leftarrow> addBlk os (of_nat ?R) m1;
            if res < 0 then Some (0, m\<lparr>errCode := res\<rparr>)
            else do {
              let i = length (blks m) - 1;
              (descr, b, h) \<leftarrow> fstFit (of_nat ?R) (blks m ! i) (words m);
              let m = m\<lparr>blks := (blks m)[i := b], words := h\<rparr>;
              Some (if descr = 0 then (0, m) else allocated_from (of_nat ?R) i descr m) } }"
      using assms(4) s(1) None by (simp add: alloc_def R(1) Let_def)
    have m4: "msa_rep (m1\<lparr>errCode := -1\<rparr>) bss"
      using m1(1) rep(2) sums f cur s(2) cur_ok_cong [OF fr(2)] by (auto simp: msa_rep_alt blocks_rep_def)
    show ?thesis
    proof (cases "over_limit (of_nat ?R) m \<or> os (addBlk_len (of_nat ?R) m) = None")
      case True
      then have "addBlk os (of_nat ?R) m1 = Some (-1, m1)" "os (addBlk_len (of_nat ?R) m) = None \<or> refused (of_nat ?R) m"
        using add addBlk_refused over(2) assms(3) by (auto split: option.splits)
      moreover from this have "alloc os len m = Some (0, m1\<lparr>errCode := -1\<rparr>)" using start by simp
      ultimately show ?thesis
        using m4 m1(2,3) f(6) fr(2)
        by (intro exI [of _ 0] exI [of _ "m1\<lparr>errCode := -1\<rparr>"] exI [of _ bss]) simp
    next
      case False
      then obtain base c where w: "os (addBlk_len (of_nat ?R) m) = Some (base, c)" by auto
      from add False w obtain L b h where
        ab: "addBlk os (of_nat ?R) m1 = Some (0, m1\<lparr>blks := blks m1 @ [b], totUse := totUse m1 + of_nat (28 + L), nBlk := nBlk m1 + 1, words := h\<rparr>)"
        and L: "?R \<le> L" "8 dvd L" "block_rep h b [(L, False)]" "blk_base b = base"
        and all: "list_all2 (block_rep h) (blks m1 @ [b]) (bss @ [[(L, False)]])"
          "sorted_wrt (\<lambda>a b. extent a \<inter> extent b = {}) (blks m1 @ [b])" "\<forall>a. a \<notin> extent b \<longrightarrow> h a = words m1 a"
        by auto
      let ?m2 = "m1\<lparr>blks := blks m1 @ [b], totUse := totUse m1 + of_nat (28 + L), nBlk := nBlk m1 + 1, words := h\<rparr>"
      let ?bss = "bss @ [[(L, False)]]" and ?i = "length bss"
      have n: "length (blks m1) = ?i" using blocks_rep_length [OF m1(1)] .
      have rep2: "blocks_rep ?m2 ?bss" using all by (simp add: blocks_rep_def)
      obtain ts where ts: "carve ?R [(L, False)] = Some (0, ts)" using L(1) by simp
      have "hdFreeSeg b \<noteq> 0" using hdFreeSeg_null [OF L(3)] by auto
      from fstFit_carve [OF L(3) R(2,3) R32 this] ts obtain b' h' where
        fit: "fstFit (of_nat ?R) b h = Some (blk_data b, b', h')" "block_rep h' b' ts" "blk_base b' = blk_base b" "blk_len b' = blk_len b"
          "within (blk_data b) (free_span [(L, False)]) h h'" by auto
      let ?m3 = "?m2\<lparr>blks := (blks ?m2)[?i := b'], words := h'\<rparr>"
      have r3: "blocks_rep ?m3 (?bss[?i := ts])" "same_frame ?m2 ?m3"
        using blocks_rep_replaced [OF rep2, of ?i h' b' ts "free_span [(L, False)]"] fit(2-5) n free_span_total [of _ "[(L, False)]"]
        by (simp_all add: nth_append)
      have nz: "blk_data b \<noteq> 0" using block_area(1) [OF L(3)] by (simp add: area_def)
      have pos: "\<forall>ss \<in> set (?bss[?i := ts]). 0 < n_alloc ss"
        using rep(2) carve_props(2) [OF ts] by auto
      have sums2: "nBlk ?m2 = of_nat (length ?bss)" "nSeg ?m2 = sum_of n_alloc ?bss" "currUse ?m2 = sum_of used ?bss"
        "totUse ?m2 = sum_of blk_use ?bss" "unat (blkLen ?m2) = 28 + 8 * k"
        using sums f by (simp_all add: blk_use_def)
      note res = msa_rep_carved [OF r3(1) _ _ pos sums2, of ?R 0 "blk_data b"]
      have bn: "length (blks m) = ?i" using blocks_rep_length [OF rep(1)] .
      have out: "extent b \<inter> e = {}" if "e \<in> extent ` set (blks m)" for e
      proof -
        have "\<forall>e \<in> extent ` set (blks m1). e \<inter> extent b = {}" using all(2) by (simp add: sorted_wrt_append)
        then show ?thesis using that unfolding extents_cong [OF fr(2,3)] by blast
      qed
      let ?m4 = "snd (allocated_from (of_nat ?R) ?i (blk_data b) ?m3)"
      have res: "msa_rep ?m4 (?bss[?i := ts])" "fst (allocated_from (of_nat ?R) ?i (blk_data b) ?m3) = blk_data b + 4"
        "msa_limit ?m4 = msa_limit ?m2" "blks ?m4 = blks ?m3" "words ?m4 = words ?m3"
        using res ts by simp_all
      have "alloc os len m = Some (blk_data b + 4, ?m4)"
      proof -
        have "alloc os len m = Some (allocated_from (of_nat ?R) ?i (blk_data b) ?m3)"
          using nz by (simp add: start ab Let_def nth_append n fit(1))
        then show ?thesis using res(2) by (metis prod.collapse)
      qed
      moreover have "block_rep (words ?m4) (blks ?m4 ! ?i) ts" using fit(2) n res(4,5) by simp
      moreover have "source_blocks ?R os m bss (blks m @ [b]) ?bss"
      proof -
        have "extent b \<inter> \<Union> (extent ` set (blks m)) = {}" using out by blast
        moreover have "\<forall>i < L. blk_data b + of_nat i \<in> extent b" using data_extent [OF L(3)] by simp
        ultimately show ?thesis using w L(1,4) m1(3) unfolding source_blocks_def by blast
      qed
      moreover have "\<forall>a. a \<notin> (\<lambda>j. blk_data ((blks m @ [b]) ! ?i) + of_nat j) ` free_span (?bss ! ?i) \<longrightarrow> a \<in> \<Union> (extent ` set (blks m))
          \<longrightarrow> words ?m4 a = words m a"
      proof (intro allI impI)
        fix x assume x: "x \<notin> (\<lambda>j. blk_data ((blks m @ [b]) ! ?i) + of_nat j) ` free_span (?bss ! ?i)"
          "x \<in> \<Union> (extent ` set (blks m))"
        then have "x \<notin> extent b" using out by blast
        then have "h x = words m x" using all(3) m1(2) by simp
        moreover have "h' x = h x" using fit(5) x(1) bn by (simp add: within_def nth_append)
        ultimately show "words ?m4 x = words m x" using res(5) by simp
      qed
      moreover have "List.map blk_base (blks ?m4) = List.map blk_base (blks m @ [b])"
        using res(4) fit(3) fr(2) n by (simp add: map_update list_update_append)
      ultimately show ?thesis
        using res(1,3) ts assms(3) f(6) bn
        by (intro exI [of _ "blk_data b + 4"] exI [of _ ?m4] exI [of _ "?bss[?i := ts]"] conjI disjI2
            exI [of _ "blks m @ [b]"] exI [of _ ?bss] exI [of _ ?i] exI [of _ 0] exI [of _ ts]) (simp_all add: nth_append)
    qed
  qed
qed

subsection \<open>Freeing\<close>

lemma in_block_extent:
  assumes "block_rep h b ss"
  shows "i < seg_total ss \<Longrightarrow> in_block (blk_data b + of_nat i) b" "in_block a b \<Longrightarrow> a \<in> extent b"
proof -
  note ar = block_area [OF assms]
  have l: "unat (blk_base b + blk_len b) = unat (blk_base b) + 28 + seg_total ss" "unat (blk_len b) = 28 + seg_total ss"
    using assms by (simp_all add: block_rep_def unat_word_ariths)
  show "in_block (blk_data b + of_nat i) b" if "i < seg_total ss"
    using area_unat [OF ar(1), of i] ar(2) l(1) that by (simp add: in_block_def word_le_nat_alt word_less_nat_alt)
  show "a \<in> extent b" if "in_block a b"
  proof -
    have "unat (blk_base b) + 28 \<le> unat a" "unat a < unat (blk_base b) + 28 + seg_total ss"
      using that l(1) ar(2) by (simp_all add: in_block_def word_le_nat_alt word_less_nat_alt)
    then have "unat (a - blk_base b) < unat (blk_len b)" using l(2) by (simp add: unat_sub word_le_nat_alt)
    moreover have "a = blk_base b + of_nat (unat (a - blk_base b))" by simp
    ultimately show ?thesis unfolding extent_def span_def by blast
  qed
qed

lemma blocks_disjoint:
  assumes "blocks_rep m bss" "i < length bss" "j < length bss" "i \<noteq> j"
  shows "extent (blks m ! i) \<inter> extent (blks m ! j) = {}"
  using assms blocks_rep_length [OF assms(1)]
  by (intro sorted_wrt_nth_sym [where P = "\<lambda>a b. extent a \<inter> extent b = {}"]) (auto simp: blocks_rep_def)

lemma queryBlk_spec:
  assumes "blocks_rep m bss" "cur_ok (currBlk m) (blks m)" "i < length bss" "off < seg_total (bss ! i)" "blks m' = blks m" "currBlk m' = currBlk m"
  shows "queryBlk (blk_data (blks m ! i) + of_nat off) m' = Some (Some i)"
proof -
  let ?a = "blk_data (blks m ! i) + of_nat off"
  have n: "length (blks m) = length bss" using blocks_rep_length [OF assms(1)] .
  have one: "in_block ?a (blks m ! j) \<longleftrightarrow> j = i" if j: "j < length bss" for j
  proof
    assume "in_block ?a (blks m ! j)"
    then have "?a \<in> extent (blks m ! j)" using in_block_extent(2) [OF blocks_rep_nth(1) [OF assms(1) j]] by blast
    moreover have "?a \<in> extent (blks m ! i)" using data_extent [OF blocks_rep_nth(1) [OF assms(1,3)] assms(4)] .
    ultimately show "j = i" using blocks_disjoint [OF assms(1) j assms(3)] by blast
  qed (use in_block_extent(1) [OF blocks_rep_nth(1) [OF assms(1,3)] assms(4)] in simp)
  have "blks m \<noteq> []" using assms(3) n by auto
  then obtain c where c: "blk_index (currBlk m) (blks m) = Some c" "c < length bss"
    using assms(2) blk_index_known blk_index_nth n by (metis cur_ok_def)
  have "find (\<lambda>j. in_block ?a (blks m ! j)) (rev [0..<length (blks m)]) = Some i"
  proof -
    have "find (\<lambda>j. in_block ?a (blks m ! j)) (rev [0..<length (blks m)]) = find (\<lambda>j. j = i) (rev [0..<length (blks m)])"
      by (rule find_cong) (use one n in auto)
    also have "\<dots> = Some i"
    proof -
      have "find (\<lambda>j. j = i) xs = Some i" if "i \<in> set xs" for xs using that by (induction xs) auto
      then show ?thesis using assms(3) n by simp
    qed
    finally show ?thesis .
  qed
  then show ?thesis using c one by (auto simp: queryBlk_def assms(5,6))
qed

lemma n_alloc_zero: "n_alloc ss = 0 \<Longrightarrow> used ss = 0"
  by (induction ss) auto

lemma sum_of_remove:
  assumes "i < length xs"
  shows "sum_of f (take i xs @ drop (Suc i) xs) = sum_of f xs - of_nat (f (xs ! i))"
proof -
  have "sum_of f xs = sum_of f (take i xs) + (of_nat (f (xs ! i)) + sum_of f (drop (Suc i) xs))"
    by (subst id_take_nth_drop [OF assms]) simp
  then show ?thesis by simp
qed

text \<open>The state without a block none of whose segments is in use.\<close>

lemma drop_blk_rep:
  assumes rep: "blocks_rep m bss" "\<forall>ss \<in> set bss. 0 < n_alloc ss" "cur_ok (currBlk m) (blks m)" "nBlk m = of_nat (length bss)"
      "nSeg m = sum_of n_alloc bss" "currUse m = sum_of used bss" "totUse m = sum_of blk_use bss" "unat (blkLen m) = 28 + 8 * k"
    and i: "i < length bss" "n_alloc (bss ! i) = 1" "used (bss ! i) = n"
    and m': "m' = m\<lparr>words := h, nSeg := nSeg m - 1, currUse := currUse m - of_nat n, blks := (blks m)[i := b]\<rparr>"
    and b: "blk_base b = blk_base (blks m ! i)" "blk_len b = blk_len (blks m ! i)"
    and h: "\<And>a. a \<notin> extent (blks m ! i) \<Longrightarrow> h a = words m a"
  shows "msa_rep (drop_blk i m') (take i bss @ drop (Suc i) bss)" "blks (drop_blk i m') = take i (blks m) @ drop (Suc i) (blks m)"
    "\<And>a. a \<notin> extent (blks m ! i) \<Longrightarrow> words (drop_blk i m') a = words m a" "msa_limit (drop_blk i m') = msa_limit m"
proof -
  let ?bs = "take i (blks m) @ drop (Suc i) (blks m)" and ?d = "drop_blk i m'" and ?x = "blks m ! i"
  have nl: "length (blks m) = length bss" using blocks_rep_length [OF rep(1)] .
  have bi: "blks m' ! i = b" using i(1) nl by (simp add: m')
  show bl: "blks ?d = ?bs" by (simp add: drop_blk_def Let_def m')
  note br = blocks_rep_nth(1) [OF rep(1) i(1)]
  have e: "extent b = extent ?x" using b by (rule extent_same)
  have ulen: "unat (blk_len ?x) = 28 + seg_total (bss ! i)" using br by (simp add: block_rep_def)
  have wl: "blk_len ?x = 28 + of_nat (seg_total (bss ! i))"
    using arg_cong [OF ulen, of "of_nat :: nat \<Rightarrow> u32"] by simp
  show wd: "words ?d a = words m a" if a: "a \<notin> extent ?x" for a
  proof -
    have "blk_len b - 28 = of_nat (seg_total (bss ! i))"
      using wl b(2) by simp
    then have "\<not> word_of_block (blk_data b) (blk_len b - MSA_BLK_HDR_LENGTH) a"
      using word_of_block_span [of "blk_base ?x" "seg_total (bss ! i)" a] a ulen br
      by (auto simp: blk_data_def MSA_BLK_HDR_LENGTH_def b(1) extent_def block_rep_def)
    then show ?thesis using h [OF a] bi by (simp add: drop_blk_def Let_def m')
  qed
  show "msa_limit ?d = msa_limit m" by (simp add: drop_blk_def Let_def m')
  have split: "blks m = take i (blks m) @ ?x # drop (Suc i) (blks m)" using id_take_nth_drop [of i "blks m"] i(1) nl by simp
  have srt: "sorted_wrt (\<lambda>a b. extent a \<inter> extent b = {}) (take i (blks m) @ ?x # drop (Suc i) (blks m))"
    using rep(1) split by (simp add: blocks_rep_def)
  have disj: "extent c \<inter> extent ?x = {}" if "c \<in> set ?bs" for c
    using srt that unfolding sorted_wrt_append by (auto simp: Int_commute)
  have "blocks_rep ?d (take i bss @ drop (Suc i) bss)"
    unfolding blocks_rep_def bl
  proof
    have "list_all2 (block_rep (words m)) ?bs (take i bss @ drop (Suc i) bss)"
      using rep(1) unfolding blocks_rep_def by (intro list_all2_appendI list_all2_takeI list_all2_dropI) blast+
    then show "list_all2 (block_rep (words ?d)) ?bs (take i bss @ drop (Suc i) bss)"
      by (rule list.rel_mono_strong) (use disj wd block_rep_cong in blast)
    show "sorted_wrt (\<lambda>a b. extent a \<inter> extent b = {}) ?bs" using srt unfolding sorted_wrt_append by simp
  qed
  moreover have "cur_ok (currBlk ?d) (blks ?d)"
  proof (cases "currBlk m = blk_base ?x")
    case True
    then have "currBlk ?d = (case ?bs of [] \<Rightarrow> 0 | b # _ \<Rightarrow> blk_base b)"
      using bi b(1) by (simp add: drop_blk_def Let_def hdBlk_def m')
    then show ?thesis unfolding bl by (cases ?bs) (simp_all add: cur_ok_def)
  next
    case False
    have "blks m \<noteq> []" using i(1) nl by auto
    then have "currBlk m \<in> blk_base ` set ?bs"
    proof -
      have "set (blks m) = insert ?x (set ?bs)" using arg_cong [OF split, of set] by simp
      then show ?thesis using rep(3) False \<open>blks m \<noteq> []\<close> unfolding cur_ok_def by auto
    qed
    moreover have "currBlk ?d = currBlk m" using False bi b(1) by (simp add: drop_blk_def Let_def m')
    ultimately show ?thesis unfolding bl by (auto simp: cur_ok_def)
  qed
  moreover have "blk_len b = of_nat (blk_use (bss ! i))"
    using wl b(2) by (simp add: blk_use_def)
  moreover have "nBlk ?d = nBlk m - 1" "nSeg ?d = nSeg m - 1" "currUse ?d = currUse m - of_nat n"
    "totUse ?d = totUse m - blk_len b" "blkLen ?d = blkLen m" using bi by (simp_all add: drop_blk_def Let_def m')
  moreover have "of_nat (length (take i bss @ drop (Suc i) bss)) = (of_nat (length bss) - 1 :: u32)"
  proof -
    have "length (take i bss @ drop (Suc i) bss) = length bss - 1" using i(1) by simp
    then show ?thesis using i(1) of_nat_diff [of 1 "length bss", where 'a = u32] by simp
  qed
  moreover have "\<forall>ss \<in> set (take i bss @ drop (Suc i) bss). 0 < n_alloc ss"
    using rep(2) by (auto dest: in_set_takeD in_set_dropD)
  ultimately show "msa_rep ?d (take i bss @ drop (Suc i) bss)"
    unfolding msa_rep_alt sum_of_remove [OF i(1)] using rep(4-8) i by simp
qed

lemma fuse_counts [simp]:
  "n_alloc (fuse ss) = n_alloc ss" "used (fuse ss) = used ss" "seg_total (fuse ss) = seg_total ss"
  by (induction ss rule: fuse.induct) simp_all

lemma allocs_fuse [simp]: "allocs off (fuse ss) = allocs off ss"
  by (induction ss arbitrary: off rule: fuse.induct) (simp_all, simp add: add.assoc)

lemma carve_word:
  assumes "8 dvd k" "k < 2 ^ 32"
  shows "seg_word (k, True) AND 1 \<noteq> 0" "seg_word (k, True) AND NOT 1 = of_nat k"
  using seg_word_parts(2-4) [OF assms] by simp_all

lemma free_spec:
  assumes "msa_rep m bss" "i < length bss" "bss ! i = xs @ (k, True) # ys" "p = blk_data (blks m ! i) + of_nat (seg_total xs) + 4"
  shows "\<exists>m'. free p m = Some (0, m') \<and> msa_limit m' = msa_limit m
    \<and> (if n_alloc (bss ! i) = 1
       then msa_rep m' (take i bss @ drop (Suc i) bss) \<and> blks m' = take i (blks m) @ drop (Suc i) (blks m)
         \<and> (\<forall>a. a \<notin> extent (blks m ! i) \<longrightarrow> words m' a = words m a)
       else msa_rep m' (bss[i := fuse (xs @ (k, False) # ys)]) \<and> List.map blk_base (blks m') = List.map blk_base (blks m)
         \<and> block_rep (words m') (blks m' ! i) (fuse (xs @ (k, False) # ys))
         \<and> (\<forall>a. a \<notin> (\<lambda>j. blk_data (blks m ! i) + of_nat j) ` free_span (fuse (xs @ (k, False) # ys)) \<longrightarrow> words m' a = words m a))"
proof -
  let ?x = "blks m ! i" and ?ss = "bss ! i" and ?ts = "fuse (xs @ (k, False) # ys)"
  let ?d = "blk_data ?x" and ?f = "seg_total xs"
  let ?a = "?d + of_nat ?f"
  from assms(1) obtain z where rep: "blocks_rep m bss" "\<forall>ss \<in> set bss. 0 < n_alloc ss" "cur_ok (currBlk m) (blks m)"
    and sums: "nBlk m = of_nat (length bss)" "nSeg m = sum_of n_alloc bss" "currUse m = sum_of used bss" "totUse m = sum_of blk_use bss"
      "unat (blkLen m) = 28 + 8 * z" by (auto simp: msa_rep_alt)
  note br = blocks_rep_nth(1) [OF rep(1) assms(2)]
  note ar = block_area [OF br]
  have q: "8 dvd k" "8 \<le> k" "quanta xs" "quanta ys" using br by (simp_all add: block_rep_def assms(3))
  have fn: "?f < seg_total ?ss" "?f + 4 \<le> seg_total ?ss" "k < 2 ^ 32" using q ar(3) by (simp_all add: assms(3))
  have len: "words m ?a = Some (seg_word (k, True))"
    using br view_read [of "words m" ?d "seg_total ?ss" ?f] by (simp add: block_rep_def seg_rep_def assms(3))
  have pa: "p - 4 = ?a" "p \<noteq> 0"
    using assms(4) area_simps(3) [OF ar(1), of "?f + 4" 0] fn(2) by (simp_all add: add.assoc)
  note w = carve_word [OF q(1) fn(3)]
  let ?h0 = "(words m)(?a \<mapsto> of_nat k)"
  let ?b0 = "?x\<lparr>nAllocSeg := nAllocSeg ?x - 1\<rparr>"
  let ?m0 = "m\<lparr>words := ?h0, nSeg := nSeg m - 1, currUse := currUse m - of_nat k, blks := (blks m)[i := ?b0]\<rparr>"
  have query: "queryBlk ?a (m\<lparr>words := ?h0\<rparr>) = Some (Some i)"
    by (rule queryBlk_spec [OF rep(1,3) assms(2) fn(1)]) simp_all
  have nl: "i < length (blks m)" using blocks_rep_nth(2) [OF rep(1) assms(2)] .
  have fr: "free p m = (if nAllocSeg ?b0 = 0 then Some (0, drop_blk i ?m0)
      else do {
        (prev, cur) \<leftarrow> free_pos ?a 0 (hdFreeSeg ?b0) ?h0;
        (b, h) \<leftarrow> join_next ?a cur ?b0 ?h0;
        (b, h) \<leftarrow> join_prev ?a prev b h;
        Some (0, ?m0\<lparr>blks := (blks ?m0)[i := b], words := h\<rparr>) })"
    using len w query pa nl by (simp add: free_def Let_def store_word_def)
  have na: "nAllocSeg ?b0 = 0 \<longleftrightarrow> n_alloc ?ss = 1"
  proof -
    have lt: "n_alloc ?ss < 2 ^ 32" using count_bounds [of ?ss] br ar(3) by (simp add: block_rep_def)
    have "nAllocSeg ?x = of_nat (n_alloc ?ss)" using br by (simp add: block_rep_def)
    then have b0: "nAllocSeg ?b0 = of_nat (n_alloc ?ss) - 1" by simp
    show ?thesis
    proof
      assume "nAllocSeg ?b0 = 0"
      then have "unat (of_nat (n_alloc ?ss) :: u32) = 1" unfolding b0 by simp
      then show "n_alloc ?ss = 1" using unat_small [OF lt] by simp
    qed (simp add: b0)
  qed
  show ?thesis
  proof (cases "n_alloc ?ss = 1")
    case True
    then have u: "used ?ss = k" using n_alloc_zero [of xs] n_alloc_zero [of ys] by (simp add: assms(3))
    have "?a \<in> extent ?x" using data_extent [OF br fn(1)] .
    then have h: "?h0 a = words m a" if "a \<notin> extent ?x" for a using that by auto
    have "blk_base ?b0 = blk_base ?x" "blk_len ?b0 = blk_len ?x" by simp_all
    note d = drop_blk_rep [OF rep sums assms(2) True u refl this h]
    have "free p m = Some (0, drop_blk i ?m0)" using fr na True by simp
    then show ?thesis using d unfolding if_P [OF True] by blast
  next
    case False
    from free_in_block [OF br assms(3)] obtain prev cur b1 h1 b2 h2 where
      s: "free_pos ?a 0 (hdFreeSeg ?x) ?h0 = Some (prev, cur)" "join_next ?a cur ?b0 ?h0 = Some (b1, h1)"
        "join_prev ?a prev b1 h1 = Some (b2, h2)" "block_rep h2 b2 ?ts" "blk_base b2 = blk_base ?x" "blk_len b2 = blk_len ?x"
        "within ?d (free_span ?ts) (words m) h2" unfolding Let_def by blast
    let ?m2 = "?m0\<lparr>blks := (blks m)[i := b2], words := h2\<rparr>"
    have "free p m = Some (0, ?m2)" using fr na False s(1-3) by simp
    moreover have tot: "seg_total ?ts = seg_total ?ss" by (simp add: assms(3))
    note r = blocks_rep_replaced [OF rep(1) assms(2) s(4-7) free_span_total [of _ ?ts, unfolded tot]]
    moreover have "msa_rep ?m2 (bss[i := ?ts])"
    proof -
      have "n_alloc ?ts + 1 = n_alloc ?ss" "used ?ts + k = used ?ss" "blk_use ?ts = blk_use ?ss"
        using tot by (simp_all add: assms(3) blk_use_def)
      then have "sum_of n_alloc (bss[i := ?ts]) = nSeg m - 1" "sum_of used (bss[i := ?ts]) = currUse m - of_nat k"
        "sum_of blk_use (bss[i := ?ts]) = totUse m" using sums
        by (simp_all add: sum_of_update [OF assms(2)] flip: \<open>n_alloc ?ts + 1 = n_alloc ?ss\<close> \<open>used ?ts + k = used ?ss\<close>)
      moreover have "\<forall>ss \<in> set (bss[i := ?ts]). 0 < n_alloc ss"
      proof
        fix ss assume ss: "ss \<in> set (bss[i := ?ts])"
        have "0 < n_alloc ?ss" using rep(2) assms(2) by simp
        then have "0 < n_alloc ?ts" using \<open>n_alloc ?ts + 1 = n_alloc ?ss\<close> False by linarith
        then show "0 < n_alloc ss" using ss rep(2) set_update_subset_insert [of bss i ?ts] by blast
      qed
      moreover have "cur_ok (currBlk ?m2) (blks ?m2)"
      proof -
        have "List.map blk_base (blks ?m2) = List.map blk_base (blks m)"
          using s(5) nl by (simp add: map_update list_update_same_conv)
        from cur_ok_cong [OF this, of "currBlk m"] show ?thesis using rep(3) by simp
      qed
      ultimately show ?thesis using r(1) sums unfolding msa_rep_alt by (simp add: blocks_rep_def)
    qed
    ultimately show ?thesis using False s(4,7) r(2) nl by (simp add: same_frame_def within_def)
  qed
qed

end
