(* ===== verification/MSA_Client.thy ===== *)
theory MSA_Client imports MSA_Alloc begin

text \<open>
  What the segment allocator (API/MSA) promises its clients: the segments in use, what allocation and
  freeing do to them, the consistency check, and the states that sequences of operations reach.
\<close>

subsection \<open>Segments in use\<close>

text \<open>The segments in use as the client sees them: where their data starts, and its room.\<close>

definition block_live :: "addr \<Rightarrow> seg list \<Rightarrow> (addr \<times> nat) set" where
  "block_live d ss = (\<lambda>(off, n). (d + of_nat off + 4, n - 4)) ` set (allocs 0 ss)"

definition live :: "SegBlk list \<Rightarrow> seg list list \<Rightarrow> (addr \<times> nat) set" where
  "live bs bss = (\<Union>i<length bss. block_live (blk_data (bs ! i)) (bss ! i))"

lemma liveE:
  assumes "(p, k) \<in> live bs bss"
  obtains i off n where "i < length bss" "(off, n) \<in> set (allocs 0 (bss ! i))" "p = blk_data (bs ! i) + of_nat off + 4" "k = n - 4"
  using assms by (auto simp: live_def block_live_def)

lemma allocs_bounds: "p \<in> set (allocs off ss) \<Longrightarrow> off \<le> fst p \<and> fst p + snd p \<le> off + seg_total ss"
proof (induction ss arbitrary: off)
  case (Cons s ss)
  from Cons.prems consider "p = (off, fst s)" | "p \<in> set (allocs (off + fst s) ss)" by (auto split: if_splits)
  then show ?case by cases (use Cons.IH [of "off + fst s"] in simp_all)
qed simp

lemma allocs_quanta: "quanta ss \<Longrightarrow> p \<in> set (allocs off ss) \<Longrightarrow> 8 \<le> snd p"
proof (induction ss arbitrary: off)
  case (Cons s ss)
  from Cons.prems(2) consider "p = (off, fst s)" | "p \<in> set (allocs (off + fst s) ss)" by (auto split: if_splits)
  then show ?case by cases (use Cons.IH [of "off + fst s"] Cons.prems in simp_all)
qed simp

lemma allocs_apart:
  "p \<in> set (allocs off ss) \<Longrightarrow> q \<in> set (allocs off ss) \<Longrightarrow> p \<noteq> q \<Longrightarrow> fst p + snd p \<le> fst q \<or> fst q + snd q \<le> fst p"
proof (induction ss arbitrary: off)
  case (Cons s ss)
  note b = allocs_bounds [of p "off + fst s" ss] allocs_bounds [of q "off + fst s" ss]
  from Cons.prems(1,2) consider "p = (off, fst s)" "q = (off, fst s)" | "p = (off, fst s)" "q \<in> set (allocs (off + fst s) ss)"
    | "p \<in> set (allocs (off + fst s) ss)" "q = (off, fst s)" | "p \<in> set (allocs (off + fst s) ss)" "q \<in> set (allocs (off + fst s) ss)"
    by (auto split: if_splits)
  then show ?case by cases (use b Cons.IH [of "off + fst s"] Cons.prems(3) in simp_all)
qed simp

lemma allocs_frees:
  "p \<in> set (allocs off ss) \<Longrightarrow> q \<in> set (frees off ss) \<Longrightarrow> fst p + snd p \<le> fst q \<or> fst q + snd q \<le> fst p"
proof (induction ss arbitrary: off)
  case (Cons s ss)
  note b = allocs_bounds [of p "off + fst s" ss] frees_bounds [of q "off + fst s" ss]
  from Cons.prems(1,2) consider "p = (off, fst s)" "q \<in> set (frees (off + fst s) ss)"
    | "p \<in> set (allocs (off + fst s) ss)" "q = (off, fst s)" | "p \<in> set (allocs (off + fst s) ss)" "q \<in> set (frees (off + fst s) ss)"
    by (auto split: if_splits)
  then show ?case by cases (use b Cons.IH [of "off + fst s"] in simp_all)
qed simp

lemma allocs_at: "(off', n) \<in> set (allocs off ss) \<Longrightarrow> \<exists>xs ys. ss = xs @ (n, True) # ys \<and> off' = off + seg_total xs"
proof (induction ss arbitrary: off)
  case (Cons s ss)
  from Cons.prems consider "(off', n) = (off, fst s)" "snd s" | "(off', n) \<in> set (allocs (off + fst s) ss)" by (auto split: if_splits)
  then show ?case
  proof cases
    case 1
    then show ?thesis by (intro exI [of _ "[]"] exI [of _ ss]) (cases s, simp)
  next
    case 2
    from Cons.IH [OF this] obtain xs ys where "ss = xs @ (n, True) # ys" "off' = off + fst s + seg_total xs" by blast
    then show ?thesis by (intro exI [of _ "s # xs"] exI [of _ ys]) simp
  qed
qed simp

lemma live_offset:
  assumes "a \<in> span (d + of_nat off + 4) (n - 4)"
  shows "\<exists>i. a = d + of_nat i \<and> off + 4 \<le> i \<and> i < off + n"
proof -
  from assms obtain t where "t < n - 4" "a = d + of_nat off + 4 + of_nat t" by (auto simp: span_def)
  then show ?thesis by (intro exI [of _ "off + 4 + t"]) (simp add: add.assoc)
qed

lemma live_extent:
  assumes "block_rep h b ss" "(off, n) \<in> set (allocs 0 ss)"
  shows "span (blk_data b + of_nat off + 4) (n - 4) \<subseteq> extent b"
    "a \<in> span (blk_data b + of_nat off + 4) (n - 4) \<Longrightarrow> a \<notin> (\<lambda>i. blk_data b + of_nat i) ` free_span ss"
    "(off', n') \<in> set (allocs 0 ss) \<Longrightarrow> (off', n') \<noteq> (off, n) \<Longrightarrow>
       span (blk_data b + of_nat off + 4) (n - 4) \<inter> span (blk_data b + of_nat off' + 4) (n' - 4) = {}"
    "blk_data b + of_nat off + 4 \<in> span (blk_data b + of_nat off + 4) (n - 4)"
proof -
  have q: "quanta ss" using assms(1) by (simp add: block_rep_def)
  note ar = block_area [OF assms(1)]
  have n: "8 \<le> n" using allocs_quanta [OF q assms(2)] by simp
  have b: "off + n \<le> seg_total ss" using allocs_bounds [OF assms(2)] by simp
  show "span (blk_data b + of_nat off + 4) (n - 4) \<subseteq> extent b"
  proof
    fix a assume "a \<in> span (blk_data b + of_nat off + 4) (n - 4)"
    from live_offset [OF this] obtain i where "a = blk_data b + of_nat i" "i < off + n" by blast
    then show "a \<in> extent b" using data_extent [OF assms(1)] b by simp
  qed
  show "a \<notin> (\<lambda>i. blk_data b + of_nat i) ` free_span ss" if a: "a \<in> span (blk_data b + of_nat off + 4) (n - 4)"
  proof
    assume "a \<in> (\<lambda>i. blk_data b + of_nat i) ` free_span ss"
    then obtain j where j: "a = blk_data b + of_nat j" "j \<in> free_span ss" by auto
    from live_offset [OF a] obtain i where i: "a = blk_data b + of_nat i" "off + 4 \<le> i" "i < off + n" by blast
    have "j = i" using area_simps(1) [OF ar(1), of j i] free_span_total [OF j(2)] i j(1) b by simp
    then show False using j(2) i allocs_frees [OF assms(2)] unfolding free_span_def by fastforce
  qed
  show "span (blk_data b + of_nat off + 4) (n - 4) \<inter> span (blk_data b + of_nat off' + 4) (n' - 4) = {}"
    if o': "(off', n') \<in> set (allocs 0 ss)" "(off', n') \<noteq> (off, n)"
  proof (rule ccontr)
    assume "\<not> ?thesis"
    then obtain a where a: "a \<in> span (blk_data b + of_nat off + 4) (n - 4)" "a \<in> span (blk_data b + of_nat off' + 4) (n' - 4)" by blast
    from live_offset [OF a(1)] live_offset [OF a(2)] obtain i j where
      ij: "a = blk_data b + of_nat i" "off + 4 \<le> i" "i < off + n" "a = blk_data b + of_nat j" "off' + 4 \<le> j" "j < off' + n'" by blast
    have "off' + n' \<le> seg_total ss" using allocs_bounds [OF o'(1)] by simp
    then have "i = j" using area_simps(1) [OF ar(1), of i j] ij b by simp
    then show False using allocs_apart [OF assms(2) o'(1)] o'(2) ij by auto
  qed
  show "blk_data b + of_nat off + 4 \<in> span (blk_data b + of_nat off + 4) (n - 4)"
    using n unfolding span_def by (intro CollectI exI [of _ 0]) simp
qed

lemma live_disjoint:
  assumes "blocks_rep m bss" "(p, k) \<in> live (blks m) bss" "(q, l) \<in> live (blks m) bss" "(p, k) \<noteq> (q, l)"
  shows "span p k \<inter> span q l = {}" "p \<noteq> q"
proof -
  from assms(2) obtain i off n where i: "i < length bss" "(off, n) \<in> set (allocs 0 (bss ! i))"
    "p = blk_data (blks m ! i) + of_nat off + 4" "k = n - 4" by (rule liveE)
  from assms(3) obtain j off' n' where j: "j < length bss" "(off', n') \<in> set (allocs 0 (bss ! j))"
    "q = blk_data (blks m ! j) + of_nat off' + 4" "l = n' - 4" by (rule liveE)
  note bi = live_extent [OF blocks_rep_nth(1) [OF assms(1) i(1)] i(2)] and bj = live_extent [OF blocks_rep_nth(1) [OF assms(1) j(1)] j(2)]
  show d: "span p k \<inter> span q l = {}"
  proof (cases "i = j")
    case True
    then have "(off', n') \<noteq> (off, n)" using assms(4) i j by auto
    then show ?thesis using bi(3) [of off' n'] j(2-4) i(3,4) True by simp
  next
    case False
    show ?thesis using bi(1) bj(1) blocks_disjoint [OF assms(1) i(1) j(1) False] unfolding i(3,4) j(3,4) by blast
  qed
  have "p \<in> span p k" "q \<in> span q l" using bi(4) bj(4) by (simp_all add: i(3,4) j(3,4))
  then show "p \<noteq> q" using d by blast
qed

text \<open>A change to the free segments of one block leaves the data of all segments in use alone.\<close>

lemma live_data_kept:
  assumes "blocks_rep m bss" "i < length bss" "(q, k) \<in> live (blks m) bss" "a \<in> span q k"
  shows "a \<notin> (\<lambda>j. blk_data (blks m ! i) + of_nat j) ` free_span (bss ! i)"
proof -
  from assms(3) obtain j off n where j: "j < length bss" "(off, n) \<in> set (allocs 0 (bss ! j))"
    "q = blk_data (blks m ! j) + of_nat off + 4" "k = n - 4" by (rule liveE)
  note bj = live_extent [OF blocks_rep_nth(1) [OF assms(1) j(1)] j(2)]
  show ?thesis
  proof (cases "i = j")
    case True
    then show ?thesis using bj(2) assms(4) j(3,4) by simp
  next
    case False
    have "a \<in> extent (blks m ! j)" using bj(1) assms(4) j(3,4) by blast
    moreover have "b \<in> extent (blks m ! i)" if "b \<in> (\<lambda>j. blk_data (blks m ! i) + of_nat j) ` free_span (bss ! i)" for b
      using that free_span_total data_extent [OF blocks_rep_nth(1) [OF assms(1,2)]] by blast
    ultimately show ?thesis using blocks_disjoint [OF assms(1,2) j(1) False] by blast
  qed
qed

lemma live_cong:
  assumes "length bss' = length bss" "\<And>i. i < length bss \<Longrightarrow> set (allocs 0 (bss' ! i)) = set (allocs 0 (bss ! i))"
    and "\<And>i. i < length bss \<Longrightarrow> blk_base (bs' ! i) = blk_base (bs ! i)"
  shows "live bs' bss' = live bs bss"
  unfolding live_def by (rule SUP_cong) (use assms in \<open>simp_all add: block_live_def blk_data_def\<close>)

lemma map_nth_eq: "List.map f xs = List.map f ys \<Longrightarrow> i < length ys \<Longrightarrow> f (xs ! i) = f (ys ! i)"
  by (metis length_map nth_map)

lemma live_insert:
  assumes "i < length bss" "set (allocs 0 ts) = insert (off, n) (set (allocs 0 (bss ! i)))"
    and "List.map blk_base bs' = List.map blk_base bs" "length bs = length bss"
  shows "live bs' (bss[i := ts]) = insert (blk_data (bs ! i) + of_nat off + 4, n - 4) (live bs bss)"
proof -
  have f: "block_live (blk_data (bs' ! j)) (bss[i := ts] ! j)
      = (if j = i then insert (blk_data (bs ! i) + of_nat off + 4, n - 4) (block_live (blk_data (bs ! i)) (bss ! i))
         else block_live (blk_data (bs ! j)) (bss ! j))" if "j < length bss" for j
    using map_nth_eq [OF assms(3), of j] assms(1,2,4) that by (auto simp: block_live_def blk_data_def)
  have "live bs' (bss[i := ts]) = (\<Union>j<length bss. if j = i
      then insert (blk_data (bs ! i) + of_nat off + 4, n - 4) (block_live (blk_data (bs ! i)) (bss ! i))
      else block_live (blk_data (bs ! j)) (bss ! j))"
    unfolding live_def by (rule SUP_cong) (use f in simp_all)
  then show ?thesis using assms(1) by (auto simp: live_def split: if_splits)
qed

lemma live_append_free: "length bs = length bss \<Longrightarrow> live (bs @ [b]) (bss @ [[(n, False)]]) = live bs bss"
  by (simp add: live_def lessThan_Suc nth_append block_live_def)

lemma alloc_live:
  assumes "msa_rep m bss" "new_ok os m" "msa_limit m = 0" "len \<noteq> 0" "unat len + 39 < 2 ^ 32"
  shows "\<exists>p m' bss'. alloc os len m = Some (p, m') \<and> msa_rep m' bss' \<and> msa_limit m' = 0
    \<and> (if p = 0 then live (blks m') bss' = live (blks m) bss
       else live (blks m') bss' = insert (p, req_len len - 4) (live (blks m) bss) \<and> (p, req_len len - 4) \<notin> live (blks m) bss)
    \<and> (\<forall>(q, k) \<in> live (blks m) bss. \<forall>a \<in> span q k. words m' a = words m a)"
proof -
  have rep: "blocks_rep m bss" using assms(1) by (simp add: msa_rep_alt)
  have nl: "length (blks m) = length bss" using blocks_rep_length [OF rep] .
  have live_ext: "a \<in> \<Union> (extent ` set (blks m))" if qk: "(q, k) \<in> live (blks m) bss" "a \<in> span q k" for q k a
  proof -
    from qk(1) obtain j off n where j: "j < length bss" "(off, n) \<in> set (allocs 0 (bss ! j))"
      "q = blk_data (blks m ! j) + of_nat off + 4" "k = n - 4" by (rule liveE)
    have "a \<in> extent (blks m ! j)" using live_extent(1) [OF blocks_rep_nth(1) [OF rep j(1)] j(2)] qk(2) j(3,4) by blast
    moreover have "blks m ! j \<in> set (blks m)" using j(1) nl by simp
    ultimately show ?thesis by blast
  qed
  have "over_limit (of_nat (req_len len)) m \<longrightarrow> refused (of_nat (req_len len)) m" using assms(3) by (simp add: over_limit_def)
  from alloc_spec [OF assms(1,2) this assms(4,5), unfolded assms(3)]
  obtain p m' bss' where s: "alloc os len m = Some (p, m')" "msa_rep m' bss'" "msa_limit m' = 0"
    and alt: "p = 0 \<and> bss' = bss \<and> words m' = words m \<and> List.map blk_base (blks m') = List.map blk_base (blks m)
         \<and> (\<forall>ss \<in> set bss. carve (req_len len) ss = None)
         \<and> (os (addBlk_len (of_nat (req_len len)) m) = None \<or> refused (of_nat (req_len len)) m)
       \<or> (\<exists>bs1 bss1 i off ts. source_blocks (req_len len) os m bss bs1 bss1 \<and> i < length bss1 \<and> length bs1 = length bss1
           \<and> carve (req_len len) (bss1 ! i) = Some (off, ts) \<and> p = blk_data (bs1 ! i) + of_nat off + 4 \<and> bss' = bss1[i := ts]
           \<and> List.map blk_base (blks m') = List.map blk_base bs1 \<and> block_rep (words m') (blks m' ! i) ts
           \<and> (\<forall>a. a \<notin> (\<lambda>j. blk_data (bs1 ! i) + of_nat j) ` free_span (bss1 ! i) \<longrightarrow> a \<in> \<Union> (extent ` set (blks m)) \<longrightarrow> words m' a = words m a))"
    by (elim exE conjE) (rule that; assumption)
  from alt show ?thesis
  proof (elim disjE exE)
    assume a: "p = 0 \<and> bss' = bss \<and> words m' = words m \<and> List.map blk_base (blks m') = List.map blk_base (blks m)
         \<and> (\<forall>ss \<in> set bss. carve (req_len len) ss = None)
         \<and> (os (addBlk_len (of_nat (req_len len)) m) = None \<or> refused (of_nat (req_len len)) m)"
    have "blk_base (blks m' ! i) = blk_base (blks m ! i)" if "i < length bss" for i
      using a nl that by (metis length_map nth_map)
    then have "live (blks m') bss = live (blks m) bss" by (intro live_cong) auto
    then show ?thesis using s a by (intro exI [of _ p] exI [of _ m'] exI [of _ bss]) auto
  next
    fix bs1 bss1 i off ts
    assume a: "source_blocks (req_len len) os m bss bs1 bss1 \<and> i < length bss1 \<and> length bs1 = length bss1
           \<and> carve (req_len len) (bss1 ! i) = Some (off, ts) \<and> p = blk_data (bs1 ! i) + of_nat off + 4 \<and> bss' = bss1[i := ts]
           \<and> List.map blk_base (blks m') = List.map blk_base bs1 \<and> block_rep (words m') (blks m' ! i) ts
           \<and> (\<forall>a. a \<notin> (\<lambda>j. blk_data (bs1 ! i) + of_nat j) ` free_span (bss1 ! i) \<longrightarrow> a \<in> \<Union> (extent ` set (blks m)) \<longrightarrow> words m' a = words m a)"
    then have a: "source_blocks (req_len len) os m bss bs1 bss1" "i < length bss1" "length bs1 = length bss1"
      "carve (req_len len) (bss1 ! i) = Some (off, ts)" "p = blk_data (bs1 ! i) + of_nat off + 4" "bss' = bss1[i := ts]"
      "List.map blk_base (blks m') = List.map blk_base bs1" "block_rep (words m') (blks m' ! i) ts"
      "\<And>a. a \<notin> (\<lambda>j. blk_data (bs1 ! i) + of_nat j) ` free_span (bss1 ! i) \<Longrightarrow> a \<in> \<Union> (extent ` set (blks m)) \<Longrightarrow> words m' a = words m a"
      by auto
    let ?n = "req_len len - 4"
    note c = carve_props [OF a(4)] and R = allocLen_req [OF assms(5)]
    have live1: "live bs1 bss1 = live (blks m) bss" using a(1) live_append_free [OF nl] by (auto simp: source_blocks_def)
    have live': "live (blks m') bss' = insert (p, ?n) (live (blks m) bss)"
      using live_insert [OF a(2) c(4) a(7,3)] live1 a(5,6) by simp
    have d: "blk_data (blks m' ! i) = blk_data (bs1 ! i)"
      using a(2,3,7) by (metis blk_data_def length_map nth_map)
    have "off + 4 \<le> seg_total ts" using c(1,6) R(3) by simp
    then have "p \<noteq> 0" using area_simps(3) [OF block_area(1) [OF a(8)], of "off + 4" 0] by (simp add: a(5) d add.assoc)
    moreover have "(p, ?n) \<notin> live (blks m) bss"
    proof
      assume "(p, ?n) \<in> live (blks m) bss"
      then obtain j off' n' where j: "j < length bss1" "(off', n') \<in> set (allocs 0 (bss1 ! j))"
        "p = blk_data (bs1 ! j) + of_nat off' + 4" "?n = n' - 4" unfolding live1 [symmetric] by (rule liveE)
      have rep': "blocks_rep m' bss'" using s(2) by (simp add: msa_rep_alt)
      have in_ts: "(off, req_len len) \<in> set (allocs 0 (bss' ! i))" "(off', n') \<in> set (allocs 0 (bss' ! j))"
        using c(4) a(2,6) j(1,2) by (cases "j = i"; simp)+
      have len': "i < length bss'" "j < length bss'" using a(2,6) j(1) by simp_all
      note ei = live_extent [OF blocks_rep_nth(1) [OF rep' len'(1)] in_ts(1)] and ej = live_extent [OF blocks_rep_nth(1) [OF rep' len'(2)] in_ts(2)]
      have dj: "blk_data (blks m' ! j) = blk_data (bs1 ! j)"
        using map_nth_eq [OF a(7), of j] a(3) j(1) by (simp add: blk_data_def)
      have "p \<in> extent (blks m' ! i)" "p \<in> extent (blks m' ! j)" using ei(1,4) ej(1,4) a(5) j(3) d dj by auto
      then have ij: "j = i" using blocks_disjoint [OF rep' len'] by blast
      have "off' + n' \<le> seg_total ts" using allocs_bounds [OF in_ts(2)] a(2,6) ij by simp
      moreover have "blk_data (bs1 ! i) + of_nat off' = blk_data (bs1 ! i) + of_nat off" using a(5) j(3) ij by simp
      ultimately have "off' = off" using area_simps(1) [OF block_area(1) [OF a(8)], of off' off] c(1,6) d by simp
      moreover have "n' = req_len len"
      proof (rule ccontr)
        assume "n' \<noteq> req_len len"
        then show False using allocs_apart [OF in_ts(1), of "(off', n')"] in_ts(2) ij \<open>off' = off\<close> R(3)
            allocs_quanta [OF _ in_ts(2)] blocks_rep_nth(1) [OF rep' len'(2)] by (simp add: block_rep_def)
      qed
      ultimately have "(off, req_len len) \<in> set (allocs 0 (bss1 ! i))" using j(2) ij by simp
      moreover have "off \<in> free_span (bss1 ! i)" using c(5) R(3) by auto
      ultimately show False using allocs_frees [of "(off, req_len len)" 0 "bss1 ! i"] R(3) unfolding free_span_def by fastforce
    qed
    moreover have "words m' x = words m x" if x: "(q, k) \<in> live (blks m) bss" "x \<in> span q k" for q k x
    proof (rule a(9))
      show "x \<in> \<Union> (extent ` set (blks m))" using live_ext [OF x] .
      show "x \<notin> (\<lambda>j. blk_data (bs1 ! i) + of_nat j) ` free_span (bss1 ! i)"
      proof (cases "i < length bss")
        case True
        then have "bs1 ! i = blks m ! i" "bss1 ! i = bss ! i" using a(1) nl by (auto simp: source_blocks_def nth_append)
        then show ?thesis using live_data_kept [OF rep True x] by simp
      next
        case False
        then obtain b L where b: "bs1 ! i = b" "bss1 ! i = [(L, False)]" "extent b \<inter> \<Union> (extent ` set (blks m)) = {}"
          "\<forall>i < L. blk_data b + of_nat i \<in> extent b"
          using a(1,2) nl by (auto simp: source_blocks_def nth_append less_Suc_eq)
        have "j < L" if "j \<in> free_span (bss1 ! i)" for j using free_span_total [OF that] b(2) by simp
        then show ?thesis using b live_ext [OF x] by blast
      qed
    qed
    ultimately show ?thesis
      using s live' by (intro exI [of _ p] exI [of _ m'] exI [of _ bss']) auto
  qed
qed

lemma block_live_extent:
  assumes "block_rep h b ss" "(p, k) \<in> block_live (blk_data b) ss"
  shows "p \<in> extent b"
proof -
  from assms(2) obtain off n where o: "(off, n) \<in> set (allocs 0 ss)" "p = blk_data b + of_nat off + 4" by (auto simp: block_live_def)
  show ?thesis using live_extent(1,4) [OF assms(1) o(1)] o(2) by blast
qed

lemma block_live_minus:
  assumes "block_rep h b (xs @ (n, True) # ys)" "p = blk_data b + of_nat (seg_total xs) + 4"
  shows "block_live (blk_data b) (xs @ (n, True) # ys) - {(p, n - 4)} = block_live (blk_data b) (xs @ (n, False) # ys)"
proof -
  let ?ss = "xs @ (n, True) # ys" and ?g = "\<lambda>(off, n). (blk_data b + of_nat off + 4, n - 4 :: nat)"
  have q: "quanta ?ss" using assms(1) by (simp add: block_rep_def)
  have inj: "inj_on ?g (set (allocs 0 ?ss))"
  proof (rule inj_onI)
    fix u v assume uv: "u \<in> set (allocs 0 ?ss)" "v \<in> set (allocs 0 ?ss)" "?g u = ?g v"
    have "fst u \<le> seg_total ?ss" "fst v \<le> seg_total ?ss" "8 \<le> snd u" "8 \<le> snd v"
      using allocs_bounds [OF uv(1)] allocs_bounds [OF uv(2)] allocs_quanta [OF q uv(1)] allocs_quanta [OF q uv(2)] by simp_all
    moreover have "blk_data b + of_nat (fst u) = blk_data b + of_nat (fst v)" "snd u - 4 = snd v - 4"
      using uv(3) by (simp_all add: split_def)
    ultimately show "u = v"
      using area_simps(1) [OF block_area(1) [OF assms(1)], of "fst u" "fst v"] by (simp add: prod_eq_iff)
  qed
  have new: "(seg_total xs, n) \<notin> set (allocs 0 (xs @ (n, False) # ys))"
    using allocs_bounds [of "(seg_total xs, n)" 0 xs] allocs_bounds [of "(seg_total xs, n)" "seg_total xs + n" ys] q by auto
  have a: "set (allocs 0 ?ss) - {(seg_total xs, n)} = set (allocs 0 (xs @ (n, False) # ys))" using new by auto
  have g: "?g ` {(seg_total xs, n)} = {(p, n - 4)}" by (simp add: assms(2))
  have "?g ` (set (allocs 0 ?ss) - {(seg_total xs, n)}) = ?g ` set (allocs 0 ?ss) - ?g ` {(seg_total xs, n)}"
    by (rule inj_on_image_set_diff [OF inj Diff_subset]) simp
  from this [unfolded g a] show ?thesis unfolding block_live_def by (rule sym)
qed

lemma live_minus:
  assumes "blocks_rep m bss" "i < length bss" "bss ! i = xs @ (n, True) # ys" "p = blk_data (blks m ! i) + of_nat (seg_total xs) + 4"
  shows "live (blks m) bss - {(p, n - 4)} = (\<Union>j<length bss. if j = i
    then block_live (blk_data (blks m ! i)) (xs @ (n, False) # ys) else block_live (blk_data (blks m ! j)) (bss ! j))"
proof -
  have "(p, n - 4) \<in> block_live (blk_data (blks m ! i)) (bss ! i)" using assms(3,4) by (simp add: block_live_def)
  then have pi: "p \<in> extent (blks m ! i)" using block_live_extent [OF blocks_rep_nth(1) [OF assms(1,2)]] by blast
  have other: "block_live (blk_data (blks m ! j)) (bss ! j) - {(p, n - 4)} = block_live (blk_data (blks m ! j)) (bss ! j)"
    if j: "j < length bss" "j \<noteq> i" for j
    using block_live_extent [OF blocks_rep_nth(1) [OF assms(1) j(1)]] blocks_disjoint [OF assms(1) j(1) assms(2) j(2)] pi by fastforce
  have "live (blks m) bss - {(p, n - 4)} = (\<Union>j<length bss. block_live (blk_data (blks m ! j)) (bss ! j) - {(p, n - 4)})"
    by (auto simp: live_def)
  also have "\<dots> = (\<Union>j<length bss. if j = i then block_live (blk_data (blks m ! i)) (xs @ (n, False) # ys)
      else block_live (blk_data (blks m ! j)) (bss ! j))"
  proof (rule SUP_cong [OF refl])
    fix j assume j: "j \<in> {..<length bss}"
    show "block_live (blk_data (blks m ! j)) (bss ! j) - {(p, n - 4)} = (if j = i
      then block_live (blk_data (blks m ! i)) (xs @ (n, False) # ys) else block_live (blk_data (blks m ! j)) (bss ! j))"
    proof (cases "j = i")
      case True
      then show ?thesis using block_live_minus [OF blocks_rep_nth(1) [OF assms(1,2), unfolded assms(3)] assms(4)] assms(3) by simp
    qed (use other j in simp)
  qed
  finally show ?thesis .
qed

lemma nth_remove:
  "i < length ls \<Longrightarrow> j < length ls - 1 \<Longrightarrow> (take i ls @ drop (Suc i) ls) ! j = ls ! (if j < i then j else Suc j)"
  by (cases "j < i") (simp_all add: nth_append min_def)

lemma live_remove:
  assumes "i < length bss" "length bs = length bss"
  shows "live (take i bs @ drop (Suc i) bs) (take i bss @ drop (Suc i) bss)
    = (\<Union>j<length bss. if j = i then {} else block_live (blk_data (bs ! j)) (bss ! j))"
proof -
  have n: "length (take i bss @ drop (Suc i) bss) = length bss - 1" using assms(1) by simp
  show ?thesis
  proof (intro equalityI subsetI)
    fix x assume "x \<in> live (take i bs @ drop (Suc i) bs) (take i bss @ drop (Suc i) bss)"
    then obtain j where j: "j < length bss - 1" "x \<in> block_live (blk_data ((take i bs @ drop (Suc i) bs) ! j)) ((take i bss @ drop (Suc i) bss) ! j)"
      unfolding live_def n by blast
    let ?j = "if j < i then j else Suc j"
    have "x \<in> block_live (blk_data (bs ! ?j)) (bss ! ?j)" "?j \<noteq> i" "?j < length bss"
      using j assms nth_remove [of i bs j] nth_remove [of i bss j] by (cases "j < i"; simp)+
    then show "x \<in> (\<Union>j<length bss. if j = i then {} else block_live (blk_data (bs ! j)) (bss ! j))"
      by (intro UN_I [where a = ?j]) simp_all
  next
    fix x assume "x \<in> (\<Union>j<length bss. if j = i then {} else block_live (blk_data (bs ! j)) (bss ! j))"
    then obtain j where j: "j < length bss" "j \<noteq> i" "x \<in> block_live (blk_data (bs ! j)) (bss ! j)" by (auto split: if_splits)
    let ?j = "if j < i then j else j - 1"
    have jj: "?j < length bss - 1" using j(1,2) assms(1) by (cases "j < i"; simp; arith)
    have "(if ?j < i then ?j else Suc ?j) = j" using j(2) by (cases "j < i") simp_all
    then have "x \<in> block_live (blk_data ((take i bs @ drop (Suc i) bs) ! ?j)) ((take i bss @ drop (Suc i) bss) ! ?j)"
      using nth_remove [of i bs ?j] nth_remove [of i bss ?j] j(3) jj assms by simp
    with jj have "?j < length bss - 1 \<and> x \<in> block_live (blk_data ((take i bs @ drop (Suc i) bs) ! ?j)) ((take i bss @ drop (Suc i) bss) ! ?j)" ..
    then show "x \<in> live (take i bs @ drop (Suc i) bs) (take i bss @ drop (Suc i) bss)" unfolding live_def n by blast
  qed
qed

lemma free_live:
  assumes "msa_rep m bss" "(p, k) \<in> live (blks m) bss"
  shows "\<exists>m' bss'. free p m = Some (0, m') \<and> msa_rep m' bss' \<and> msa_limit m' = msa_limit m
    \<and> live (blks m') bss' = live (blks m) bss - {(p, k)}
    \<and> (\<forall>(q, l) \<in> live (blks m') bss'. \<forall>a \<in> span q l. words m' a = words m a)"
proof -
  have rep: "blocks_rep m bss" using assms(1) by (simp add: msa_rep_alt)
  have nl: "length (blks m) = length bss" using blocks_rep_length [OF rep] .
  from assms(2) obtain i off n where i: "i < length bss" "(off, n) \<in> set (allocs 0 (bss ! i))"
    "p = blk_data (blks m ! i) + of_nat off + 4" "k = n - 4" by (rule liveE)
  from allocs_at [OF i(2)] obtain xs ys where ss: "bss ! i = xs @ (n, True) # ys" "off = seg_total xs" by auto
  note p = i(3) [unfolded ss(2)]
  let ?x = "blks m ! i"
  note minus = live_minus [OF rep i(1) ss(1) p]
  from free_spec [OF assms(1) i(1) ss(1) p] obtain m' where f: "free p m = Some (0, m')" "msa_limit m' = msa_limit m"
    and alt: "if n_alloc (bss ! i) = 1
       then msa_rep m' (take i bss @ drop (Suc i) bss) \<and> blks m' = take i (blks m) @ drop (Suc i) (blks m)
         \<and> (\<forall>a. a \<notin> extent ?x \<longrightarrow> words m' a = words m a)
       else msa_rep m' (bss[i := fuse (xs @ (n, False) # ys)]) \<and> List.map blk_base (blks m') = List.map blk_base (blks m)
         \<and> block_rep (words m') (blks m' ! i) (fuse (xs @ (n, False) # ys))
         \<and> (\<forall>a. a \<notin> (\<lambda>j. blk_data ?x + of_nat j) ` free_span (fuse (xs @ (n, False) # ys)) \<longrightarrow> words m' a = words m a)" by blast
  show ?thesis
  proof (cases "n_alloc (bss ! i) = 1")
    case True
    with alt have a: "msa_rep m' (take i bss @ drop (Suc i) bss)" "blks m' = take i (blks m) @ drop (Suc i) (blks m)"
      "\<And>a. a \<notin> extent ?x \<Longrightarrow> words m' a = words m a" by simp_all
    have z: "allocs off zs = []" if "n_alloc zs = 0" for off zs using that by (induction zs arbitrary: off) auto
    have "block_live (blk_data ?x) (xs @ (n, False) # ys) = {}" using True ss(1) by (simp add: block_live_def z)
    then have l: "live (blks m') (take i bss @ drop (Suc i) bss) = live (blks m) bss - {(p, k)}"
      unfolding a(2) live_remove [OF i(1) nl] i(4) minus by (intro SUP_cong) auto
    have "words m' x = words m x" if q: "(q, l) \<in> live (blks m') (take i bss @ drop (Suc i) bss)" "x \<in> span q l" for q l x
    proof -
      from q(1) obtain j where j: "j < length bss" "j \<noteq> i" "(q, l) \<in> block_live (blk_data (blks m ! j)) (bss ! j)"
        unfolding a(2) live_remove [OF i(1) nl] by (auto split: if_splits)
      then obtain o' n' where o': "(o', n') \<in> set (allocs 0 (bss ! j))" "q = blk_data (blks m ! j) + of_nat o' + 4" "l = n' - 4"
        by (auto simp: block_live_def)
      have "x \<in> extent (blks m ! j)" using live_extent(1) [OF blocks_rep_nth(1) [OF rep j(1)] o'(1)] q(2) o'(2,3) by blast
      then show ?thesis using a(3) blocks_disjoint [OF rep j(1) i(1) j(2)] by blast
    qed
    then show ?thesis using f a(1) l by blast
  next
    case False
    with alt have a: "msa_rep m' (bss[i := fuse (xs @ (n, False) # ys)])" "List.map blk_base (blks m') = List.map blk_base (blks m)"
      "\<And>a. a \<notin> (\<lambda>j. blk_data ?x + of_nat j) ` free_span (fuse (xs @ (n, False) # ys)) \<Longrightarrow> words m' a = words m a" by auto
    let ?bss = "bss[i := fuse (xs @ (n, False) # ys)]"
    have l: "live (blks m') ?bss = live (blks m) bss - {(p, k)}"
    proof -
      have "live (blks m') ?bss = (\<Union>j<length bss. if j = i then block_live (blk_data ?x) (xs @ (n, False) # ys)
          else block_live (blk_data (blks m ! j)) (bss ! j))"
        unfolding live_def
        by (rule SUP_cong) (use map_nth_eq [OF a(2)] nl i(1) in \<open>auto simp: block_live_def blk_data_def\<close>)
      then show ?thesis using minus i(4) by simp
    qed
    have "words m' x = words m x" if q: "(q, l) \<in> live (blks m') ?bss" "x \<in> span q l" for q l x
    proof (rule a(3))
      have rep': "blocks_rep m' ?bss" using a(1) by (simp add: msa_rep_alt)
      have "i < length ?bss" using i(1) by simp
      from live_data_kept [OF rep' this q] show "x \<notin> (\<lambda>j. blk_data ?x + of_nat j) ` free_span (fuse (xs @ (n, False) # ys))"
        using map_nth_eq [OF a(2), of i] nl i(1) by (simp add: blk_data_def)
    qed
    then show ?thesis using f a(1) l by blast
  qed
qed

subsection \<open>The consistency check\<close>

lemma check_loop_spec:
  assumes "links (view h d n) d p (List.map fst fs)" "fs \<noteq> []" "area d n"
    and "\<And>i k. (i, k) \<in> set fs \<Longrightarrow> view h d n i = Some (of_nat k) \<and> i + 8 \<le> n \<and> 8 \<le> k \<and> k \<le> n"
  shows "check_loop p h = Some 0"
  using assms(1,2,4)
proof (induction fs arbitrary: p)
  case (Cons f fs)
  obtain i k where f: "f = (i, k)" by (cases f)
  from Cons.prems(1) obtain q where p: "p = d + of_nat i" and q: "view h d n (i + 4) = Some q" "links (view h d n) d q (List.map fst fs)"
    by (auto simp: f)
  have k: "view h d n i = Some (of_nat k)" "i + 8 \<le> n" "8 \<le> k" "k \<le> n" using Cons.prems(3) [of i k] f by auto
  have h: "h p = Some (of_nat k)" "h (p + 4) = Some q"
    using view_read [OF k(1)] view_read [OF q(1)] by (simp_all add: p add.assoc)
  have "n < 2 ^ 32" using assms(3) by (simp add: area_def)
  then have ge: "\<not> of_nat k < (8 :: u32)" using k unat_small [of k] by (simp add: word_less_nat_alt)
  show ?case
  proof (cases fs)
    case Nil
    then show ?thesis using h ge q(2) by (subst check_loop.simps) simp
  next
    case (Cons g gs)
    then have "q = d + of_nat (fst g)" "fst g \<le> n" using q(2) Cons.prems(3) [of "fst g" "snd g"] by auto
    then have "q \<noteq> 0" using area_simps(3) [OF assms(3), of "fst g" 0] by simp
    moreover have "check_loop q h = Some 0" by (rule Cons.IH [OF q(2)]) (use Cons Cons.prems in auto)
    ultimately show ?thesis using h ge by (subst check_loop.simps) simp
  qed
qed simp

lemma check_rep:
  assumes "msa_rep m bss"
  shows "check m = Some 0"
proof -
  have one: "check_blk h b = Some 0" if b: "block_rep h b ss" for h b ss
  proof (cases "hdFreeSeg b = 0")
    case False
    have q: "quanta ss" and sr: "seg_rep h (blk_data b) (hdFreeSeg b) ss" using b by (auto simp: block_rep_def)
    note ar = block_area [OF b]
    have lk: "links (view h (blk_data b) (seg_total ss)) (blk_data b) (hdFreeSeg b) (List.map fst (frees 0 ss))"
      using sr by (simp add: seg_rep_def)
    then have "frees 0 ss \<noteq> []" using False by auto
    from check_loop_spec [OF lk this ar(1)] frees_at [OF sr q ar(3)] frees_quanta [OF q, of 0]
    show ?thesis using False by (fastforce simp: check_blk_def)
  qed (simp add: check_blk_def)
  have "check_blks h bs = Some 0" if "list_all2 (block_rep h) bs bss" for h bs
    using that by (induction rule: list_all2_induct) (simp_all add: one)
  then show ?thesis using assms by (simp add: msa_rep_def check_def)
qed

subsection \<open>Sequences of operations\<close>

text \<open>The states a client reaches, which writes only to what it holds, with the length it asked for at each
  address. No limit is set.\<close>

inductive in_use :: "MSA \<Rightarrow> (addr \<Rightarrow> nat option) \<Rightarrow> bool" where
  start: "28 \<le> unat len \<Longrightarrow> unat len + 7 < 2 ^ 32 \<Longrightarrow> in_use (MSA_new len) Map.empty"
| allocate: "in_use m A \<Longrightarrow> new_ok os m \<Longrightarrow> len \<noteq> 0 \<Longrightarrow> unat len + 39 < 2 ^ 32 \<Longrightarrow> alloc os len m = Some (p, m') \<Longrightarrow>
    in_use m' (if p = 0 then A else A(p \<mapsto> unat len))"
| store: "in_use m A \<Longrightarrow> A p = Some n \<Longrightarrow> 4 dvd i \<Longrightarrow> i + 4 \<le> n \<Longrightarrow> store_word (p + of_nat i) v (words m) = Some h \<Longrightarrow>
    in_use (m\<lparr>words := h\<rparr>) A"
| release: "in_use m A \<Longrightarrow> A p = Some n \<Longrightarrow> free p m = Some (r, m') \<Longrightarrow> in_use m' (A(p := None))"

definition holds :: "MSA \<Rightarrow> (addr \<Rightarrow> nat option) \<Rightarrow> seg list list \<Rightarrow> bool" where
  "holds m A bss \<longleftrightarrow> msa_rep m bss \<and> msa_limit m = 0 \<and> dom A = fst ` live (blks m) bss
     \<and> (\<forall>(p, k) \<in> live (blks m) bss. \<exists>n. A p = Some n \<and> n \<le> k)"

lemma MSA_new_rep:
  assumes "28 \<le> unat len" "unat len + 7 < 2 ^ 32"
  shows "msa_rep (MSA_new len) []"
proof -
  let ?k = "(unat len - 21) div 8"
  have u: "unat (len - 28 + 7) = unat len - 21" using assms by (simp add: unat_word_ariths unat_sub word_le_nat_alt)
  have "unat ((len - 28 + 7) div 8) = ?k" unfolding unat_div_distrib u by simp
  moreover have "28 + 8 * ?k < 2 ^ 32" using assms by presburger
  ultimately have "unat (28 + 8 * ((len - 28 + 7) div 8)) = 28 + 8 * ?k" by (simp add: unat_word_ariths)
  then show ?thesis by (auto simp: msa_rep_def MSA_new_def MSA_BLK_HDR_LENGTH_def)
qed

lemma live_functional:
  assumes "msa_rep m bss" "(p, k) \<in> live (blks m) bss" "(p, l) \<in> live (blks m) bss"
  shows "k = l"
  using live_disjoint(2) [OF _ assms(2,3)] assms(1) by (auto simp: msa_rep_alt)

lemma live_nonzero:
  assumes "blocks_rep m bss" "(p, k) \<in> live (blks m) bss"
  shows "p \<noteq> 0"
proof -
  from assms(2) obtain i off j where i: "i < length bss" "(off, j) \<in> set (allocs 0 (bss ! i))"
    "p = blk_data (blks m ! i) + of_nat off + 4" "k = j - 4" by (rule liveE)
  note br = blocks_rep_nth [OF assms(1) i(1)]
  have "off + 8 \<le> seg_total (bss ! i)"
    using allocs_bounds [OF i(2)] allocs_quanta [OF _ i(2)] br(1) by (auto simp: block_rep_def)
  then show ?thesis using area_simps(3) [OF block_area(1) [OF br(1)], of "off + 4" 0] by (simp add: i(3) add.assoc)
qed

lemma holdsD:
  assumes "holds m A bss"
  shows "msa_rep m bss" "blocks_rep m bss" "msa_limit m = 0" "dom A = fst ` live (blks m) bss"
    "\<forall>(p, k) \<in> live (blks m) bss. \<exists>n. A p = Some n \<and> n \<le> k"
  using assms by (auto simp: holds_def msa_rep_alt)

lemma holds_live: "holds m A bss \<Longrightarrow> A p = Some n \<Longrightarrow> \<exists>k. (p, k) \<in> live (blks m) bss \<and> n \<le> k"
  unfolding holds_def by (force simp: dom_def)

lemma holds_zero: "holds m A bss \<Longrightarrow> A 0 = None"
  using holds_live live_nonzero holdsD(2) by (metis not_None_eq)

lemma span_mono: "n \<le> k \<Longrightarrow> span p n \<subseteq> span p k"
  unfolding span_def by force

lemma holds_alloc:
  assumes "holds m A bss" "new_ok os m" "len \<noteq> 0" "unat len + 39 < 2 ^ 32"
  shows "\<exists>p m' bss'. alloc os len m = Some (p, m') \<and> holds m' (if p = 0 then A else A(p \<mapsto> unat len)) bss' \<and> A p = None"
proof -
  note h = holdsD [OF assms(1)]
  from alloc_live [OF h(1) assms(2) h(3) assms(3,4)] obtain p m' bss' where
    r: "alloc os len m = Some (p, m')" "msa_rep m' bss'" "msa_limit m' = 0" "if p = 0 then live (blks m') bss' = live (blks m) bss
       else live (blks m') bss' = insert (p, req_len len - 4) (live (blks m) bss) \<and> (p, req_len len - 4) \<notin> live (blks m) bss" by auto
  show ?thesis
  proof (cases "p = 0")
    case True
    then have "holds m' A bss'" using h r by (simp add: holds_def)
    then show ?thesis using True r(1) holds_zero [OF assms(1)] by auto
  next
    case False
    then have l: "live (blks m') bss' = insert (p, req_len len - 4) (live (blks m) bss)" "(p, req_len len - 4) \<notin> live (blks m) bss"
      using r(4) by simp_all
    have fresh: "p \<notin> fst ` live (blks m) bss"
    proof
      assume "p \<in> fst ` live (blks m) bss"
      then obtain k where "(p, k) \<in> live (blks m) bss" by auto
      then show False using live_functional [OF r(2), of p k "req_len len - 4"] l by auto
    qed
    have "holds m' (A(p \<mapsto> unat len)) bss'"
      unfolding holds_def l(1) using r(2,3) h(4,5) fresh allocLen_req(5) [OF assms(4)] by force
    moreover have "A p = None" using fresh h(4) by (auto simp: dom_def)
    ultimately show ?thesis using False r(1) by auto
  qed
qed

lemma image_fst_remove:
  assumes "\<And>l. (p, l) \<in> L \<Longrightarrow> l = k"
  shows "fst ` (L - {(p, k)}) = fst ` L - {p}"
proof (intro set_eqI iffI)
  fix x assume "x \<in> fst ` (L - {(p, k)})"
  then show "x \<in> fst ` L - {p}" using assms by force
next
  fix x assume "x \<in> fst ` L - {p}"
  then show "x \<in> fst ` (L - {(p, k)})" by force
qed

text \<open>A word in a segment that is in use is no part of the structure of its block.\<close>

lemma seg_rep_data:
  assumes "seg_rep h d p (xs @ (j, True) # ys)" "quanta (xs @ (j, True) # ys)" "4 dvd i"
    and "seg_total xs + 4 \<le> i" "i < seg_total xs + j" "area d (seg_total (xs @ (j, True) # ys))"
  shows "\<exists>h'. store_word (d + of_nat i) v h = Some h' \<and> within d {i} h h' \<and> seg_rep h' d p (xs @ (j, True) # ys)"
proof -
  let ?ss = "xs @ (j, True) # ys"
  let ?w = "view h d (seg_total ?ss)"
  have q: "quanta xs" "quanta ys" "8 dvd j" "8 dvd seg_total xs"
    using assms(2) quanta_total [of xs] by (auto simp: quanta_def)
  have "?w i \<noteq> None" using assms(1,3,5) by (simp add: seg_rep_def)
  from store_at [OF this assms(6)] obtain h' where h': "store_word (d + of_nat i) v h = Some h'"
    "view h' d (seg_total ?ss) = ?w(i \<mapsto> v)" "within d {i} h h'" by blast
  have "heads (?w(i \<mapsto> v)) 0 xs = heads ?w 0 xs" by (rule heads_upd) (use q assms(4) in auto)
  moreover have "heads (?w(i \<mapsto> v)) (seg_total xs + j) ys = heads ?w (seg_total xs + j) ys"
    by (rule heads_upd) (use q assms(5) in auto)
  ultimately have "heads (?w(i \<mapsto> v)) 0 ?ss = heads ?w 0 ?ss" using assms(4) by simp
  moreover have "links (?w(i \<mapsto> v)) d p (List.map fst (frees 0 ?ss)) = links ?w d p (List.map fst (frees 0 ?ss))"
  proof (rule links_upd)
    fix k assume "k \<in> set (List.map fst (frees 0 ?ss))"
    then consider "k \<in> fst ` set (frees 0 xs)" | "k \<in> fst ` set (frees (seg_total xs + j) ys)" by auto
    then show "k + 4 \<noteq> i"
      by cases (use frees_mod [OF q(1), of 0] frees_mod [OF q(2), of "seg_total xs + j"] q(3,4) assms(4,5) in fastforce)+
  qed
  moreover have "(?w(i \<mapsto> v)) k \<noteq> None" if "?w k \<noteq> None" for k using that by simp
  ultimately have "seg_rep h' d p ?ss" using assms(1) unfolding seg_rep_def h'(2) by blast
  then show ?thesis using h' by blast
qed

lemma holds_store:
  assumes "holds m A bss" "A p = Some n" "4 dvd i" "i + 4 \<le> n" "store_word (p + of_nat i) v (words m) = Some h"
  shows "holds (m\<lparr>words := h\<rparr>) A bss"
proof -
  note d = holdsD [OF assms(1)]
  from holds_live [OF assms(1,2)] obtain l where l: "(p, l) \<in> live (blks m) bss" "n \<le> l" by blast
  from l(1) obtain k off j where k: "k < length bss" "(off, j) \<in> set (allocs 0 (bss ! k))"
    "p = blk_data (blks m ! k) + of_nat off + 4" "l = j - 4" by (rule liveE)
  from allocs_at [OF k(2)] obtain xs ys where ss: "bss ! k = xs @ (j, True) # ys" "off = seg_total xs" by auto
  note br = blocks_rep_nth [OF d(2) k(1)]
  have j: "8 dvd j" "8 dvd seg_total xs" "8 \<le> j" using br(1) quanta_total [of xs] by (auto simp: block_rep_def ss(1) quanta_def)
  have "4 dvd off + 4 + i" "seg_total xs + 4 \<le> off + 4 + i" "off + 4 + i < seg_total xs + j"
    using assms(3,4) l(2) k(4) j ss(2) by auto
  from seg_rep_data [OF _ _ this, of "words m" "blk_data (blks m ! k)" "hdFreeSeg (blks m ! k)" ys v] br(1) block_area(1) [OF br(1)]
  obtain h' where h': "store_word (blk_data (blks m ! k) + of_nat (off + 4 + i)) v (words m) = Some h'"
    "within (blk_data (blks m ! k)) {off + 4 + i} (words m) h'"
    "seg_rep h' (blk_data (blks m ! k)) (hdFreeSeg (blks m ! k)) (bss ! k)"
    by (auto simp: block_rep_def ss(1))
  have "h' = h" using h'(1) assms(5) by (simp add: k(3) ac_simps)
  then have "block_rep h (blks m ! k) (bss ! k)" using br(1) h'(3) by (simp add: block_rep_def)
  from blocks_rep_replaced(1) [OF d(2) k(1) this _ _ h'(2) [unfolded \<open>h' = h\<close>]]
  have "off + 4 + i < seg_total (bss ! k) \<Longrightarrow> blocks_rep (m\<lparr>words := h\<rparr>) bss" by simp
  moreover have "off + 4 + i < seg_total (bss ! k)" using assms(4) l(2) k(4) j(3) ss by simp
  ultimately have "blocks_rep (m\<lparr>words := h\<rparr>) bss" by blast
  then show ?thesis using d assms(1) by (simp add: holds_def msa_rep_alt)
qed

lemma in_use_holds: "in_use m A \<Longrightarrow> \<exists>bss. holds m A bss"
proof (induction rule: in_use.induct)
  case (start len)
  then have "holds (MSA_new len) Map.empty []"
    using MSA_new_rep [of len] by (simp add: holds_def live_def MSA_new_def)
  then show ?case by blast
next
  case (allocate m A os len p m')
  then obtain bss where "holds m A bss" by blast
  from holds_alloc [OF this allocate.hyps(2-4)] allocate.hyps(5) show ?case by auto
next
  case (store m A p n i v h)
  then show ?case using holds_store by blast
next
  case (release m A p n r m')
  then obtain bss where h: "msa_rep m bss" "msa_limit m = 0" "dom A = fst ` live (blks m) bss"
    "\<forall>(p, k) \<in> live (blks m) bss. \<exists>n. A p = Some n \<and> n \<le> k" by (auto simp: holds_def)
  then obtain k where k: "(p, k) \<in> live (blks m) bss" using release.hyps(2) by force
  from free_live [OF h(1) k] release.hyps(3) obtain bss' where
    r: "msa_rep m' bss'" "msa_limit m' = 0" "live (blks m') bss' = live (blks m) bss - {(p, k)}" using h(2) by auto
  let ?L = "live (blks m) bss"
  have one: "l = k" if "(p, l) \<in> ?L" for l using live_functional [OF h(1) that k] .
  have "fst ` (?L - {(p, k)}) = fst ` ?L - {p}"
    by (rule image_fst_remove) (use one k in blast)+
  moreover have "\<forall>(q, l) \<in> ?L - {(p, k)}. \<exists>n. (A(p := None)) q = Some n \<and> n \<le> l"
  proof (intro ballI)
    fix x assume x: "x \<in> ?L - {(p, k)}"
    then have "fst x \<noteq> p" using one by (cases x) auto
    then show "case x of (q, l) \<Rightarrow> \<exists>n. (A(p := None)) q = Some n \<and> n \<le> l" using h(4) x by auto
  qed
  ultimately have "holds m' (A(p := None)) bss'"
    unfolding holds_def r(3) using r(1,2) h(3) by simp
  then show ?case by blast
qed

subsection \<open>Properties\<close>

text \<open>C7: whatever a client allocates and frees, in whatever order, the memory it holds at different
  addresses never overlaps, and lies within the blocks the allocator has from the system.\<close>

theorem allocations_disjoint:
  assumes "in_use m A" "A p = Some n"
  shows "p \<noteq> 0 \<and> (\<exists>b \<in> set (blks m). span p n \<subseteq> extent b)
    \<and> (\<forall>q k. A q = Some k \<longrightarrow> q \<noteq> p \<longrightarrow> span p n \<inter> span q k = {})"
proof -
  from in_use_holds [OF assms(1)] obtain bss where h: "holds m A bss" ..
  then have m: "msa_rep m bss" and rep: "blocks_rep m bss" by (simp_all add: holds_def msa_rep_alt)
  from holds_live [OF h assms(2)] obtain l where l: "(p, l) \<in> live (blks m) bss" "n \<le> l" by blast
  from l(1) obtain i off j where i: "i < length bss" "(off, j) \<in> set (allocs 0 (bss ! i))"
    "p = blk_data (blks m ! i) + of_nat off + 4" "l = j - 4" by (rule liveE)
  note br = blocks_rep_nth [OF rep i(1)]
  have "p \<noteq> 0" by (rule live_nonzero [OF rep l(1)])
  moreover have "\<exists>b \<in> set (blks m). span p n \<subseteq> extent b"
    using live_extent(1) [OF br(1) i(2)] span_mono [OF l(2), of p] br(2) i(3,4) by (intro bexI [of _ "blks m ! i"]) auto
  moreover have "span p n \<inter> span q k = {}" if q: "A q = Some k" "q \<noteq> p" for q k
  proof -
    from holds_live [OF h q(1)] obtain l' where l': "(q, l') \<in> live (blks m) bss" "k \<le> l'" by blast
    have "span p l \<inter> span q l' = {}" using live_disjoint(1) [OF rep l(1) l'(1)] q(2) by simp
    then show ?thesis using span_mono [OF l(2), of p] span_mono [OF l'(2), of q] by blast
  qed
  ultimately show ?thesis by blast
qed

text \<open>C14: allocation and freeing leave the data of everything else the client holds as they are.\<close>

theorem data_kept:
  assumes "in_use m A" "A q = Some k" "a \<in> span q k"
  shows "(\<forall>os len p m'. new_ok os m \<and> len \<noteq> 0 \<and> unat len + 39 < 2 ^ 32 \<and> alloc os len m = Some (p, m')
      \<longrightarrow> words m' a = words m a)
    \<and> (\<forall>p n r m'. A p = Some n \<and> p \<noteq> q \<and> free p m = Some (r, m') \<longrightarrow> words m' a = words m a)"
proof -
  from in_use_holds [OF assms(1)] obtain bss where h: "holds m A bss" ..
  then have m: "msa_rep m bss" "msa_limit m = 0" by (simp_all add: holds_def)
  from holds_live [OF h assms(2)] obtain l where l: "(q, l) \<in> live (blks m) bss" "k \<le> l" by blast
  have a: "a \<in> span q l" using span_mono [OF l(2)] assms(3) by blast
  have "words m' a = words m a" if "new_ok os m" "len \<noteq> 0" "unat len + 39 < 2 ^ 32" "alloc os len m = Some (p, m')" for os len p m'
    using alloc_live [OF m(1) that(1) m(2) that(2,3)] that(4) l(1) a by fastforce
  moreover have "words m' a = words m a" if p: "A p = Some n" "p \<noteq> q" "free p m = Some (r, m')" for p n r m'
  proof -
    from holds_live [OF h p(1)] obtain j where j: "(p, j) \<in> live (blks m) bss" by blast
    have "(q, l) \<in> live (blks m) bss - {(p, j)}" using l(1) p(2) by simp
    then show ?thesis using free_live [OF m(1) j] p(3) a by fastforce
  qed
  ultimately show ?thesis by blast
qed

text \<open>C12: in every such state the operations return: allocation gives an address or NULL, never one that
  the client holds; freeing what the client holds succeeds; the consistency check finds nothing.\<close>

theorem operations_return:
  assumes "in_use m A"
  shows "(\<forall>os len. new_ok os m \<and> unat len + 39 < 2 ^ 32 \<longrightarrow> (\<exists>p m'. alloc os len m = Some (p, m') \<and> A p = None))
    \<and> (\<forall>p n. A p = Some n \<longrightarrow> (\<exists>m'. free p m = Some (0, m'))) \<and> check m = Some 0"
proof -
  from in_use_holds [OF assms] obtain bss where h: "holds m A bss" ..
  then have m: "msa_rep m bss" "msa_limit m = 0" by (simp_all add: holds_def)
  have "\<exists>p m'. alloc os len m = Some (p, m') \<and> A p = None" if o: "new_ok os m" "unat len + 39 < 2 ^ 32" for os len
  proof (cases "len = 0")
    case True
    then show ?thesis using holds_zero [OF h] by (simp add: alloc_def)
  next
    case False
    then show ?thesis using holds_alloc [OF h o(1) False o(2)] by blast
  qed
  moreover have "\<exists>m'. free p m = Some (0, m')" if "A p = Some n" for p n using holds_live [OF h that] free_live [OF m(1)] by blast
  moreover have "check m = Some 0" by (rule check_rep [OF m(1)])
  ultimately show ?thesis by blast
qed

text \<open>Concrete states for the witnesses: a system that has memory at one address, and one that has none.\<close>

definition one_block :: new_op where
  "one_block len = (if len \<le> 4096 then Some (4096, \<lambda>_. 0) else None)"

definition no_memory :: new_op where
  "no_memory len = None"

definition held1 :: "addr \<times> MSA" where
  "held1 = the (alloc one_block 8 (MSA_new 92))"

definition held2 :: "addr \<times> MSA" where
  "held2 = the (alloc no_memory 4 (snd held1))"

lemma held1: "alloc one_block 8 (MSA_new 92) = Some held1"
  unfolding held1_def by (rule some_the) code_simp

lemma held1_at: "held1 = (4128, snd held1)"
proof -
  have "fst held1 = 4128" unfolding held1_def by code_simp
  then show ?thesis by (simp add: prod_eq_iff)
qed

lemma held2: "alloc no_memory 4 (snd held1) = Some held2"
  unfolding held2_def held1_def by (rule some_the) code_simp

lemma held2_at: "held2 = (4144, snd held2)"
proof -
  have "fst held2 = 4144" unfolding held2_def held1_def by code_simp
  then show ?thesis by (simp add: prod_eq_iff)
qed

lemma in_use_held1: "in_use (snd held1) [4128 \<mapsto> 8]"
proof -
  have "new_ok one_block (MSA_new 92)"
    by (auto simp: new_ok_def one_block_def MSA_new_def word_le_nat_alt split: if_splits)
  from in_use.allocate [OF in_use.start [of 92] this, of 8 4128 "snd held1"] held1 show ?thesis by (simp add: held1_at [symmetric])
qed

lemma in_use_held2: "in_use (snd held2) [4128 \<mapsto> 8, 4144 \<mapsto> 4]"
proof -
  have "new_ok no_memory (snd held1)" by (simp add: new_ok_def no_memory_def)
  from in_use.allocate [OF in_use_held1 this, of 4 4144 "snd held2"] held2 show ?thesis by (simp add: held2_at [symmetric])
qed

theorem allocations_disjoint_witness:
  "span 4128 8 \<inter> span 4144 4 = {} \<and> (\<exists>b \<in> set (blks (snd held2)). span 4128 8 \<subseteq> extent b)"
  using allocations_disjoint [OF in_use_held2, of 4128 8] by simp

lemma no_memory_ok: "new_ok no_memory m"
  by (simp add: new_ok_def no_memory_def)

theorem operations_return_witness:
  "(\<exists>p m'. alloc no_memory 4 (snd held2) = Some (p, m') \<and> p \<notin> {4128, 4144})
   \<and> (\<exists>m'. free 4144 (snd held2) = Some (0, m'))"
proof -
  have "\<exists>p m'. alloc no_memory 4 (snd held2) = Some (p, m') \<and> [4128 \<mapsto> (8::nat), 4144 \<mapsto> 4] p = None"
    using operations_return [OF in_use_held2] no_memory_ok by simp
  moreover have "\<exists>m'. free 4144 (snd held2) = Some (0, m')"
    using operations_return [OF in_use_held2] by simp
  ultimately show ?thesis by (auto split: if_splits)
qed

lemma freed: "free 4128 (snd held2) = Some (the (free 4128 (snd held2)))"
  unfolding held2_def held1_def by (rule some_the) code_simp

theorem data_kept_witness: "words (snd (the (free 4128 (snd held2)))) 4144 = words (snd held2) 4144"
proof -
  have "4144 \<in> span (4144 :: addr) 4" by (auto simp: span_def intro!: exI [of _ 0])
  then have "\<forall>p n r m'. [4128 \<mapsto> (8::nat), 4144 \<mapsto> 4] p = Some n \<and> p \<noteq> 4144 \<and> free p (snd held2) = Some (r, m')
      \<longrightarrow> words m' 4144 = words (snd held2) 4144"
    using data_kept [OF in_use_held2, of 4144 4 4144] by simp
  from this [rule_format, of 4128 8 "fst (the (free 4128 (snd held2)))" "snd (the (free 4128 (snd held2)))"]
  show ?thesis using freed by simp
qed

lemma allocs_nonempty: "0 < n_alloc ss \<Longrightarrow> allocs off ss \<noteq> []"
  by (induction ss arbitrary: off) (auto split: if_splits)

text \<open>C13: nothing is leaked: once the client has freed all that it allocated, the allocator has given every
  block back to the system, and all its counts are zero.\<close>

theorem no_leak:
  assumes "in_use m A" "A = Map.empty"
  shows "blks m = [] \<and> currBlk m = 0 \<and> nBlk m = 0 \<and> nSeg m = 0 \<and> currUse m = 0 \<and> totUse m = 0"
proof -
  from in_use_holds [OF assms(1)] obtain bss where h: "holds m A bss" ..
  note d = holdsD [OF h]
  have none: "live (blks m) bss = {}" using d(4) assms(2) by simp
  have bss: "bss = []"
  proof (rule ccontr)
    assume "bss \<noteq> []"
    then have "0 < n_alloc (bss ! 0)" using d(1) by (auto simp: msa_rep_def)
    then obtain x where "x \<in> set (allocs 0 (bss ! 0))" using allocs_nonempty by (metis last_in_set)
    then have "block_live (blk_data (blks m ! 0)) (bss ! 0) \<noteq> {}" by (auto simp: block_live_def)
    then show False using none \<open>bss \<noteq> []\<close> by (auto simp: live_def)
  qed
  then show ?thesis using d(1) by (simp add: msa_rep_def)
qed

definition given_back :: MSA where
  "given_back = snd (the (free 4128 (snd held1)))"

lemma given_back: "free 4128 (snd held1) = Some (fst (the (free 4128 (snd held1))), given_back)"
  unfolding given_back_def prod.collapse held1_def by (rule some_the) code_simp

theorem no_leak_witness: "blks given_back = [] \<and> totUse given_back = 0"
proof -
  have "in_use given_back ([4128 \<mapsto> 8](4128 := None))" by (rule in_use.release [OF in_use_held1 _ given_back]) simp
  then show ?thesis using no_leak [of given_back Map.empty] by simp
qed

text \<open>C9: allocation refines first fit on the list of segments. A request of no bytes, which changes nothing, and
  one that no free segment is long enough for get NULL, the latter only if the system refuses a new block or the
  limit leaves less than the request; any other takes the first segment that is long enough of a block, a new one
  only if none of the blocks there are fits, and splits it. The request is below 2^32-39, and a limit that
  is set either has room for a whole block or not even for the request.\<close>

theorem alloc_refines:
  assumes "msa_rep m bss" "new_ok os m" "over_limit (of_nat (req_len len)) m \<longrightarrow> refused (of_nat (req_len len)) m"
    and "unat len + 39 < 2 ^ 32"
  shows "\<exists>p m'. alloc os len m = Some (p, m') \<and>
     (if len = 0 then p = 0 \<and> m' = m
      else p = 0 \<and> msa_rep m' bss \<and> (\<forall>ss \<in> set bss. carve (req_len len) ss = None)
         \<and> (os (addBlk_len (of_nat (req_len len)) m) = None \<or> refused (of_nat (req_len len)) m)
       \<or> (\<exists>bs1 bss1 i off ts. source_blocks (req_len len) os m bss bs1 bss1 \<and> i < length bss1
         \<and> carve (req_len len) (bss1 ! i) = Some (off, ts) \<and> p = blk_data (bs1 ! i) + of_nat off + 4 \<and> msa_rep m' (bss1[i := ts])))"
proof (cases "len = 0")
  case True
  then show ?thesis by (simp add: alloc_def)
next
  case False
  obtain p m' where a: "alloc os len m = Some (p, m')" using alloc_spec [OF assms(1-3) False assms(4)] by (elim exE conjE)
  have "p = 0 \<and> msa_rep m' bss \<and> (\<forall>ss \<in> set bss. carve (req_len len) ss = None)
         \<and> (os (addBlk_len (of_nat (req_len len)) m) = None \<or> refused (of_nat (req_len len)) m)
       \<or> (\<exists>bs1 bss1 i off ts. source_blocks (req_len len) os m bss bs1 bss1 \<and> i < length bss1
         \<and> carve (req_len len) (bss1 ! i) = Some (off, ts) \<and> p = blk_data (bs1 ! i) + of_nat off + 4 \<and> msa_rep m' (bss1[i := ts]))"
    using alloc_spec [OF assms(1-3) False assms(4)] unfolding a option.inject prod.inject
  proof (elim exE conjE disjE, goal_cases)
    case 3
    then show ?case by blast
  qed simp_all
  then show ?thesis using a False by simp
qed

theorem alloc_refines_witness:
  "alloc no_memory 0 (snd held2) = Some (0, snd held2)
   \<and> (\<exists>p m' bss'. alloc no_memory 4 (snd held2) = Some (p, m') \<and> msa_rep m' bss')
   \<and> (\<exists>p m' bss'. alloc no_memory 4 ((snd held2)\<lparr>msa_limit := totUse (snd held2)\<rparr>) = Some (p, m') \<and> msa_rep m' bss')"
proof -
  from in_use_holds [OF in_use_held2] obtain bss where h: "holds (snd held2) [4128 \<mapsto> 8, 4144 \<mapsto> 4] bss" ..
  note d = holdsD [OF h]
  have l: "over_limit (of_nat (req_len k)) (snd held2) \<longrightarrow> refused (of_nat (req_len k)) (snd held2)" for k
    using d(3) by (simp add: over_limit_def)
  let ?m = "(snd held2)\<lparr>msa_limit := totUse (snd held2)\<rparr>"
  have m: "msa_rep ?m bss" using d(1) by (simp add: msa_rep_def)
  have "over_limit (of_nat (req_len 4)) ?m \<longrightarrow> refused (of_nat (req_len 4)) ?m" by (simp add: refused_def req_len_def)
  from alloc_refines [OF m no_memory_ok this] alloc_refines [OF d(1) no_memory_ok l, of 0]
    alloc_refines [OF d(1) no_memory_ok l, of 4] show ?thesis by auto
qed

text \<open>C10: freeing refines the list operation: it marks the segment free and joins it with its free neighbours,
  or, if it was the last one in use in its block, gives the block back to the system.\<close>

theorem free_refines:
  assumes "msa_rep m bss" "i < length bss" "bss ! i = xs @ (k, True) # ys" "p = blk_data (blks m ! i) + of_nat (seg_total xs) + 4"
  shows "\<exists>m'. free p m = Some (0, m') \<and> msa_rep m'
    (if n_alloc (bss ! i) = 1 then take i bss @ drop (Suc i) bss else bss[i := fuse (xs @ (k, False) # ys)])"
  using free_spec [OF assms] by (auto split: if_splits)

theorem free_refines_witness:
  "\<exists>m' bss'. free 4144 (snd held2) = Some (0, m') \<and> msa_rep m' bss'"
proof -
  from in_use_holds [OF in_use_held2] obtain bss where h: "holds (snd held2) [4128 \<mapsto> 8, 4144 \<mapsto> 4] bss" ..
  from holds_live [OF h, of 4144 4] obtain l where "(4144, l) \<in> live (blks (snd held2)) bss" by auto
  then obtain i off n where i: "i < length bss" "(off, n) \<in> set (allocs 0 (bss ! i))"
    "4144 = blk_data (blks (snd held2) ! i) + of_nat off + 4" by (rule liveE)
  from allocs_at [OF i(2)] obtain xs ys where "bss ! i = xs @ (n, True) # ys" "off = seg_total xs" by auto
  then show ?thesis using free_refines [OF holdsD(1) [OF h] i(1), of xs n ys 4144] i(3) by blast
qed

text \<open>C35: the rounding of a request wraps around at the top of the 32-bit range: a request of nearly four
  gigabytes becomes one of no bytes, which the head of the free list satisfies and stays free, so the
  client is given memory that the allocator hands out again.\<close>

theorem oversized_request:
  assumes "0xFFFFFFF5 \<le> len" "len \<le> 0xFFFFFFFC" "h (hdFreeSeg b) = Some l" "h (hdFreeSeg b + 4) = Some n" "l \<noteq> 0"
  shows "\<exists>b'. fstFit (allocLen len) b h = Some (hdFreeSeg b, b', h) \<and> hdFreeSeg b' = hdFreeSeg b"
proof -
  have "2 ^ 32 \<le> unat len + 11" "unat len + 11 < 2 ^ 32 + 8" using assms(1,2) by (simp_all add: word_le_nat_alt)
  then have "unat (len + 4 + 7) < 8" by (simp add: unat_word_ariths le_mod_geq)
  then have "(len + 4 + 7) div 8 = 0" by (simp add: unat_eq_0 [symmetric] unat_div_distrib)
  then have "allocLen len = 0" by (simp add: allocLen_def)
  moreover have "h(hdFreeSeg b \<mapsto> l, hdFreeSeg b + 4 \<mapsto> n) = h" using assms(3,4) by (auto simp: fun_upd_def)
  ultimately show ?thesis using assms(3-5)
    by (simp add: fstFit_def fstFit_loop.simps take_seg_def set_next_def store_word_def Let_def)
qed

theorem oversized_request_witness:
  "\<exists>b'. fstFit (allocLen 0xFFFFFFF8) (hd (blks (snd held1))) (words (snd held1)) = Some (4140, b', words (snd held1))
     \<and> hdFreeSeg b' = 4140"
proof -
  have hd: "hdFreeSeg (hd (blks (snd held1))) = 4140" unfolding held1_def by code_simp
  have "words (snd held1) 4140 = Some 48" "words (snd held1) (4140 + 4) = Some 0" unfolding held1_def by code_simp+
  from oversized_request [of "0xFFFFFFF8" "words (snd held1)" "hd (blks (snd held1))", unfolded hd, OF _ _ this] show ?thesis by simp
qed

text \<open>With a limit set, the check that a shortened block still serves the request leaves out the header: what
  remains can be too short even for the header, and its length wraps around.\<close>

lemma limit_leaves_out_header:
  assumes "msa_limit m \<noteq> 0" "msa_limit m < totUse m + addBlk_len R m" "R \<le> msa_limit m - totUse m"
    "msa_limit m - totUse m < 28" "os (msa_limit m - totUse m) = Some (base, c)"
  shows "addBlk os R m = None"
  using assms by (simp add: addBlk_def MSA_BLK_HDR_LENGTH_def Let_def)

end
