(* ===== verification/Spec2Isabelle.thy ===== *)
theory Spec2Isabelle
  imports Varint Gen Archive Memory Repr Machine Operand Exec Operators Assembler Linker Layout Operands Locations Instructions Compiled Branches Programs
    MSA_Client
begin

text \<open>
  IvoryScript compiles scripts to byte code and runs it on a virtual machine. This development models the
  back end of the compiler, the interpreter of the byte code, and the run-time structures beneath it, in
  the configuration of the 32-bit little-endian builds: pointers, \<open>int\<close>, \<open>long\<close> and \<open>size_t\<close> have 32
  bits, \<open>char\<close> is signed, names and types are signed and tags unsigned 16-bit integers, and the
  options are GARBAGE_COLLECTION, SERIALISATION, FRAME_DESCRIPTORS, GLOBAL_VM, INTERPRETER and
  CLOSURE_UPDATE without RUN_TIME_TYPE_CHECKS, external racks and assertions. All paths are below
  src/source.

  How the parts interact: the compiler's code generation takes the instructions of the intermediate code
  one by one (Instructions), chooses the opcode (Operators) and turns the operands into address modes and
  constants (Operands, Locations), whose placement in structures and cells comes from the representations
  (Layout), and appends the bytes to the sections of segments (Assembler). Linking places the sections one after the other, writes the
  distances between them and copies all to memory (Linker). The machine (Machine, on the memory of
  Memory) executes it instruction by instruction (Exec), decoding operands (Operand); the values it
  works on include the tagged words of expressions (Repr). Cells and stacks come from the segment
  allocator (MSA, MSA_Alloc, MSA_Client). That the generator and the interpreter agree is shown for single
  operands (Locations), single instructions (Compiled, Branches) and whole sequences (Programs). Variable-length
  integers, hashes and archives (Varint, Gen, Archive) serve the instruction stream and the stores.

  Conventions. A C++ function that can go wrong at the level of the language, by an access outside its
  memory, a shift or a signed result out of range or an uninitialised value, gives an option, and
  \<open>None\<close> stands for the undefined behaviour. Errors that the program itself reports are values.
  Objects that C++ links by pointers are lists of records, and a pointer is a position or the address
  of the object. What lies outside the code is a parameter: the arithmetic of floating-point numbers and
  the addresses of native entry points are the record \<open>host\<close> of Operand, the system's
  \<open>new\<close> is the argument \<open>os\<close> of the allocator, and what is assumed of it is \<open>new_ok\<close>: a new block
  does not overlap those in use and does not wrap around the address space. Where the system has no block,
  \<open>os\<close> gives \<open>None\<close>, which stands for the null pointer that API/MSA/addBlk.cpp tests for; an operator
  \<open>new\<close> that throws instead leaves the allocator at that point. The release of a block, which the code
  allocates as an array of bytes and deletes as a \<open>SegBlk\<close>, is modelled as giving its memory back.

  Theories, with the files they translate:

  \<^item> Prelude: the types of header/general.h and header/ivory/common.h, bytes of words, hints.
  \<^item> Varint: API/gen/packVLU.cpp, packVLI.cpp, unpackVLU.cpp, unpackVLI.cpp. The encodings are defined
    exactly on the ranges that the readers know, are shortest, and are read back.
  \<^item> Gen: API/gen/hashDJB2.cpp, hashString.cpp, byteSwap.cpp.
  \<^item> Archive: API/archive/archive.cpp, the operators over \<open>put\<close> and \<open>get\<close>. These two are pure virtual in
    header/archive.h; the stream is modelled as a list of bytes, and \<open>get\<close> at its end gives \<open>None\<close>. The bytes
    of every fixed-width type are stated, and are read back.
  \<^item> Memory: the byte-wise access to the instruction stream of API/ivory/common/interpreter/exec.cpp and
    header/ivory/exec.h on a partial map from addresses to bytes.
  \<^item> Repr: class Expr and its macros in header/ivory/common.h: the ranges of the value words are apart
    and the conversions between them and C++ values inverse.
  \<^item> Machine: header/ivory/machine.h, the registers as a record with the memory, the stack macros.
  \<^item> Operand: the macros \<open>loadT\<close>, \<open>lvT\<close> and \<open>storeT\<close> of header/ivory/exec.h.
  \<^item> Exec: \<open>execByteCode\<close> of API/ivory/common/interpreter/exec.cpp, one function for each instruction
    and the loop as a partial function. Instructions that call another component of the run-time
    system end the modelled run with the outcome \<open>Service\<close>; \<open>Next\<close> continues, the other
    outcomes leave the loop. The lemmas give the effect of calls, branches, comparisons, arithmetic,
    updates and moves, opcode by opcode. \<open>decode\<close> is the table of opcodes as a function, for evaluation.
  \<^item> Operators: the table of primitives of API/ivory/compiler/code.cpp and the choice of opcodes in
    API/ivory/compiler/byteCode.cpp. What is compiled is what Exec runs, with two exceptions, each of them
    stated: the conversion from Float has the illegal opcode, and a branch on <= between tags that of the branch
    on equality. \<open>miscompiled\<close> of Compiled names the two.
  \<^item> Assembler, Linker: the sections, segments, constant tables, labels and back-patches of
    header/ivory/compiler/byteCode.h and API/ivory/compiler/byteCode.cpp, and the end of
    \<open>ByteCode::genTarget\<close>.
  \<^item> Layout: header/ivory/repr.h, API/ivory/common/repr/repr.cpp and sizeOfRepr.cpp, the shared structure
    representations of API/ivory/compiler/iCode.cpp. Sizes and offsets are natural numbers that wrap around
    like \<open>size_t\<close> (\<open>wrap32\<close>); \<open>no_wrap\<close> says that a structure stays below 4 GB, and \<open>regular\<close> that its
    alignments are ones the layout knows.
  \<^item> Operands, Locations: the operands of API/ivory/compiler/byteCode.cpp for the locations of
    header/ivory/compiler/ICode.h and the constants of header/ivory/compiler/code.h. What is generated
    for a location, once linked, is decoded by Operand to the place the location stands for (\<open>loc_place\<close>,
    which adds every offset). It is so for every location but a component of a register, of the location of the
    special value or of a static location (\<open>whole\<close>): there the generator drops the offset, which the code
    asserts to be 0 for the first two but not for static locations. The assertions are off in the modelled build.
    That a component of a static structure is taken for the structure is a theorem on errors.
  \<^item> Instructions: \<open>genByteCode\<close> of every class of instruction in API/ivory/compiler/byteCode.cpp, with the
    data members of header/ivory/compiler/code.h, the operands that are not locations, and the end of an
    instruction in \<open>ByteCode::genTarget\<close>. The name of a built-in function in the table of names is the
    parameter \<open>useName\<close>; the choice of the segment of an instruction by its lambda is left out, so that a
    sequence of instructions stays in its section.
  \<^item> Compiled: what \<open>generates\<close> says of the code of an instruction; \<open>operand_place\<close>, the place of an
    operand, and \<open>effect\<close>, what an instruction does to the places of its operands, are the specification.
    Moves, conversions, arithmetic and comparisons, linked and loaded, have exactly that effect in the
    interpreter. \<open>reads\<close> and \<open>writes\<close> say for which operands: constants at their type, and locations that are
    \<open>whole\<close>. Not covered are operands for which the encoding and the decoder disagree: strings, tags from 32 to
    255, for which see the theorem on errors in Operands, and sources relative to memory at the types for which
    \<open>mem_ext\<close> of Operand does not read the value at the address (Byte, Bits, Float and Double).
  \<^item> Branches: the field of a label is filled in with the distance from the end of the instruction to where
    the label was bound, so that jumps and branches go on there exactly when their relation holds.
  \<^item> Programs: \<open>pstep\<close> is a machine that executes instructions by their number, with labels as numbers;
    the interpreter simulates it on the byte code, as long as the program does not overwrite its own code
    (\<open>intact\<close>), and returns when it reaches an exit. A loop with a branch back, a push and a load of a
    global runs as the example.
  \<^item> MSA, MSA_Alloc, MSA_Client: header/MSA.h and API/MSA. MSA has the operations on words and, beside
    them, the operations on lists of segments that they implement; MSA_Alloc shows this for the whole
    state; MSA_Client derives what clients rely on, after any sequence of allocations, releases and writes of
    the client to what it holds (\<open>in_use\<close>), of requests below 2^32-39 and without a limit. The refinement of a
    single allocation also covers a limit, but for one that leaves room for the request and not for a whole block.

  Bounds and fuel. Loops that walk memory (\<open>execByteCode\<close>, the searches of the allocator) are partial
  functions and need no fuel: that they return is proved where it holds, for the allocator in every
  reachable state, for the interpreter as the equivalence with a finite run of its step relation, and for
  compiled sequences when their own steps reach an exit. Loops
  over the bytes of one operand or the entries of one table recurse over their count. The assembler keeps
  positions as natural numbers; the lemmas on linking ask that the code be smaller than 2^32 bytes.

  Not modelled: the grammar and scanner, syntax tree, type inference, classes and the translation to
  intermediate code, which work on mutable graphs of C++ objects; the collecting variant of the
  allocator with its marking and sweep; the tables of names and the signatures of types; the object store and serialisation streams; the functions
  behind the services, mostly calls of the C library; listings and printing; applications and the code
  for each platform.
\<close>

end
